(* ===== verification/Prelude.thy ===== *)
theory Prelude
  imports Main "HOL-Library.Word" "HOL-Library.List_Lexorder"
begin

unbundle bit_operations_syntax

text \<open>
  Shared vocabulary of the development.  A Go \<^verbatim>\<open>byte\<close> is an 8-bit word and a key or value is
  a list of bytes; \<^verbatim>\<open>bytes.Compare(a, b) < 0\<close> is the lexicographic order \<open>a < b\<close> that
  \<open>HOL-Library.List_Lexorder\<close> puts on lists.  The theory holds the byte-string lemmas the
  components share (successor keys, comparison of strings with a common prefix), fixed width
  big- and little-endian codes (package \<^verbatim>\<open>encoding/binary\<close>), the binary search of package
  \<^verbatim>\<open>sort\<close>, and the three-way comparison of package \<^verbatim>\<open>cmp\<close>.
\<close>

section \<open>Types\<close>

type_synonym byte = "8 word"
type_synonym bytes = "byte list"
type_synonym ('e, 'a) result = "'e + 'a"

named_theorems lex_simps \<open>lexicographic comparison of concatenated byte strings\<close>
named_theorems code_simps \<open>length and value of fixed width integer codes\<close>

section \<open>Lexicographic order\<close>

lemma lex_append_same [lex_simps]: "(xs @ ys < xs @ zs) = (ys < (zs :: 'a :: linorder list))"
  by (induction xs) auto

lemma lex_append_same_le [lex_simps]: "(xs @ ys \<le> xs @ zs) = (ys \<le> (zs :: 'a :: linorder list))"
  by (induction xs) auto

lemma lex_append_less [lex_simps]: "(xs < xs @ zs) = (zs \<noteq> ([] :: 'a :: linorder list))"
  using lex_append_same [of xs "[]" zs] by (cases zs) auto

lemma lex_append_le [lex_simps, simp]: "xs \<le> xs @ (zs :: 'a :: linorder list)"
  using lex_append_same_le [of xs "[]" zs] by simp

text \<open>Two strings of equal length decide the comparison of any extensions, unless they agree.\<close>

lemma lex_append_eq_length:
  fixes xs ys :: "'a :: linorder list"
  assumes "length xs = length ys"
  shows "(xs @ us < ys @ vs) = (xs < ys \<or> xs = ys \<and> us < vs)"
  using assms by (induction xs ys rule: list_induct2) auto

subsection \<open>The successor key\<close>

definition keyAfter :: "bytes \<Rightarrow> bytes" where
  "keyAfter k = k @ [0]"

lemma length_keyAfter [simp]: "length (keyAfter k) = Suc (length k)"
  by (simp add: keyAfter_def)

lemma less_keyAfter [simp, intro]: "k < keyAfter k"
  by (simp add: keyAfter_def lex_simps)

lemma keyAfter_neq [simp]: "keyAfter k \<noteq> []" "keyAfter k \<noteq> k" "k \<noteq> keyAfter k"
  by (simp_all add: keyAfter_def)

text \<open>No byte string lies strictly between a key and its successor.\<close>

lemma keyAfter_le_iff: "keyAfter k \<le> x \<longleftrightarrow> k < x"
proof (induction k arbitrary: x)
  case Nil
  show ?case by (cases x) (auto simp: keyAfter_def word_gt_0)
next
  case (Cons a k)
  then show ?case by (cases x) (auto simp: keyAfter_def)
qed

lemma less_keyAfter_iff: "x < keyAfter k \<longleftrightarrow> x \<le> k"
  using keyAfter_le_iff [of k x] by auto

lemma keyAfter_inject [simp]: "keyAfter a = keyAfter b \<longleftrightarrow> a = b"
  by (simp add: keyAfter_def)

lemma keyAfter_mono [simp]: "keyAfter a < keyAfter b \<longleftrightarrow> a < b"
proof -
  have "keyAfter b \<le> keyAfter a \<longleftrightarrow> b \<le> a"
    by (metis keyAfter_le_iff less_keyAfter_iff)
  then show ?thesis by (simp only: not_le [symmetric])
qed

section \<open>Three-way comparison\<close>

definition cmp_compare :: "'a :: linorder \<Rightarrow> 'a \<Rightarrow> int" where
  "cmp_compare x y = (if x < y then -1 else if x = y then 0 else 1)"

lemma cmp_compare_lt [simp]: "cmp_compare x y < 0 \<longleftrightarrow> x < y"
  and cmp_compare_eq [simp]: "cmp_compare x y = 0 \<longleftrightarrow> x = y"
  and cmp_compare_gt [simp]: "0 < cmp_compare x y \<longleftrightarrow> y < x"
  by (auto simp: cmp_compare_def)

lemma cmp_compare_self [simp]: "cmp_compare x x = 0"
  by simp

section \<open>Binary search\<close>

text \<open>
  \<^verbatim>\<open>sort.Search(n, f)\<close>: halves \<open>[i, j)\<close> until it is empty.  On a predicate that never turns
  false again it returns the least index in \<open>[0, n)\<close> at which it holds, or \<open>n\<close>.
\<close>

function sort_search_loop :: "(nat \<Rightarrow> bool) \<Rightarrow> nat \<Rightarrow> nat \<Rightarrow> nat" where
  "sort_search_loop f i j =
     (if i < j
      then (let h = (i + j) div 2
            in if \<not> f h then sort_search_loop f (h + 1) j else sort_search_loop f i h)
      else i)"
  by pat_completeness auto
termination
  by (relation "measure (\<lambda>(f, i, j). j - i)") auto

declare sort_search_loop.simps [simp del]

definition sort_search :: "nat \<Rightarrow> (nat \<Rightarrow> bool) \<Rightarrow> nat" where
  "sort_search n f = sort_search_loop f 0 n"

text \<open>The predicate never turns false again below \<open>n\<close>.\<close>

definition monotone_below :: "nat \<Rightarrow> (nat \<Rightarrow> bool) \<Rightarrow> bool" where
  "monotone_below n f \<longleftrightarrow> (\<forall>a b. a \<le> b \<longrightarrow> b < n \<longrightarrow> f a \<longrightarrow> f b)"

definition least_or_end :: "nat \<Rightarrow> (nat \<Rightarrow> bool) \<Rightarrow> nat \<Rightarrow> bool" where
  "least_or_end n f r \<longleftrightarrow> r \<le> n \<and> (\<forall>a < r. \<not> f a) \<and> (r < n \<longrightarrow> f r)"

lemma sort_search_loop_spec:
  assumes "monotone_below n f" and "i \<le> j" and "j \<le> n"
    and "\<forall>a < i. \<not> f a" and "j < n \<longrightarrow> f j"
  shows "least_or_end n f (sort_search_loop f i j)"
  using assms
proof (induction f i j rule: sort_search_loop.induct)
  case (1 f i j)
  let ?h = "(i + j) div 2"
  show ?case
  proof (cases "i < j")
    case False
    then have "sort_search_loop f i j = i" by (simp add: sort_search_loop.simps [of f i j])
    moreover have "i = j" using False "1.prems"(2) by simp
    ultimately show ?thesis using "1.prems"(3,4,5) by (simp add: least_or_end_def)
  next
    case True
    then have h: "i \<le> ?h" "?h < j" by auto
    show ?thesis
    proof (cases "f ?h")
      case False
      have "\<forall>a < ?h + 1. \<not> f a"
      proof (intro allI impI notI)
        fix a assume "a < ?h + 1" and "f a"
        with "1.prems"(1,3) h have "f ?h" unfolding monotone_below_def
          by (metis add.commute less_Suc_eq_le order_less_le_trans plus_1_eq_Suc)
        with False show False ..
      qed
      with True False h "1.prems" have "least_or_end n f (sort_search_loop f (?h + 1) j)"
        by (intro "1.IH"(1)) auto
      with True False show ?thesis by (simp add: sort_search_loop.simps [of f i j] Let_def)
    next
      case fh: True
      with True h "1.prems" have "least_or_end n f (sort_search_loop f i ?h)"
        by (intro "1.IH"(2)) auto
      with True fh show ?thesis by (simp add: sort_search_loop.simps [of f i j] Let_def)
    qed
  qed
qed

lemma sort_search_spec: "monotone_below n f \<Longrightarrow> least_or_end n f (sort_search n f)"
  unfolding sort_search_def by (rule sort_search_loop_spec) auto

lemma sort_search_le [intro]: "monotone_below n f \<Longrightarrow> sort_search n f \<le> n"
  using sort_search_spec [of n f] by (simp add: least_or_end_def)

lemma sort_search_less_iff:
  assumes "monotone_below n f" and "a < n"
  shows "a < sort_search n f \<longleftrightarrow> \<not> f a"
  using sort_search_spec [OF assms(1)] assms unfolding least_or_end_def monotone_below_def
  by (meson linorder_not_less order_le_less_trans)

text \<open>Searching a sorted list for the first entry at or above a bound splits it.\<close>

lemma sort_search_sorted:
  fixes g :: "'a \<Rightarrow> 'k :: linorder"
  assumes "sorted (map g xs)" and "\<And>x y. p x \<Longrightarrow> g x \<le> g y \<Longrightarrow> p y"
  shows "take (sort_search (length xs) (\<lambda>i. p (xs ! i))) xs = takeWhile (\<lambda>x. \<not> p x) xs"
    and "drop (sort_search (length xs) (\<lambda>i. p (xs ! i))) xs = dropWhile (\<lambda>x. \<not> p x) xs"
    and "sort_search (length xs) (\<lambda>i. p (xs ! i)) = length (takeWhile (\<lambda>x. \<not> p x) xs)"
proof -
  let ?f = "\<lambda>i. p (xs ! i)" and ?s = "sort_search (length xs) (\<lambda>i. p (xs ! i))"
  have "monotone_below (length xs) ?f"
    unfolding monotone_below_def
  proof (intro allI impI)
    fix a b assume "a \<le> b" "b < length xs" "p (xs ! a)"
    moreover from this have "g (xs ! a) \<le> g (xs ! b)"
      using sorted_nth_mono [OF assms(1), of a b] by simp
    ultimately show "p (xs ! b)" using assms(2) by blast
  qed
  then have "least_or_end (length xs) ?f ?s" by (rule sort_search_spec)
  then have le: "?s \<le> length xs" and below: "\<forall>a < ?s. \<not> p (xs ! a)"
    and at: "?s < length xs \<Longrightarrow> p (xs ! ?s)"
    by (auto simp: least_or_end_def)
  have tw: "takeWhile (\<lambda>x. \<not> p x) xs = take ?s xs"
    using below at by (intro takeWhile_eq_take_P_nth) auto
  then show "take ?s xs = takeWhile (\<lambda>x. \<not> p x) xs" by simp
  from tw le show len: "?s = length (takeWhile (\<lambda>x. \<not> p x) xs)" by simp
  show "drop ?s xs = dropWhile (\<lambda>x. \<not> p x) xs"
    by (subst dropWhile_eq_drop) (simp only: len [symmetric])
qed

section \<open>Fixed width integer codes\<close>

text \<open>
  \<open>be_bytes n x\<close> is the big-endian code of \<open>x\<close> on \<open>n\<close> bytes (\<^verbatim>\<open>binary.BigEndian.PutUint\<close>),
  \<open>be_val\<close> the value of such a code; \<open>le_bytes\<close> and \<open>le_val\<close> are the little-endian forms.
\<close>

fun le_bytes :: "nat \<Rightarrow> nat \<Rightarrow> bytes" where
  "le_bytes 0 x = []"
| "le_bytes (Suc n) x = of_nat x # le_bytes n (x div 256)"

fun le_val :: "bytes \<Rightarrow> nat" where
  "le_val [] = 0"
| "le_val (b # bs) = unat b + 256 * le_val bs"

definition be_bytes :: "nat \<Rightarrow> nat \<Rightarrow> bytes" where
  "be_bytes n x = rev (le_bytes n x)"

definition be_val :: "bytes \<Rightarrow> nat" where
  "be_val bs = le_val (rev bs)"

lemma unat_byte_lt [simp]: "unat (b :: byte) < 256"
  using unsigned_less [of b, where ?'a = nat] by simp

lemma byte_256 [simp]: "(256 :: byte) = 0"
  by simp

lemma length_le_bytes [simp, code_simps]: "length (le_bytes n x) = n"
  by (induction n arbitrary: x) auto

lemma length_be_bytes [simp, code_simps]: "length (be_bytes n x) = n"
  by (simp add: be_bytes_def)

lemma le_val_le_bytes [code_simps]: "le_val (le_bytes n x) = x mod 256 ^ n"
proof (induction n arbitrary: x)
  case (Suc n)
  have "x mod (256 * 256 ^ n) = x mod 256 + 256 * (x div 256 mod 256 ^ n)"
    by (simp add: mod_mult2_eq)
  then show ?case using Suc by (simp add: unat_of_nat)
qed simp

lemma le_val_lt: "le_val bs < 256 ^ length bs"
proof (induction bs)
  case (Cons b bs)
  have "unat b + 256 * le_val bs < 256 + 256 * le_val bs" using unat_byte_lt [of b] by linarith
  also have "\<dots> = 256 * Suc (le_val bs)" by simp
  also have "\<dots> \<le> 256 * 256 ^ length bs" using Cons by (intro mult_le_mono2) simp
  finally show ?case by simp
qed simp

lemma le_bytes_le_val [simp]: "le_bytes (length bs) (le_val bs) = bs"
  by (induction bs) simp_all

lemma le_bytes_mod [simp]: "le_bytes n (x mod 256 ^ n) = le_bytes n x"
  using le_bytes_le_val [of "le_bytes n x"] by (simp add: le_val_le_bytes)

lemma be_val_be_bytes [code_simps]: "be_val (be_bytes n x) = x mod 256 ^ n"
  by (simp add: be_val_def be_bytes_def le_val_le_bytes)

lemma be_val_lt: "be_val bs < 256 ^ length bs"
  using le_val_lt [of "rev bs"] by (simp add: be_val_def)

lemma be_bytes_be_val [simp]: "be_bytes (length bs) (be_val bs) = bs"
proof -
  have "le_bytes (length (rev bs)) (le_val (rev bs)) = rev bs" by (rule le_bytes_le_val)
  then show ?thesis by (simp add: be_bytes_def be_val_def)
qed

lemma le_val_append: "le_val (xs @ ys) = le_val xs + 256 ^ length xs * le_val ys"
  by (induction xs) (auto simp: algebra_simps)

lemma be_val_Cons: "be_val (b # bs) = unat b * 256 ^ length bs + be_val bs"
  by (simp add: be_val_def le_val_append)

lemma be_val_Nil [simp]: "be_val [] = 0"
  by (simp add: be_val_def)

lemma be_val_append: "be_val (xs @ ys) = be_val xs * 256 ^ length ys + be_val ys"
  by (simp add: be_val_def le_val_append)

lemma be_val_replicate_0 [simp]: "be_val (replicate n 0 @ bs) = be_val bs"
  by (induction n) (auto simp: be_val_Cons)

text \<open>Big-endian codes of one width sort as the numbers do.\<close>

lemma be_val_less_iff:
  assumes "length xs = length ys"
  shows "be_val xs < be_val ys \<longleftrightarrow> xs < ys"
  using assms
proof (induction xs ys rule: list_induct2)
  case (Cons x xs y ys)
  let ?B = "256 ^ length xs :: nat"
  have bounds: "be_val xs < ?B" "be_val ys < ?B"
    using be_val_lt [of xs] be_val_lt [of ys] Cons.hyps by auto
  consider "x < y" | "x = y" | "y < x" by fastforce
  then show ?case
  proof cases
    case 1
    then have "Suc (unat x) \<le> unat y" by (simp add: word_less_nat_alt)
    then have "unat x * ?B + ?B \<le> unat y * ?B" by (metis add.commute mult_Suc mult_le_mono1)
    with bounds 1 Cons.hyps show ?thesis by (simp add: be_val_Cons)
  next
    case 2
    with Cons show ?thesis by (simp add: be_val_Cons)
  next
    case 3
    then have "Suc (unat y) \<le> unat x" by (simp add: word_less_nat_alt)
    then have "unat y * ?B + ?B \<le> unat x * ?B" by (metis add.commute mult_Suc mult_le_mono1)
    with bounds 3 Cons.hyps show ?thesis by (auto simp: be_val_Cons)
  qed
qed simp

lemma be_val_inject: "length xs = length ys \<Longrightarrow> be_val xs = be_val ys \<longleftrightarrow> xs = ys"
  using be_bytes_be_val by metis

lemma be_bytes_less_iff:
  assumes "x < 256 ^ n" and "y < 256 ^ n"
  shows "be_bytes n x < be_bytes n y \<longleftrightarrow> x < y"
  using be_val_less_iff [of "be_bytes n x" "be_bytes n y"] assms by (simp add: be_val_be_bytes)

lemma be_bytes_inject:
  assumes "x < 256 ^ n" and "y < 256 ^ n"
  shows "be_bytes n x = be_bytes n y \<longleftrightarrow> x = y"
  using assms by (metis be_val_be_bytes mod_less)

lemma drop_be_bytes: "k \<le> n \<Longrightarrow> drop (n - k) (be_bytes n x) = be_bytes k x"
proof -
  have "take k (le_bytes n x) = le_bytes k x" if "k \<le> n" for k n x
    using that
  proof (induction n arbitrary: k x)
    case (Suc n)
    then show ?case by (cases k) auto
  qed simp
  then show "k \<le> n \<Longrightarrow> drop (n - k) (be_bytes n x) = be_bytes k x"
    by (simp add: be_bytes_def drop_rev)
qed

lemma be_bytes_0 [simp]: "be_bytes 0 x = []"
  by (simp add: be_bytes_def)

lemma be_bytes_Suc: "be_bytes (Suc n) x = be_bytes n (x div 256) @ [of_nat x]"
  by (simp add: be_bytes_def)

lemma be_bytes_Cons: "be_bytes (Suc n) x = of_nat (x div 256 ^ n) # be_bytes n x"
proof (induction n arbitrary: x)
  case (Suc n)
  have "be_bytes (Suc (Suc n)) x = be_bytes (Suc n) (x div 256) @ [of_nat x]" by (rule be_bytes_Suc)
  also have "\<dots> = of_nat (x div 256 div 256 ^ n) # be_bytes n (x div 256) @ [of_nat x]"
    by (simp add: Suc)
  finally show ?case by (simp add: be_bytes_Suc div_mult2_eq)
qed (simp add: be_bytes_Suc)

section \<open>Signed words\<close>

lemma uint_of_int64: "0 \<le> x \<Longrightarrow> x < 2 ^ 64 \<Longrightarrow> uint (word_of_int x :: 64 word) = x"
  by (simp add: uint_word_of_int)

lemma sint_of_int64: "- (2 ^ 63) \<le> x \<Longrightarrow> x < 2 ^ 63 \<Longrightarrow> sint (word_of_int x :: 64 word) = x"
  by (simp add: int_word_sint)

lemma sint64_bounds: "- (2 ^ 63) \<le> sint (i :: 64 word)" "sint (i :: 64 word) < 2 ^ 63"
  using sint_ge [of i] sint_lt [of i] by simp_all

lemma unat_minus_sint:
  assumes "sint (i :: 64 word) < 0"
  shows "int (unat (- i)) = - sint i"
proof -
  have "- i = word_of_int (- sint i)" by simp
  then show ?thesis using assms sint64_bounds(1) [of i] uint_of_int64 [of "- sint i"] by simp
qed

lemma uint_nonneg_sint: "0 \<le> sint (i :: 64 word) \<Longrightarrow> uint i = sint i"
  using uint_of_int64 [of "sint i"] sint64_bounds(2) [of i] by simp

end
