(* ===== verification/MVCC.thy ===== *)
theory MVCC
  imports Prelude
begin

text \<open>
  The contract of a multi-version key-value store: committed versions of keys are written at
  non-decreasing versions and read as of a version.  The simulated store of \<^verbatim>\<open>pkg/simfdb\<close> is an
  interpretation; what commits and snapshot reads rely on is proved here once.
\<close>

type_synonym keyValue = "bytes \<times> bytes"

text \<open>Sorted rows are determined by the map they represent.\<close>

lemma rows_eqI:
  fixes xs ys :: "('k :: linorder \<times> 'v) list"
  assumes "sorted_wrt (<) (map fst xs)" "sorted_wrt (<) (map fst ys)" "map_of xs = map_of ys"
  shows "xs = ys"
proof -
  have d: "distinct (map fst xs)" "distinct (map fst ys)"
    using assms(1,2) by (simp_all add: strict_sorted_iff)
  have "set xs = set ys"
    using assms(3) d by (metis map_of_eq_Some_iff subrelI subset_antisym)
  then have "set (map fst xs) = set (map fst ys)" by simp
  then have f: "map fst xs = map fst ys"
    using assms(1,2) by (intro sorted_distinct_set_unique) (simp_all add: strict_sorted_iff)
  moreover have "map snd xs = map snd ys"
  proof -
    have "map snd zs = map (\<lambda>k. the (map_of zs k)) (map fst zs)" if "distinct (map fst zs)" for zs :: "('k \<times> 'v) list"
      using that by (auto simp: comp_def intro!: map_cong)
    then show ?thesis using d f assms(3) by metis
  qed
  ultimately show ?thesis by (metis zip_map_fst_snd)
qed

text \<open>A write of a commit: a value or a tombstone for one key, or the tombstones of a range.\<close>

datatype store_write = Put bytes "bytes option" | ClearKeys bytes bytes

fun covers :: "store_write \<Rightarrow> bytes \<Rightarrow> bool" where
  "covers (Put k x) k' = (k = k')"
| "covers (ClearKeys b e) k' = (b \<le> k' \<and> k' < e)"

fun write_val :: "store_write \<Rightarrow> bytes option" where
  "write_val (Put k x) = x"
| "write_val (ClearKeys b e) = None"

locale mvcc =
  fixes inv :: "'s \<Rightarrow> int \<Rightarrow> bool"
    and get :: "'s \<Rightarrow> bytes \<Rightarrow> int \<Rightarrow> bytes option"
    and scan :: "'s \<Rightarrow> bytes \<Rightarrow> bytes \<Rightarrow> int \<Rightarrow> keyValue list"
    and put :: "'s \<Rightarrow> bytes \<Rightarrow> bytes option \<Rightarrow> int \<Rightarrow> 's"
    and clear :: "'s \<Rightarrow> bytes \<Rightarrow> bytes \<Rightarrow> int \<Rightarrow> 's"
  assumes inv_mono: "inv s v \<Longrightarrow> v \<le> w \<Longrightarrow> inv s w"
    and put_inv: "inv s v \<Longrightarrow> inv (put s k x v) v"
    and clear_inv: "inv s v \<Longrightarrow> inv (clear s b e v) v"
    and get_put: "inv s v \<Longrightarrow> get (put s k x v) k' w = (if k' = k \<and> v \<le> w then x else get s k' w)"
    and get_clear: "inv s v \<Longrightarrow> get (clear s b e v) k' w = (if b \<le> k' \<and> k' < e \<and> v \<le> w then None else get s k' w)"
    and get_beyond: "inv s v \<Longrightarrow> v \<le> w \<Longrightarrow> get s k w = get s k v"
    and scan_sorted: "inv s v \<Longrightarrow> sorted_wrt (<) (map fst (scan s b e w))"
    and scan_get: "inv s v \<Longrightarrow> map_of (scan s b e w) k = (if b \<le> k \<and> k < e then get s k w else None)"
begin

fun apply_write :: "'s \<Rightarrow> int \<Rightarrow> store_write \<Rightarrow> 's" where
  "apply_write s v (Put k x) = put s k x v"
| "apply_write s v (ClearKeys b e) = clear s b e v"

lemma get_apply_write:
  "inv s v \<Longrightarrow> get (apply_write s v u) k w = (if covers u k \<and> v \<le> w then write_val u else get s k w)"
  by (cases u) (auto simp: get_put get_clear)

lemma inv_apply_write: "inv s v \<Longrightarrow> inv (apply_write s v u) v"
  by (cases u) (simp_all add: put_inv clear_inv)

lemma inv_writes: "inv s v \<Longrightarrow> inv (fold (\<lambda>u s. apply_write s v u) us s) v"
  by (induction us arbitrary: s) (simp_all add: inv_apply_write)

text \<open>Snapshots below the version of a commit are not changed by it.\<close>

lemma snapshot_stable:
  "inv s v \<Longrightarrow> w < v \<Longrightarrow> get (fold (\<lambda>u s. apply_write s v u) us s) k w = get s k w"
  by (induction us arbitrary: s) (simp_all add: inv_apply_write get_apply_write)

text \<open>A key that no write of a commit covers keeps its value; otherwise the last write wins.\<close>

lemma get_uncovered:
  "inv s v \<Longrightarrow> \<forall>u \<in> set us. \<not> covers u k \<Longrightarrow> get (fold (\<lambda>u s. apply_write s v u) us s) k w = get s k w"
  by (induction us arbitrary: s) (simp_all add: inv_apply_write get_apply_write)

lemma get_last_write:
  assumes "inv s v" "v \<le> w" "covers u k" "\<forall>u' \<in> set us'. \<not> covers u' k"
  shows "get (fold (\<lambda>u s. apply_write s v u) (us @ u # us') s) k w = write_val u"
  using assms by (simp add: get_uncovered inv_writes inv_apply_write get_apply_write)

text \<open>Scans of two stores agree where their snapshots do.\<close>

lemma scan_cong:
  assumes "inv s v" "inv s' v'" "\<And>k. b \<le> k \<Longrightarrow> k < e \<Longrightarrow> get s k w = get s' k w'"
  shows "scan s b e w = scan s' b e w'"
proof (rule rows_eqI)
  show "map_of (scan s b e w) = map_of (scan s' b e w')"
    using assms by (auto simp: scan_get fun_eq_iff)
qed (use assms scan_sorted in auto)

lemma scan_stable:
  "inv s v \<Longrightarrow> w < v \<Longrightarrow> scan (fold (\<lambda>u s. apply_write s v u) us s) b e w = scan s b e w"
  by (rule scan_cong [of _ v _ v]) (auto simp: snapshot_stable inv_writes)

end

end
