(* ===== verification/SimStore.thy ===== *)
theory SimStore
  imports MVCC
begin

text \<open>
  The versioned store of the simulated database (\<^verbatim>\<open>pkg/simfdb/store.go\<close>): entries sorted by key,
  each with the history of its committed versions.  Versions are \<^verbatim>\<open>int64\<close> counters that start small
  and only grow by small steps; they are integers here.
\<close>

section \<open>Definitions\<close>

record versionedValue =
  vvVersion :: int
  vvValue :: "bytes option"

record storeEntry =
  entryKey :: bytes
  entryHistory :: "versionedValue list"

record mvccStore =
  entries :: "storeEntry list"

definition search :: "mvccStore \<Rightarrow> bytes \<Rightarrow> nat \<times> bool" where
  "search s key =
     (let i = sort_search (length (entries s)) (\<lambda>i. entryKey (entries s ! i) \<ge> key)
      in if i < length (entries s) \<and> entryKey (entries s ! i) = key then (i, True) else (i, False))"

text \<open>The scan of a history from its newest version down.\<close>

definition newestAt :: "versionedValue list \<Rightarrow> int \<Rightarrow> bytes option" where
  "newestAt h readVersion =
     (case find (\<lambda>v. vvVersion v \<le> readVersion) (rev h) of None \<Rightarrow> None | Some v \<Rightarrow> vvValue v)"

definition valueAtEntry :: "storeEntry \<Rightarrow> int \<Rightarrow> bytes option" where
  "valueAtEntry e readVersion = newestAt (entryHistory e) readVersion"

definition valueAt :: "mvccStore \<Rightarrow> bytes \<Rightarrow> int \<Rightarrow> bytes option" where
  "valueAt s key readVersion =
     (let (i, ok) = search s key
      in if \<not> ok then None else newestAt (entryHistory (entries s ! i)) readVersion)"

text \<open>The loops of the range reads, on the entries from the first index on.\<close>

fun rangeAtLoop :: "storeEntry list \<Rightarrow> bytes \<Rightarrow> int \<Rightarrow> keyValue list" where
  "rangeAtLoop [] end readVersion = []"
| "rangeAtLoop (e # es) end readVersion =
     (if entryKey e \<ge> end then []
      else case valueAtEntry e readVersion of
             Some v \<Rightarrow> (entryKey e, v) # rangeAtLoop es end readVersion
           | None \<Rightarrow> rangeAtLoop es end readVersion)"

definition rangeAt :: "mvccStore \<Rightarrow> bytes \<Rightarrow> bytes \<Rightarrow> int \<Rightarrow> keyValue list" where
  "rangeAt s begin end readVersion = rangeAtLoop (drop (fst (search s begin)) (entries s)) end readVersion"

record limitedRows =
  lrRows :: "keyValue list"
  lrBegin :: bytes
  lrEnd :: bytes
  lrExhausted :: bool
  lrTouched :: nat

text \<open>The forward loop, with the rows found so far.\<close>

fun limitedForward ::
  "storeEntry list \<Rightarrow> bytes \<Rightarrow> bytes \<Rightarrow> int \<Rightarrow> int \<Rightarrow> keyValue list \<Rightarrow> nat \<Rightarrow> limitedRows" where
  "limitedForward [] begin end readVersion want out touched =
     \<lparr>lrRows = out, lrBegin = begin, lrEnd = end, lrExhausted = True, lrTouched = touched\<rparr>"
| "limitedForward (e # es) begin end readVersion want out touched =
     (if entryKey e \<ge> end
      then \<lparr>lrRows = out, lrBegin = begin, lrEnd = end, lrExhausted = True, lrTouched = touched\<rparr>
      else case valueAtEntry e readVersion of
             None \<Rightarrow> limitedForward es begin end readVersion want out (touched + 1)
           | Some v \<Rightarrow>
               let out = out @ [(entryKey e, v)]
               in if want > 0 \<and> int (length out) \<ge> want
                  then \<lparr>lrRows = out, lrBegin = begin, lrEnd = entryKey e @ [0], lrExhausted = False,
                        lrTouched = touched + 1\<rparr>
                  else limitedForward es begin end readVersion want out (touched + 1))"

text \<open>The backward loop takes the entries below \<^verbatim>\<open>end\<close> from the last one down.\<close>

fun limitedReverse ::
  "storeEntry list \<Rightarrow> bytes \<Rightarrow> bytes \<Rightarrow> int \<Rightarrow> int \<Rightarrow> keyValue list \<Rightarrow> nat \<Rightarrow> limitedRows" where
  "limitedReverse [] begin end readVersion want out touched =
     \<lparr>lrRows = rev out, lrBegin = begin, lrEnd = end, lrExhausted = True, lrTouched = touched\<rparr>"
| "limitedReverse (e # es) begin end readVersion want out touched =
     (if entryKey e < begin
      then \<lparr>lrRows = rev out, lrBegin = begin, lrEnd = end, lrExhausted = True, lrTouched = touched\<rparr>
      else case valueAtEntry e readVersion of
             None \<Rightarrow> limitedReverse es begin end readVersion want out (touched + 1)
           | Some v \<Rightarrow>
               let out = out @ [(entryKey e, v)]
               in if want > 0 \<and> int (length out) \<ge> want
                  then \<lparr>lrRows = rev out, lrBegin = entryKey e, lrEnd = end, lrExhausted = False,
                        lrTouched = touched + 1\<rparr>
                  else limitedReverse es begin end readVersion want out (touched + 1))"

definition rangeAtLimited :: "mvccStore \<Rightarrow> bytes \<Rightarrow> bytes \<Rightarrow> int \<Rightarrow> int \<Rightarrow> bool \<Rightarrow> limitedRows" where
  "rangeAtLimited s begin end readVersion want reverse =
     (if begin \<ge> end
      then \<lparr>lrRows = [], lrBegin = begin, lrEnd = end, lrExhausted = True, lrTouched = 0\<rparr>
      else if reverse
      then let hi = sort_search (length (entries s)) (\<lambda>i. entryKey (entries s ! i) \<ge> end)
           in limitedReverse (rev (take hi (entries s))) begin end readVersion want [] 0
      else limitedForward (drop (fst (search s begin)) (entries s)) begin end readVersion want [] 0)"

definition storePut :: "mvccStore \<Rightarrow> bytes \<Rightarrow> bytes option \<Rightarrow> int \<Rightarrow> mvccStore" where
  "storePut s key x commitVersion =
     (let (i, ok) = search s key;
          vv = \<lparr>vvVersion = commitVersion, vvValue = x\<rparr>
      in if ok
         then s\<lparr>entries := (entries s)[i := (entries s ! i)\<lparr>entryHistory := entryHistory (entries s ! i) @ [vv]\<rparr>]\<rparr>
         else s\<lparr>entries := take i (entries s) @ \<lparr>entryKey = key, entryHistory = [vv]\<rparr> # drop i (entries s)\<rparr>)"

fun clearLoop :: "storeEntry list \<Rightarrow> bytes \<Rightarrow> int \<Rightarrow> storeEntry list" where
  "clearLoop [] end commitVersion = []"
| "clearLoop (e # es) end commitVersion =
     (if entryKey e \<ge> end then e # es
      else (if valueAtEntry e commitVersion \<noteq> None
            then e\<lparr>entryHistory := entryHistory e @ [\<lparr>vvVersion = commitVersion, vvValue = None\<rparr>]\<rparr>
            else e) # clearLoop es end commitVersion)"

definition storeClearRange :: "mvccStore \<Rightarrow> bytes \<Rightarrow> bytes \<Rightarrow> int \<Rightarrow> mvccStore" where
  "storeClearRange s begin end commitVersion =
     (let lo = fst (search s begin)
      in s\<lparr>entries := take lo (entries s) @ clearLoop (drop lo (entries s)) end commitVersion\<rparr>)"

section \<open>The invariant of the store\<close>

definition store_inv :: "mvccStore \<Rightarrow> int \<Rightarrow> bool" where
  "store_inv s v \<longleftrightarrow>
     sorted_wrt (<) (map entryKey (entries s)) \<and>
     (\<forall>e \<in> set (entries s). sorted (map vvVersion (entryHistory e)) \<and>
        (\<forall>x \<in> set (entryHistory e). vvVersion x \<le> v))"

section \<open>Searching\<close>

abbreviation sorted_keys :: "storeEntry list \<Rightarrow> bool" where
  "sorted_keys es \<equiv> sorted_wrt (<) (map entryKey es)"

lemma sorted_takeWhile:
  fixes g :: "'a \<Rightarrow> 'k :: linorder"
  shows "sorted_wrt (<) (map g xs) \<Longrightarrow> takeWhile (\<lambda>x. g x < c) xs = filter (\<lambda>x. g x < c) xs"
    and "sorted_wrt (<) (map g xs) \<Longrightarrow> dropWhile (\<lambda>x. g x < c) xs = filter (\<lambda>x. c \<le> g x) xs"
proof (induction xs)
  case (Cons x xs)
  { case 1 then show ?case using Cons by (auto simp: filter_empty_conv dest: less_trans intro!: sym [OF filter_False]) }
  { case 2
    have "\<not> g x < c \<Longrightarrow> filter (\<lambda>x. c \<le> g x) xs = xs" using 2 by (auto simp: filter_id_conv intro: order.trans less_imp_le)
    then show ?case using Cons 2 by auto }
qed simp_all

text \<open>The search splits the entries into those below the key and the others.\<close>

lemma search_split:
  assumes "sorted_keys (entries s)"
  obtains L R where "entries s = L @ R" "\<forall>e \<in> set L. entryKey e < k" "\<forall>e \<in> set R. k \<le> entryKey e"
    "fst (search s k) = length L" "L = filter (\<lambda>e. entryKey e < k) (entries s)"
    "R = filter (\<lambda>e. k \<le> entryKey e) (entries s)"
    "snd (search s k) \<longleftrightarrow> (\<exists>e R'. R = e # R' \<and> entryKey e = k)"
proof -
  define L R where "L = takeWhile (\<lambda>e. entryKey e < k) (entries s)"
    and "R = dropWhile (\<lambda>e. entryKey e < k) (entries s)"
  have filters: "L = filter (\<lambda>e. entryKey e < k) (entries s)" "R = filter (\<lambda>e. k \<le> entryKey e) (entries s)"
    using sorted_takeWhile [OF assms] by (auto simp: L_def R_def)
  have es: "entries s = L @ R" by (simp add: L_def R_def)
  have "sorted (map entryKey (entries s))" using assms by (simp add: strict_sorted_iff)
  then have i: "sort_search (length (entries s)) (\<lambda>i. k \<le> entryKey (entries s ! i)) = length L"
    using sort_search_sorted(3) [of entryKey "entries s" "\<lambda>e. k \<le> entryKey e"]
    by (simp add: not_le L_def)
  have "snd (search s k) \<longleftrightarrow> (\<exists>e R'. R = e # R' \<and> entryKey e = k)"
    unfolding search_def Let_def i by (cases R) (simp_all add: es)
  moreover have "fst (search s k) = length L" unfolding search_def Let_def i by simp
  moreover have "\<forall>e \<in> set L. entryKey e < k" "\<forall>e \<in> set R. k \<le> entryKey e"
    unfolding filters by auto
  ultimately show ?thesis using that [of L R] es filters by blast
qed

subsection \<open>Histories\<close>

definition history :: "mvccStore \<Rightarrow> bytes \<Rightarrow> versionedValue list" where
  "history s k = (case map_of (map (\<lambda>e. (entryKey e, entryHistory e)) (entries s)) k of
     None \<Rightarrow> [] | Some h \<Rightarrow> h)"

lemma map_of_notin: "k \<notin> entryKey ` set es \<Longrightarrow> map_of (map (\<lambda>e. (entryKey e, entryHistory e)) es) k = None"
  by (induction es) auto

lemma map_of_entry:
  "sorted_keys es \<Longrightarrow> e \<in> set es \<Longrightarrow>
     map_of (map (\<lambda>e. (entryKey e, entryHistory e)) es) (entryKey e) = Some (entryHistory e)"
  by (induction es) auto

lemma newestAt_Nil [simp]: "newestAt [] v = None"
  by (simp add: newestAt_def)

lemma valueAt_history:
  assumes "sorted_keys (entries s)"
  shows "valueAt s k v = newestAt (history s k) v"
proof -
  obtain L R where LR: "entries s = L @ R" "\<forall>e \<in> set L. entryKey e < k" "\<forall>e \<in> set R. k \<le> entryKey e"
    "fst (search s k) = length L" "snd (search s k) \<longleftrightarrow> (\<exists>e R'. R = e # R' \<and> entryKey e = k)"
    by (rule search_split [OF assms, of k])
  show ?thesis
  proof (cases "snd (search s k)")
    case True
    with LR obtain e R' where R: "R = e # R'" "entryKey e = k" by blast
    then have "e \<in> set (entries s)" "entries s ! length L = e" using LR by simp_all
    then show ?thesis using True LR R map_of_entry [OF assms, of e]
      by (simp add: valueAt_def history_def split_beta)
  next
    case False
    have "k \<notin> entryKey ` set (entries s)"
    proof
      assume "k \<in> entryKey ` set (entries s)"
      then obtain e where e: "e \<in> set R" "entryKey e = k" using LR(1,2) by auto
      then obtain a R' where R: "R = a # R'" by (cases R) auto
      have "sorted_keys R" using assms LR(1) by (simp add: sorted_wrt_append)
      then have "e = a \<or> entryKey a < k" using e R by auto
      then have "entryKey a = k" using e(2) R LR(3) by auto
      with False LR(5) R show False by blast
    qed
    then show ?thesis using False by (simp add: valueAt_def history_def map_of_notin split_beta)
  qed
qed


subsection \<open>Putting a version\<close>

lemma history_put:
  assumes "sorted_keys (entries s)"
  shows "history (storePut s k x v) k' =
      (if k' = k then history s k @ [\<lparr>vvVersion = v, vvValue = x\<rparr>] else history s k')"
    and "sorted_keys (entries (storePut s k x v))"
proof -
  obtain L R where LR: "entries s = L @ R" "\<forall>e \<in> set L. entryKey e < k" "\<forall>e \<in> set R. k \<le> entryKey e"
    "fst (search s k) = length L" "snd (search s k) \<longleftrightarrow> (\<exists>e R'. R = e # R' \<and> entryKey e = k)"
    by (rule search_split [OF assms, of k])
  let ?h = "\<lambda>es. map (\<lambda>e. (entryKey e, entryHistory e)) es"
  let ?v = "\<lparr>vvVersion = v, vvValue = x\<rparr>"
  have L: "map_of (?h L) k = None" using LR(2) by (intro map_of_notin) auto
  show "history (storePut s k x v) k' = (if k' = k then history s k @ [?v] else history s k')" (is ?A)
    and "sorted_keys (entries (storePut s k x v))" (is ?B)
  proof -
    have "?A \<and> ?B"
    proof (cases "snd (search s k)")
      case True
      with LR obtain e R' where R: "R = e # R'" "entryKey e = k" by blast
      have e: "entries (storePut s k x v) = L @ e\<lparr>entryHistory := entryHistory e @ [?v]\<rparr> # R'"
        using True LR(1,4) R by (simp add: storePut_def Let_def split_beta)
      then have ?A using LR(1) L R
        by (cases "k' = k") (simp_all add: history_def map_add_def split: option.splits)
      moreover have ?B using e LR(1) R assms by (simp add: sorted_wrt_append)
      ultimately show ?thesis ..
    next
      case False
      then have e: "entries (storePut s k x v) = L @ \<lparr>entryKey = k, entryHistory = [?v]\<rparr> # R"
        using LR(1,4) by (simp add: storePut_def Let_def split_beta)
      have R: "\<forall>e \<in> set R. k < entryKey e"
      proof (cases R)
        case (Cons e R')
        then have "k < entryKey e" "\<forall>e' \<in> set R'. entryKey e < entryKey e'"
          using False LR assms by (auto simp: sorted_wrt_append order_less_le)
        then show ?thesis using Cons by auto
      qed simp
      then have "map_of (?h R) k = None" by (intro map_of_notin) auto
      then have "?A" using e LR(1) L
        by (cases "k' = k") (simp_all add: history_def map_add_def split: option.splits)
      moreover have ?B using e LR(1,2) R assms by (auto simp: sorted_wrt_append)
      ultimately show ?thesis ..
    qed
    then show ?A ?B by blast+
  qed
qed


subsection \<open>Clearing a range\<close>

lemma history_find:
  "history s k = (case find (\<lambda>e. entryKey e = k) (entries s) of None \<Rightarrow> [] | Some e \<Rightarrow> entryHistory e)"
proof -
  have "map_of (map (\<lambda>e. (entryKey e, entryHistory e)) es) k = map_option entryHistory (find (\<lambda>e. entryKey e = k) es)"
    for es :: "storeEntry list"
    by (induction es) auto
  then show ?thesis by (cases "find (\<lambda>e. entryKey e = k) (entries s)") (simp_all add: history_def)
qed

definition tombstoned :: "int \<Rightarrow> storeEntry \<Rightarrow> storeEntry" where
  "tombstoned v e =
     (if valueAtEntry e v \<noteq> None
      then e\<lparr>entryHistory := entryHistory e @ [\<lparr>vvVersion = v, vvValue = None\<rparr>]\<rparr> else e)"

lemma tombstoned_key [simp]: "entryKey (tombstoned v e) = entryKey e"
  by (simp add: tombstoned_def)

lemma clearLoop_map:
  "sorted_keys es \<Longrightarrow> clearLoop es end v = map (\<lambda>e. if entryKey e < end then tombstoned v e else e) es"
proof (induction es)
  case (Cons e es)
  show ?case
  proof (cases "entryKey e < end")
    case True
    then have "\<not> end \<le> entryKey e" by simp
    with True Cons show ?thesis by (simp add: tombstoned_def)
  next
    case False
    then have "\<forall>x \<in> set es. \<not> entryKey x < end" using Cons.prems by auto
    with False show ?thesis by (simp add: map_idI leI)
  qed
qed simp

lemma clear_entries:
  assumes "sorted_keys (entries s)"
  shows "entries (storeClearRange s b e v) =
    map (\<lambda>x. if b \<le> entryKey x \<and> entryKey x < e then tombstoned v x else x) (entries s)"
proof -
  obtain L R where LR: "entries s = L @ R" "\<forall>e \<in> set L. entryKey e < b" "\<forall>e \<in> set R. b \<le> entryKey e"
    "fst (search s b) = length L" "snd (search s b) \<longleftrightarrow> (\<exists>e R'. R = e # R' \<and> entryKey e = b)"
    by (rule search_split [OF assms, of b])
  have L: "\<forall>x \<in> set L. \<not> b \<le> entryKey x" using LR(2) by (simp add: not_le)
  have "sorted_keys R" using assms LR(1) by (simp add: sorted_wrt_append)
  then have "entries (storeClearRange s b e v) = L @ map (\<lambda>x. if entryKey x < e then tombstoned v x else x) R"
    using LR(1,4) by (simp add: storeClearRange_def Let_def clearLoop_map)
  also have "\<dots> = map (\<lambda>x. if b \<le> entryKey x \<and> entryKey x < e then tombstoned v x else x) (L @ R)"
    using L LR(3) by (auto intro!: map_idI [symmetric] map_cong)
  finally show ?thesis using LR(1) by simp
qed

lemma sorted_clear: "sorted_keys (entries s) \<Longrightarrow> sorted_keys (entries (storeClearRange s b e v))"
  by (simp add: clear_entries comp_def if_distrib cong: if_cong)

lemma find_map_key:
  "(\<And>e. entryKey (f e) = entryKey e) \<Longrightarrow>
     find (\<lambda>e. entryKey e = k) (map f es) = map_option f (find (\<lambda>e. entryKey e = k) es)"
  by (induction es) auto

lemma history_clear:
  assumes "sorted_keys (entries s)"
  shows "history (storeClearRange s b e v) k =
    (if b \<le> k \<and> k < e \<and> newestAt (history s k) v \<noteq> None
     then history s k @ [\<lparr>vvVersion = v, vvValue = None\<rparr>] else history s k)"
proof -
  let ?f = "\<lambda>x. if b \<le> entryKey x \<and> entryKey x < e then tombstoned v x else x"
  have f: "find (\<lambda>e. entryKey e = k) (entries (storeClearRange s b e v)) =
      map_option ?f (find (\<lambda>e. entryKey e = k) (entries s))"
    unfolding clear_entries [OF assms] by (rule find_map_key) simp
  show ?thesis
  proof (cases "find (\<lambda>e. entryKey e = k) (entries s)")
    case None
    with f show ?thesis by (simp add: history_find)
  next
    case (Some x)
    then have "entryKey x = k" by (auto simp: find_Some_iff)
    with Some f show ?thesis by (simp add: history_find tombstoned_def valueAtEntry_def)
  qed
qed

section \<open>The store is a multi-version store\<close>

lemma newestAt_snoc: "newestAt (h @ [x]) w = (if vvVersion x \<le> w then vvValue x else newestAt h w)"
  by (simp add: newestAt_def)

lemma newestAt_beyond:
  "\<forall>x \<in> set h. vvVersion x \<le> v \<Longrightarrow> v \<le> w \<Longrightarrow> newestAt h w = newestAt h v"
  by (cases h rule: rev_cases) (auto simp: newestAt_snoc)

definition hist_inv :: "int \<Rightarrow> versionedValue list \<Rightarrow> bool" where
  "hist_inv v h \<longleftrightarrow> sorted (map vvVersion h) \<and> (\<forall>x \<in> set h. vvVersion x \<le> v)"

lemma hist_inv_simps [simp]: "hist_inv v []" "hist_inv v (h @ [\<lparr>vvVersion = v, vvValue = x\<rparr>]) \<longleftrightarrow> hist_inv v h"
  by (auto simp: hist_inv_def sorted_append)

lemma store_inv_history: "store_inv s v \<longleftrightarrow> sorted_keys (entries s) \<and> (\<forall>k. hist_inv v (history s k))"
proof -
  have "(\<forall>k. hist_inv v (history s k)) \<longleftrightarrow> (\<forall>e \<in> set (entries s). hist_inv v (entryHistory e))" if s: "sorted_keys (entries s)"
  proof
    assume "\<forall>k. hist_inv v (history s k)"
    then show "\<forall>e \<in> set (entries s). hist_inv v (entryHistory e)"
      using map_of_entry [OF s] by (metis (no_types, lifting) history_def option.case(2))
  next
    assume "\<forall>e \<in> set (entries s). hist_inv v (entryHistory e)"
    then show "\<forall>k. hist_inv v (history s k)"
      by (auto simp: history_find find_Some_iff split: option.splits)
  qed
  then show ?thesis by (auto simp: store_inv_def hist_inv_def)
qed

definition rows :: "storeEntry list \<Rightarrow> int \<Rightarrow> keyValue list" where
  "rows es v = concat (map (\<lambda>e. case valueAtEntry e v of None \<Rightarrow> [] | Some x \<Rightarrow> [(entryKey e, x)]) es)"

lemma rows_simps [simp]:
  "rows [] v = []"
  "rows (e # es) v = (case valueAtEntry e v of None \<Rightarrow> [] | Some x \<Rightarrow> [(entryKey e, x)]) @ rows es v"
  "rows (es @ es') v = rows es v @ rows es' v"
  by (simp_all add: rows_def)

lemma rows_keys: "fst ` set (rows es v) \<subseteq> entryKey ` set es"
  by (induction es) (auto split: option.splits)

lemma sorted_rows: "sorted_keys es \<Longrightarrow> sorted_wrt (<) (map fst (rows es v))"
proof (induction es)
  case (Cons e es)
  then show ?case using rows_keys [of es v] by (cases "valueAtEntry e v") fastforce+
qed simp

lemma map_of_rows:
  "sorted_keys es \<Longrightarrow> map_of (rows es v) k =
     (case find (\<lambda>e. entryKey e = k) es of None \<Rightarrow> None | Some e \<Rightarrow> valueAtEntry e v)"
proof (induction es)
  case (Cons e es)
  have "entryKey e = k \<Longrightarrow> k \<notin> fst ` set (rows es v)" using Cons.prems rows_keys [of es v] by fastforce
  then have "entryKey e = k \<Longrightarrow> map_of (rows es v) k = None" by (simp add: map_of_eq_None_iff)
  then show ?case using Cons by (cases "valueAtEntry e v") (auto simp: map_add_def split: option.splits)
qed simp

lemma rangeAtLoop_rows:
  "sorted_keys es \<Longrightarrow> rangeAtLoop es end v = rows (filter (\<lambda>e. entryKey e < end) es) v"
proof (induction es)
  case (Cons e es)
  show ?case
  proof (cases "entryKey e < end")
    case True
    then have "\<not> end \<le> entryKey e" by simp
    with True Cons show ?thesis by (auto split: option.splits)
  next
    case False
    then have "end \<le> entryKey e" by simp
    moreover from False have "filter (\<lambda>e. entryKey e < end) es = []" using Cons.prems by (auto simp: filter_empty_conv)
    ultimately show ?thesis using False by simp
  qed
qed simp

lemma rangeAt_rows:
  assumes "sorted_keys (entries s)"
  shows "rangeAt s b e v = rows (filter (\<lambda>x. b \<le> entryKey x \<and> entryKey x < e) (entries s)) v"
proof -
  obtain L R where LR: "entries s = L @ R" "fst (search s b) = length L"
    "R = filter (\<lambda>e. b \<le> entryKey e) (entries s)"
    by (rule search_split [OF assms, of b])
  have "sorted_keys R" using assms LR(1) by (simp add: sorted_wrt_append)
  then have "rangeAt s b e v = rows (filter (\<lambda>x. entryKey x < e) R) v"
    using LR(1,2) by (simp add: rangeAt_def rangeAtLoop_rows)
  then show ?thesis unfolding LR(3) filter_filter by (simp add: conj_commute)
qed


lemma find_filter_key:
  "P k \<Longrightarrow> find (\<lambda>e. entryKey e = k) (filter (\<lambda>e. P (entryKey e)) es) = find (\<lambda>e. entryKey e = k) es"
  "\<not> P k \<Longrightarrow> find (\<lambda>e. entryKey e = k) (filter (\<lambda>e. P (entryKey e)) es) = None"
  by (induction es) auto

lemma sorted_filter_keys: "sorted_keys es \<Longrightarrow> sorted_keys (filter P es)"
  by (induction es) auto

lemma map_of_rangeAt:
  assumes "sorted_keys (entries s)"
  shows "map_of (rangeAt s b e v) k = (if b \<le> k \<and> k < e then valueAt s k v else None)"
proof -
  have "map_of (rangeAt s b e v) k =
      (case find (\<lambda>x. entryKey x = k) (filter (\<lambda>x. b \<le> entryKey x \<and> entryKey x < e) (entries s)) of
         None \<Rightarrow> None | Some x \<Rightarrow> valueAtEntry x v)"
    using assms by (simp add: rangeAt_rows map_of_rows sorted_filter_keys)
  also have "\<dots> = (if b \<le> k \<and> k < e then newestAt (history s k) v else None)"
    using find_filter_key [of "\<lambda>x. b \<le> x \<and> x < e" k "entries s"]
    by (cases "find (\<lambda>x. entryKey x = k) (entries s)") (simp_all add: history_find valueAtEntry_def)
  finally show ?thesis using assms by (simp add: valueAt_history)
qed

interpretation simstore: mvcc store_inv valueAt rangeAt storePut storeClearRange
proof
  fix s v w k k' x b e
  assume inv: "store_inv s v"
  then have s: "sorted_keys (entries s)" and h: "\<And>k. hist_inv v (history s k)"
    by (simp_all add: store_inv_history)
  show "v \<le> w \<Longrightarrow> store_inv s w" using inv by (force simp: store_inv_def)
  show "store_inv (storePut s k x v) v"
    using s h by (simp add: store_inv_history history_put)
  show "store_inv (storeClearRange s b e v) v"
    using s h by (simp add: store_inv_history history_clear sorted_clear)
  show "valueAt (storePut s k x v) k' w = (if k' = k \<and> v \<le> w then x else valueAt s k' w)"
    using s by (simp add: valueAt_history history_put newestAt_snoc)
  show "valueAt (storeClearRange s b e v) k' w =
      (if b \<le> k' \<and> k' < e \<and> v \<le> w then None else valueAt s k' w)"
    using s newestAt_beyond [of "history s k'" v w] h [of k']
    by (auto simp: valueAt_history sorted_clear history_clear newestAt_snoc hist_inv_def)
  show "v \<le> w \<Longrightarrow> valueAt s k w = valueAt s k v"
    using s h [of k] by (simp add: valueAt_history newestAt_beyond hist_inv_def)
  show "sorted_wrt (<) (map fst (rangeAt s b e w))"
    using s by (simp add: rangeAt_rows sorted_rows sorted_filter_keys)
  show "map_of (rangeAt s b e w) k = (if b \<le> k \<and> k < e then valueAt s k w else None)"
    using s by (rule map_of_rangeAt)
qed

section \<open>Bounded range reads\<close>

lemma limitedForward_spec:
  assumes "sorted_keys es" and "want > 0 \<longrightarrow> int (length out) < want"
  shows "let R = rows (filter (\<lambda>x. entryKey x < e) es) v; n = nat want - length out;
             r = limitedForward es b e v want out t
         in lrBegin r = b \<and>
            (if want > 0 \<and> want \<le> int (length out + length R)
             then lrRows r = out @ take n R \<and> lrEnd r = fst (R ! (n - 1)) @ [0] \<and> \<not> lrExhausted r
             else lrRows r = out @ R \<and> lrEnd r = e \<and> lrExhausted r)"
  using assms
proof (induction es arbitrary: out t)
  case (Cons x es)
  let ?R = "rows (filter (\<lambda>x. entryKey x < e) es) v"
  show ?case
  proof (cases "e \<le> entryKey x")
    case True
    then have "\<not> entryKey x < e" "filter (\<lambda>x. entryKey x < e) es = []"
      using Cons.prems(1) by (auto simp: filter_empty_conv not_less)
    with True Cons.prems(2) show ?thesis by (auto simp: Let_def)
  next
    case False
    then have lt: "entryKey x < e" by simp
    show ?thesis
    proof (cases "valueAtEntry x v")
      case None
      with False lt Cons show ?thesis by (simp add: Let_def)
    next
      case (Some y)
      let ?out = "out @ [(entryKey x, y)]"
      show ?thesis
      proof (cases "want > 0 \<and> want \<le> int (length ?out)")
        case True
        then have "want = int (length out) + 1" using Cons.prems(2) by simp
        then have "nat want = Suc (length out)" by simp
        with True False lt Some show ?thesis by (simp add: Let_def)
      next
        case stop: False
        have "Suc (nat want - Suc (length out)) = nat want - length out" if "want > 0"
          using that Cons.prems(2) stop by simp
        then show ?thesis
          using Cons.IH [of ?out "t + 1"] Cons.prems stop False lt Some
          by (auto simp: Let_def nth_Cons' take_Cons' split: if_splits)
      qed
    qed
  qed
qed (auto simp: Let_def)
lemma limitedReverse_spec:
  assumes "sorted_keys (rev es)" and "want > 0 \<longrightarrow> int (length out) < want"
  shows "let R = rows (filter (\<lambda>x. b \<le> entryKey x) es) v; n = nat want - length out;
             r = limitedReverse es b e v want out t
         in lrEnd r = e \<and>
            (if want > 0 \<and> want \<le> int (length out + length R)
             then lrRows r = rev (out @ take n R) \<and> lrBegin r = fst (R ! (n - 1)) \<and> \<not> lrExhausted r
             else lrRows r = rev (out @ R) \<and> lrBegin r = b \<and> lrExhausted r)"
  using assms
proof (induction es arbitrary: out t)
  case (Cons x es)
  let ?R = "rows (filter (\<lambda>x. b \<le> entryKey x) es) v"
  show ?case
  proof (cases "entryKey x < b")
    case True
    then have "\<not> b \<le> entryKey x" "filter (\<lambda>x. b \<le> entryKey x) es = []"
      using Cons.prems(1) by (auto simp: filter_empty_conv not_le sorted_wrt_append)
    with True Cons.prems(2) show ?thesis by (auto simp: Let_def)
  next
    case False
    then have lt: "b \<le> entryKey x" by simp
    show ?thesis
    proof (cases "valueAtEntry x v")
      case None
      with False lt Cons.IH [of out "t + 1"] Cons.prems show ?thesis by (simp add: Let_def sorted_wrt_append)
    next
      case (Some y)
      let ?out = "out @ [(entryKey x, y)]"
      show ?thesis
      proof (cases "want > 0 \<and> want \<le> int (length ?out)")
        case True
        then have "want = int (length out) + 1" using Cons.prems(2) by simp
        then have "nat want = Suc (length out)" by simp
        with True False lt Some show ?thesis by (simp add: Let_def)
      next
        case stop: False
        have "Suc (nat want - Suc (length out)) = nat want - length out" if "want > 0"
          using that Cons.prems(2) stop by simp
        then show ?thesis
          using Cons.IH [of ?out "t + 1"] Cons.prems stop False lt Some
          by (auto simp: Let_def nth_Cons' take_Cons' sorted_wrt_append split: if_splits)
      qed
    qed
  qed
qed (auto simp: Let_def)

text \<open>Rows of a sorted list up to the key of one of them.\<close>

lemma take_upto:
  fixes R :: "(bytes \<times> 'v) list"
  assumes "sorted_wrt (<) (map fst R)" and "0 < n" "n \<le> length R"
  shows "filter (\<lambda>r. fst r < fst (R ! (n - 1)) @ [0]) R = take n R"
proof -
  let ?k = "fst (R ! (n - 1))"
  have lt: "fst (R ! i) < fst (R ! j)" if "i < j" "j < length R" for i j
    using assms(1) that by (simp add: sorted_wrt_iff_nth_less)
  have "fst r \<le> ?k" if r: "r \<in> set (take n R)" for r
  proof -
    obtain i where "i < n" "r = R ! i" using r by (auto simp: in_set_conv_nth)
    moreover from this have "i \<noteq> n - 1 \<Longrightarrow> fst (R ! i) < ?k" using lt [of i "n - 1"] assms(3) by simp
    ultimately show ?thesis by (cases "i = n - 1") auto
  qed
  moreover have "r \<in> set (drop n R) \<Longrightarrow> \<not> fst r \<le> ?k" for r
    using lt assms(2,3) by (auto simp: in_set_conv_nth not_le)
  moreover have "x < ?k @ [0] \<longleftrightarrow> x \<le> ?k" for x using less_keyAfter_iff [of x ?k] by (simp add: keyAfter_def)
  ultimately have "filter (\<lambda>r. fst r < ?k @ [0]) (take n R @ drop n R) = take n R"
    unfolding filter_append by (simp add: filter_False del: append_take_drop_id)
  then show ?thesis by simp
qed

lemma drop_from:
  fixes R :: "('k :: linorder \<times> 'v) list"
  assumes "sorted_wrt (<) (map fst R)" and "0 < n" "n \<le> length R"
  shows "filter (\<lambda>r. fst (R ! (length R - n)) \<le> fst r) R = drop (length R - n) R"
proof -
  let ?m = "length R - n"
  have lt: "fst (R ! i) < fst (R ! j)" if "i < j" "j < length R" for i j
    using assms(1) that by (simp add: sorted_wrt_iff_nth_less)
  have "fst (R ! ?m) \<le> fst r" if r: "r \<in> set (drop ?m R)" for r
  proof -
    obtain i where "i < n" "r = R ! (?m + i)" using r assms(3) by (auto simp: in_set_conv_nth)
    moreover from this have "i \<noteq> 0 \<Longrightarrow> fst (R ! ?m) < fst r" using lt [of ?m "?m + i"] assms(3) by simp
    ultimately show ?thesis by (cases "i = 0") (auto intro: less_imp_le)
  qed
  moreover have "r \<in> set (take ?m R) \<Longrightarrow> \<not> fst (R ! ?m) \<le> fst r" for r
    using lt assms(2,3) by (auto simp: in_set_conv_nth not_le)
  ultimately have "filter (\<lambda>r. fst (R ! ?m) \<le> fst r) (take ?m R @ drop ?m R) = drop ?m R"
    unfolding filter_append by (simp add: filter_False del: append_take_drop_id)
  then show ?thesis by simp
qed

lemma map_of_filter_key: "map_of (filter (\<lambda>r. P (fst r)) rs) k = (if P k then map_of rs k else None)"
  by (induction rs) auto

lemma rangeAt_sub:
  assumes "store_inv s u" "b \<le> b'" "e' \<le> e"
  shows "rangeAt s b' e' v = filter (\<lambda>r. b' \<le> fst r \<and> fst r < e') (rangeAt s b e v)"
proof (rule rows_eqI)
  show "sorted_wrt (<) (map fst (rangeAt s b' e' v))" using assms(1) by (rule simstore.scan_sorted)
  show "sorted_wrt (<) (map fst (filter (\<lambda>r. b' \<le> fst r \<and> fst r < e') (rangeAt s b e v)))"
    using simstore.scan_sorted [OF assms(1), of b e v] by (simp add: sorted_wrt_map sorted_wrt_filter)
  show "map_of (rangeAt s b' e' v) = map_of (filter (\<lambda>r. b' \<le> fst r \<and> fst r < e') (rangeAt s b e v))"
    using assms by (auto simp: simstore.scan_get fun_eq_iff map_of_filter_key [of "\<lambda>k. b' \<le> k \<and> k < e'"]
      intro: order.trans less_le_trans)
qed

lemma rangeAt_mem:
  assumes "store_inv s u" "r \<in> set (rangeAt s b e v)"
  shows "b \<le> fst r" "fst r < e"
proof -
  have "map_of (rangeAt s b e v) (fst r) \<noteq> None"
    using assms(2) by (metis map_of_eq_None_iff image_eqI)
  then show "b \<le> fst r" "fst r < e" using simstore.scan_get [OF assms(1)] by (simp_all split: if_splits)
qed

lemma rangeAt_empty: "store_inv s u \<Longrightarrow> e \<le> b \<Longrightarrow> rangeAt s b e v = []"
proof (rule ccontr)
  assume *: "store_inv s u" "e \<le> b" "rangeAt s b e v \<noteq> []"
  then have "hd (rangeAt s b e v) \<in> set (rangeAt s b e v)" by simp
  from rangeAt_mem [OF *(1) this] *(2) show False by simp
qed

lemma rangeAt_upto:
  assumes "store_inv s u" "R = rangeAt s b e v" "0 < n" "n \<le> length R"
  shows "rangeAt s b (fst (R ! (n - 1)) @ [0]) v = take n R" and "fst (R ! (n - 1)) @ [0] \<le> e"
proof -
  have mem: "R ! (n - 1) \<in> set R" using assms(3,4) by simp
  show le: "fst (R ! (n - 1)) @ [0] \<le> e"
    using rangeAt_mem(2) [OF assms(1)] mem keyAfter_le_iff [of "fst (R ! (n - 1))" e] assms(2)
    by (simp add: keyAfter_def)
  have "rangeAt s b (fst (R ! (n - 1)) @ [0]) v = filter (\<lambda>r. b \<le> fst r \<and> fst r < fst (R ! (n - 1)) @ [0]) R"
    using rangeAt_sub [OF assms(1) order_refl le] assms(2) by simp
  also have "\<dots> = filter (\<lambda>r. fst r < fst (R ! (n - 1)) @ [0]) R"
    using rangeAt_mem(1) [OF assms(1)] assms(2) by (intro filter_cong) auto
  also have "\<dots> = take n R"
    using simstore.scan_sorted [OF assms(1)] assms(2-4) by (intro take_upto) auto
  finally show "rangeAt s b (fst (R ! (n - 1)) @ [0]) v = take n R" .
qed

lemma rangeAt_from:
  assumes "store_inv s u" "R = rangeAt s b e v" "0 < n" "n \<le> length R"
  shows "rangeAt s (fst (R ! (length R - n))) e v = drop (length R - n) R" and "b \<le> fst (R ! (length R - n))"
proof -
  have mem: "R ! (length R - n) \<in> set R" using assms(3,4) by simp
  show le: "b \<le> fst (R ! (length R - n))" using rangeAt_mem(1) [OF assms(1)] mem assms(2) by simp
  have "rangeAt s (fst (R ! (length R - n))) e v = filter (\<lambda>r. fst (R ! (length R - n)) \<le> fst r \<and> fst r < e) R"
    using rangeAt_sub [OF assms(1) le order_refl] assms(2) by simp
  also have "\<dots> = filter (\<lambda>r. fst (R ! (length R - n)) \<le> fst r) R"
    using rangeAt_mem(2) [OF assms(1)] assms(2) by (intro filter_cong) auto
  also have "\<dots> = drop (length R - n) R"
    using simstore.scan_sorted [OF assms(1)] assms(2-4) by (intro drop_from) auto
  finally show "rangeAt s (fst (R ! (length R - n))) e v = drop (length R - n) R" .
qed

lemma limited_forward:
  assumes "store_inv s u" "b < e" and R_def: "R = rangeAt s b e v" and r_def: "r = rangeAtLimited s b e v want False"
  shows "lrBegin r = b \<and>
    (if want > 0 \<and> want \<le> int (length R)
     then lrRows r = take (nat want) R \<and> lrEnd r = fst (R ! (nat want - 1)) @ [0] \<and> \<not> lrExhausted r
     else lrRows r = R \<and> lrEnd r = e \<and> lrExhausted r)"
proof -
  have s: "sorted_keys (entries s)" using assms(1) by (simp add: store_inv_def)
  obtain L E where LE: "entries s = L @ E" "fst (search s b) = length L"
    "E = filter (\<lambda>e. b \<le> entryKey e) (entries s)"
    by (rule search_split [OF s, of b])
  have E: "sorted_keys E" using s LE(1) by (simp add: sorted_wrt_append)
  have "rows (filter (\<lambda>x. entryKey x < e) E) v = R"
    unfolding R_def rangeAt_rows [OF s] LE(3) filter_filter by (simp add: conj_commute)
  moreover have "r = limitedForward E b e v want [] 0"
    using assms(2) LE(1,2) by (simp add: r_def rangeAtLimited_def leD)
  ultimately show ?thesis
    using limitedForward_spec [OF E, of want "[]" e v b 0] by (simp add: Let_def split: if_splits)
qed

lemma limited_reverse:
  assumes "store_inv s u" "b < e" and R_def: "R = rangeAt s b e v" and r_def: "r = rangeAtLimited s b e v want True"
  shows "lrEnd r = e \<and>
    (if want > 0 \<and> want \<le> int (length R)
     then lrRows r = drop (length R - nat want) R \<and> lrBegin r = fst (R ! (length R - nat want)) \<and> \<not> lrExhausted r
     else lrRows r = R \<and> lrBegin r = b \<and> lrExhausted r)"
proof -
  have s: "sorted_keys (entries s)" using assms(1) by (simp add: store_inv_def)
  obtain L E where LE: "entries s = L @ E" "L = filter (\<lambda>x. entryKey x < e) (entries s)"
    "fst (search s e) = length L"
    by (rule search_split [OF s, of e])
  have L: "sorted_keys (rev (rev L))" using s LE(1) by (simp add: sorted_wrt_append)
  have rev_rows: "rows (rev es) v = rev (rows es v)" for es
    by (induction es) (auto split: option.splits)
  have R: "rows (filter (\<lambda>x. b \<le> entryKey x) (rev L)) v = rev R"
    unfolding R_def rangeAt_rows [OF s] LE(2) rev_filter [symmetric] filter_filter rev_rows by (simp add: conj_commute)
  have "sort_search (length (entries s)) (\<lambda>i. e \<le> entryKey (entries s ! i)) = length L"
    using LE(3) by (simp add: search_def Let_def split: if_splits)
  then have "r = limitedReverse (rev L) b e v want [] 0"
    using assms(2) LE(1) by (simp add: r_def rangeAtLimited_def leD)
  then show ?thesis
    using limitedReverse_spec [OF L, of want "[]" b v e 0]
    by (auto simp: Let_def R rev_take rev_nth split: if_splits)
qed

text \<open>A bounded read is the unbounded one of the window it reports.\<close>

lemma rangeAtLimited_spec:
  assumes "store_inv s u" and "r = rangeAtLimited s b e v want reverse" and "R = rangeAt s b e v"
  shows "lrRows r = rangeAt s (lrBegin r) (lrEnd r) v \<and> b \<le> lrBegin r \<and> lrEnd r \<le> e \<and>
    (if lrExhausted r then lrRows r = R
     else 0 < want \<and> want \<le> int (length R) \<and>
       lrRows r = (if reverse then drop (length R - nat want) R else take (nat want) R))"
proof -
  consider (empty) "e \<le> b" | (fwd) "b < e" "\<not> reverse" | (bwd) "b < e" reverse by fastforce
  then show ?thesis
  proof cases
    case empty
    then show ?thesis using assms rangeAt_empty [of s u e b v] by (simp add: rangeAtLimited_def)
  next
    case fwd
    then show ?thesis
      using limited_forward [OF assms(1), of b e R v r want] rangeAt_upto [OF assms(1,3), of "nat want"] assms(2,3)
      by (cases "want > 0 \<and> want \<le> int (length R)") auto
  next
    case bwd
    then show ?thesis
      using limited_reverse [OF assms(1), of b e R v r want] rangeAt_from [OF assms(1,3), of "nat want"] assms(2,3)
      by (cases "want > 0 \<and> want \<le> int (length R)") auto
  qed
qed

lemma rangeAtLimited_ends:
  assumes "store_inv s u" and "r = rangeAtLimited s b e v want reverse"
  shows "(lrExhausted r \<longrightarrow> lrBegin r = b \<and> lrEnd r = e) \<and> (reverse \<longrightarrow> lrEnd r = e) \<and> (\<not> reverse \<longrightarrow> lrBegin r = b)"
proof -
  consider (empty) "e \<le> b" | (fwd) "b < e" "\<not> reverse" | (bwd) "b < e" reverse by fastforce
  then show ?thesis
  proof cases
    case empty
    then show ?thesis using assms by (simp add: rangeAtLimited_def)
  next
    case fwd
    then show ?thesis using limited_forward [OF assms(1), of b e _ v r want] assms(2) by (simp split: if_splits)
  next
    case bwd
    then show ?thesis using limited_reverse [OF assms(1), of b e _ v r want] assms(2) by (simp split: if_splits)
  qed
qed

section \<open>Properties\<close>

text \<open>
  (C16) The committed store is a multi-version map.  A version put at or above all earlier ones is what
  every read from that version on returns for its key, a cleared range reads as absent from its version
  on, and every read below that version, of any key, returns what it returned before; the store stays
  well formed.
\<close>

theorem store_versions:
  assumes "store_inv s v"
  shows "store_inv (storePut s k x v) v \<and> store_inv (storeClearRange s b e v) v \<and>
    valueAt (storePut s k x v) k' w = (if k' = k \<and> v \<le> w then x else valueAt s k' w) \<and>
    valueAt (storeClearRange s b e v) k' w =
      (if b \<le> k' \<and> k' < e \<and> v \<le> w then None else valueAt s k' w)"
  using assms simstore.put_inv simstore.clear_inv simstore.get_put simstore.get_clear by simp

theorem store_versions_witness:
  "valueAt (storePut \<lparr>entries = [\<lparr>entryKey = [1], entryHistory = [\<lparr>vvVersion = 3, vvValue = Some [7]\<rparr>]\<rparr>]\<rparr> [1] None 5)
     [1] 4 = Some [7]"
proof -
  have "store_inv \<lparr>entries = [\<lparr>entryKey = [1], entryHistory = [\<lparr>vvVersion = 3, vvValue = Some [7]\<rparr>]\<rparr>]\<rparr> 5"
    by (simp add: store_inv_def)
  from store_versions [OF this, of "[1]" None "[]" "[]" "[1]" 4] show ?thesis
    by (simp add: valueAt_def search_def sort_search_def sort_search_loop.simps newestAt_def)
qed

text \<open>
  A range read returns, in key order, exactly the keys of the range that are present at the read
  version, each with the value a point read returns there.
\<close>

lemma rangeAt_exact:
  assumes "store_inv s v"
  shows "sorted_wrt (<) (map fst (rangeAt s b e w)) \<and>
    ((k, x) \<in> set (rangeAt s b e w) \<longleftrightarrow> b \<le> k \<and> k < e \<and> valueAt s k w = Some x)"
proof -
  have sorted: "sorted_wrt (<) (map fst (rangeAt s b e w))" using assms by (rule simstore.scan_sorted)
  then have "(k, x) \<in> set (rangeAt s b e w) \<longleftrightarrow> map_of (rangeAt s b e w) k = Some x"
    by (simp add: strict_sorted_iff)
  with sorted show ?thesis using simstore.scan_get [OF assms, of b e w k] by auto
qed

lemma rangeAt_exact_example:
  "([1], [7]) \<in> set (rangeAt \<lparr>entries = [\<lparr>entryKey = [1], entryHistory = [\<lparr>vvVersion = 3, vvValue = Some [7]\<rparr>]\<rparr>]\<rparr> [] [9] 4)"
proof -
  have "store_inv \<lparr>entries = [\<lparr>entryKey = [1], entryHistory = [\<lparr>vvVersion = 3, vvValue = Some [7]\<rparr>]\<rparr>]\<rparr> 3"
    by (simp add: store_inv_def)
  from rangeAt_exact [OF this, of "[]" "[9]" 4 "[1]" "[7]"] show ?thesis
    by (simp add: valueAt_def search_def sort_search_def sort_search_loop.simps newestAt_def)
qed



end
