(* ===== verification/KeyRanges.thy ===== *)
theory KeyRanges
  imports Prelude "HOL-Library.Multiset"
begin

text \<open>
  Lists of half-open key ranges, sorted and with a gap between any two, as the simulated transaction
  keeps them for its cleared ranges, for the ranges a pending versionstamp makes unreadable and for the
  spans it has read (\<^verbatim>\<open>pkg/simfdb/ryw_conflict.go\<close>, \<^verbatim>\<open>pkg/simfdb/txn.go\<close>, \<^verbatim>\<open>pkg/simfdb/selector_cache.go\<close>).
  Each of the three lists has its own insertion; the locale \<open>key_range_set\<close> is the contract they share,
  interpreted here on the three of them.
\<close>

section \<open>Definitions\<close>

record keyRange =
  rbegin :: bytes
  rend :: bytes

text \<open>Growing a range over another one, as all three insertions do.\<close>

definition widen :: "keyRange \<Rightarrow> keyRange \<Rightarrow> keyRange" where
  "widen merged r =
     (let merged = (if rbegin r < rbegin merged then merged\<lparr>rbegin := rbegin r\<rparr> else merged)
      in if rend r > rend merged then merged\<lparr>rend := rend r\<rparr> else merged)"

text \<open>The loop of \<^verbatim>\<open>writeMap.addCleared\<close>: the ranges kept as they are, and the merged one.\<close>

fun addClearedLoop :: "keyRange list \<Rightarrow> keyRange \<Rightarrow> keyRange list \<times> keyRange" where
  "addClearedLoop [] merged = ([], merged)"
| "addClearedLoop (r # rs) merged =
     (if rend r < rbegin merged \<or> rend merged < rbegin r
      then let (out, merged) = addClearedLoop rs merged in (r # out, merged)
      else addClearedLoop rs (widen merged r))"

definition addClearedRange :: "keyRange list \<Rightarrow> bytes \<Rightarrow> bytes \<Rightarrow> keyRange list" where
  "addClearedRange cleared begin end =
     (if begin \<ge> end then cleared
      else let (out, merged) = addClearedLoop cleared \<lparr>rbegin = begin, rend = end\<rparr>
           in sort_key rbegin (out @ [merged]))"

definition clearedAt :: "keyRange list \<Rightarrow> bytes \<Rightarrow> bool" where
  "clearedAt cleared key =
     (let i = sort_search (length cleared) (\<lambda>i. rbegin (cleared ! i) > key)
      in if i = 0 then False else key < rend (cleared ! (i - 1)))"

text \<open>The list operations behind \<^verbatim>\<open>simTxn.addUnreadableRange\<close> and \<^verbatim>\<open>simTxn.subtractUnreadableRange\<close>.\<close>

definition mergeRange :: "keyRange list \<Rightarrow> bytes \<Rightarrow> bytes \<Rightarrow> keyRange list" where
  "mergeRange rs begin end =
     (if begin \<ge> end then rs
      else let n = length rs;
               hiIdx = sort_search n (\<lambda>i. rbegin (rs ! i) > end);
               loIdx = sort_search n (\<lambda>i. rend (rs ! i) \<ge> begin)
           in take loIdx rs @
              foldl widen \<lparr>rbegin = begin, rend = end\<rparr> (take (hiIdx - loIdx) (drop loIdx rs)) # drop hiIdx rs)"

definition subtractRange :: "keyRange list \<Rightarrow> bytes \<Rightarrow> bytes \<Rightarrow> keyRange list" where
  "subtractRange rs begin end =
     (if length rs = 0 \<or> begin \<ge> end then rs
      else concat (map (\<lambda>r.
        if rend r \<le> begin \<or> rbegin r \<ge> end then [r]
        else (if rbegin r < begin then [\<lparr>rbegin = rbegin r, rend = begin\<rparr>] else []) @
             (if rend r > end then [\<lparr>rbegin = end, rend = rend r\<rparr>] else [])) rs))"

text \<open>The lookup of \<^verbatim>\<open>simTxn.inUnreadableRange\<close> and \<^verbatim>\<open>simTxn.readKnown\<close>: the first range that ends above the key.\<close>

definition rangesHold :: "keyRange list \<Rightarrow> bytes \<Rightarrow> bool" where
  "rangesHold rs key =
     (let i = sort_search (length rs) (\<lambda>i. rend (rs ! i) > key)
      in i < length rs \<and> rbegin (rs ! i) \<le> key)"

text \<open>The loop of \<^verbatim>\<open>simTxn.rememberRead\<close>.\<close>

fun rememberLoop :: "keyRange list \<Rightarrow> keyRange \<Rightarrow> bool \<Rightarrow> keyRange list" where
  "rememberLoop [] merged inserted = (if \<not> inserted then [merged] else [])"
| "rememberLoop (r # rs) merged inserted =
     (if rend r < rbegin merged then r # rememberLoop rs merged inserted
      else if rend merged < rbegin r
      then (if \<not> inserted then [merged] else []) @ r # rememberLoop rs merged True
      else rememberLoop rs (widen merged r) inserted)"

definition rememberRange :: "keyRange list \<Rightarrow> bytes \<Rightarrow> bytes \<Rightarrow> keyRange list" where
  "rememberRange known begin end =
     (if begin \<ge> end then known else rememberLoop known \<lparr>rbegin = begin, rend = end\<rparr> False)"

section \<open>The keys of a list of ranges\<close>

lemma bytes_less_not_le [simp]: "a < b \<Longrightarrow> (b \<le> a) = False" for a b :: bytes
  by (simp add: not_le)

definition within :: "keyRange \<Rightarrow> bytes \<Rightarrow> bool" where
  "within r k \<longleftrightarrow> rbegin r \<le> k \<and> k < rend r"

definition covered :: "keyRange list \<Rightarrow> bytes \<Rightarrow> bool" where
  "covered rs k \<longleftrightarrow> (\<exists>r \<in> set rs. within r k)"

lemma within_keyRange [simp]: "within \<lparr>rbegin = b, rend = e\<rparr> k \<longleftrightarrow> b \<le> k \<and> k < e"
  by (simp add: within_def)

lemma covered_simps [simp]:
  "\<not> covered [] k"
  "covered (r # rs) k \<longleftrightarrow> within r k \<or> covered rs k"
  "covered (rs @ rs') k \<longleftrightarrow> covered rs k \<or> covered rs' k"
  by (auto simp: covered_def)

text \<open>The invariant of the lists: no range is empty, and each ends strictly below the next.\<close>

definition separated :: "keyRange list \<Rightarrow> bool" where
  "separated rs \<longleftrightarrow> sorted_wrt (\<lambda>r r'. rend r < rbegin r') rs \<and> (\<forall>r \<in> set rs. rbegin r < rend r)"

lemma separated_simps [simp]:
  "separated []"
  "separated (r # rs) \<longleftrightarrow> rbegin r < rend r \<and> (\<forall>r' \<in> set rs. rend r < rbegin r') \<and> separated rs"
  by (auto simp: separated_def)

lemma separated_append [simp]:
  "separated (rs @ rs') \<longleftrightarrow>
     separated rs \<and> separated rs' \<and> (\<forall>r \<in> set rs. \<forall>r' \<in> set rs'. rend r < rbegin r')"
  by (induction rs) auto

lemma separated_nonempty: "separated rs \<Longrightarrow> r \<in> set rs \<Longrightarrow> rbegin r < rend r"
  by (simp add: separated_def)

lemma separated_sorted:
  assumes "separated rs"
  shows "sorted (map rbegin rs)" and "sorted (map rend rs)"
  using assms
  by (induction rs) (auto intro: less_imp_le less_trans dest: separated_nonempty)

text \<open>A range touches another when neither ends below the start of the other; their union is a range.\<close>

abbreviation touches :: "keyRange \<Rightarrow> keyRange \<Rightarrow> bool" where
  "touches a b \<equiv> \<not> (rend a < rbegin b) \<and> \<not> (rend b < rbegin a)"

lemma widen_sel [simp]:
  "rbegin (widen m r) = min (rbegin m) (rbegin r)"
  "rend (widen m r) = max (rend m) (rend r)"
  by (auto simp: widen_def Let_def min_def max_def)

lemma within_widen:
  assumes "rbegin m < rend m" "rbegin r < rend r" "touches r m"
  shows "within (widen m r) k \<longleftrightarrow> within m k \<or> within r k"
  using assms by (auto simp: within_def min_le_iff_disj less_max_iff_disj)


section \<open>The insertions\<close>

text \<open>
  What each insertion computes: the ranges below the new one, the new one grown over those it touches,
  and the ranges above it.
\<close>

definition insertRange :: "keyRange \<Rightarrow> keyRange list \<Rightarrow> keyRange list" where
  "insertRange m rs =
     filter (\<lambda>r. rend r < rbegin m) rs @ foldl widen m (filter (\<lambda>r. touches r m) rs) #
     filter (\<lambda>r. rend m < rbegin r) rs"

lemma separated_filter: "separated rs \<Longrightarrow> separated (filter P rs)"
  by (induction rs) auto

lemma separated_split:
  assumes "separated rs" and "rbegin m < rend m"
  shows "rs = filter (\<lambda>r. rend r < rbegin m) rs @ filter (\<lambda>r. touches r m) rs @ filter (\<lambda>r. rend m < rbegin r) rs"
  using assms(1)
proof (induction rs)
  case (Cons r rs)
  have nb: "\<not> rend r' < rbegin m" if "\<not> rend r < rbegin m" "r' \<in> set rs" for r'
  proof -
    have "rend r < rbegin r'" "rbegin r' < rend r'" using Cons.prems that(2) by (auto dest: separated_nonempty)
    then show ?thesis using that(1) by (meson leI less_le_trans less_trans not_less_iff_gr_or_eq)
  qed
  have na: "rend m < rbegin r'" if "rend m < rbegin r" "r' \<in> set rs" for r'
    using Cons.prems that by (auto intro: less_trans)
  let ?B = "filter (\<lambda>r. rend r < rbegin m)" and ?T = "filter (\<lambda>r. touches r m)"
    and ?A = "filter (\<lambda>r. rend m < rbegin r)"
  have IH: "rs = ?B rs @ ?T rs @ ?A rs" using Cons by simp
  consider (below) "rend r < rbegin m" | (touch) "touches r m" | (above) "rend m < rbegin r" by blast
  then show ?case
  proof cases
    case below
    then have "\<not> rend m < rbegin r" using assms(2) Cons.prems by (auto dest: less_trans)
    with below have "?B (r # rs) @ ?T (r # rs) @ ?A (r # rs) = r # (?B rs @ ?T rs @ ?A rs)" by simp
    then show ?thesis by (simp only: IH [symmetric])
  next
    case touch
    then have "?B rs = []" using nb by (simp add: filter_empty_conv)
    with touch have "?B (r # rs) @ ?T (r # rs) @ ?A (r # rs) = r # (?B rs @ ?T rs @ ?A rs)" by simp
    then show ?thesis by (simp only: IH [symmetric])
  next
    case above
    then have "\<not> rend r < rbegin m" using assms(2) Cons.prems by (auto dest: less_trans)
    moreover from this have "?B rs = []" using nb by (simp add: filter_empty_conv)
    moreover have "?T rs = []" using na above by (simp add: filter_empty_conv)
    ultimately have "?B (r # rs) @ ?T (r # rs) @ ?A (r # rs) = r # (?B rs @ ?T rs @ ?A rs)" using above by simp
    then show ?thesis by (simp only: IH [symmetric])
  qed
qed simp

lemma foldl_widen:
  assumes "rbegin m < rend m" and "\<forall>r \<in> set ts. rbegin r < rend r \<and> touches r m"
  shows "rbegin (foldl widen m ts) < rend (foldl widen m ts) \<and>
    (\<forall>k. within (foldl widen m ts) k \<longleftrightarrow> within m k \<or> covered ts k) \<and>
    (\<forall>b. b < rbegin m \<longrightarrow> (\<forall>r \<in> set ts. b < rbegin r) \<longrightarrow> b < rbegin (foldl widen m ts)) \<and>
    (\<forall>e. rend m < e \<longrightarrow> (\<forall>r \<in> set ts. rend r < e) \<longrightarrow> rend (foldl widen m ts) < e)"
  using assms
proof (induction ts arbitrary: m)
  case (Cons t ts)
  have "rbegin (widen m t) < rend (widen m t)" "\<forall>r \<in> set ts. rbegin r < rend r \<and> touches r (widen m t)"
    using Cons.prems by (auto simp: min_less_iff_disj less_max_iff_disj)
  note IH = Cons.IH [OF this]
  have "within (widen m t) k \<longleftrightarrow> within m k \<or> within t k" for k
    using Cons.prems by (intro within_widen) auto
  with IH show ?case by auto
qed auto

lemma separated_widened:
  assumes sep: "separated (B @ T @ A)" and ne: "rbegin m < rend m" and T: "\<forall>r \<in> set T. touches r m"
    and B: "\<forall>r \<in> set B. rend r < rbegin m" and A: "\<forall>r \<in> set A. rend m < rbegin r"
  shows "separated (B @ foldl widen m T # A)"
    and "covered (B @ foldl widen m T # A) k \<longleftrightarrow> covered (B @ T @ A) k \<or> within m k"
proof -
  have "\<forall>r \<in> set T. rbegin r < rend r \<and> touches r m" using sep T by (auto dest: separated_nonempty)
  note fw = foldl_widen [OF ne this]
  have "rend r < rbegin (foldl widen m T)" if "r \<in> set B" for r
    using fw sep that B by simp
  moreover have "rend (foldl widen m T) < rbegin r" if "r \<in> set A" for r
    using fw sep that A by simp
  ultimately show "separated (B @ foldl widen m T # A)" using fw sep by simp
  show "covered (B @ foldl widen m T # A) k \<longleftrightarrow> covered (B @ T @ A) k \<or> within m k"
    using fw by auto
qed

lemma separated_insertRange:
  assumes "separated rs" and "rbegin m < rend m"
  shows "separated (insertRange m rs)" and "covered (insertRange m rs) k \<longleftrightarrow> covered rs k \<or> within m k"
proof -
  let ?B = "filter (\<lambda>r. rend r < rbegin m) rs" and ?T = "filter (\<lambda>r. touches r m) rs"
    and ?A = "filter (\<lambda>r. rend m < rbegin r) rs"
  have rs: "?B @ ?T @ ?A = rs" using separated_split [OF assms] by (rule sym)
  have *: "\<forall>r \<in> set ?T. touches r m" "\<forall>r \<in> set ?B. rend r < rbegin m" "\<forall>r \<in> set ?A. rend m < rbegin r"
    by simp_all
  have "separated (?B @ ?T @ ?A)" using assms(1) by (simp only: rs)
  note w = separated_widened [OF this assms(2) *]
  show "separated (insertRange m rs)" unfolding insertRange_def by (rule w(1))
  show "covered (insertRange m rs) k \<longleftrightarrow> covered rs k \<or> within m k"
    unfolding insertRange_def using w(2) [of k] by (simp only: rs)
qed

text \<open>The three loops compute it.\<close>

lemma touches_widen:
  assumes "rbegin m < rend m" "rbegin t < rend t" "rbegin r < rend r" "touches t m" "rend t < rbegin r"
  shows "touches r (widen m t) \<longleftrightarrow> touches r m"
    and "rend (widen m t) < rbegin r \<longleftrightarrow> rend m < rbegin r"
    and "\<not> rend r < rbegin (widen m t)"
  using assms by (auto simp: min_le_iff_disj less_max_iff_disj dest: less_trans)

lemma addClearedLoop_eq:
  assumes "separated rs" and "rbegin m < rend m"
  shows "addClearedLoop rs m = (filter (\<lambda>r. \<not> touches r m) rs, foldl widen m (filter (\<lambda>r. touches r m) rs))"
  using assms
proof (induction rs m rule: addClearedLoop.induct)
  case (2 r rs m)
  show ?case
  proof (cases "touches r m")
    case True
    have "rbegin r < rend r" using "2.prems" by simp
    then have t: "touches r' (widen m r) \<longleftrightarrow> touches r' m" if "r' \<in> set rs" for r'
      using touches_widen(1) [of m r r'] that "2.prems" True by (auto dest: separated_nonempty)
    have "rbegin (widen m r) < rend (widen m r)"
      using "2.prems" by (auto simp: min_less_iff_disj less_max_iff_disj)
    then have "addClearedLoop rs (widen m r) =
        (filter (\<lambda>r'. \<not> touches r' (widen m r)) rs, foldl widen (widen m r) (filter (\<lambda>r'. touches r' (widen m r)) rs))"
      using "2.IH"(2) "2.prems" True by simp
    also have "\<dots> = (filter (\<lambda>r'. \<not> touches r' m) rs, foldl widen (widen m r) (filter (\<lambda>r'. touches r' m) rs))"
      using t by (simp cong: filter_cong)
    finally show ?thesis using True by simp
  next
    case False
    then show ?thesis using "2.IH"(1) "2.prems" by auto
  qed
qed simp


lemma not_below_above:
  assumes "rbegin r < rend r" "rbegin m < rend m" "rend r < rbegin m"
  shows "\<not> rend m < rbegin r"
  using assms by (meson less_trans less_asym)

lemma separated_inj: "separated rs \<Longrightarrow> inj_on rbegin (set rs)"
  by (induction rs) (auto dest: separated_nonempty less_trans)

lemma sort_separated:
  assumes "separated ys" and "mset xs = mset ys"
  shows "sort_key rbegin xs = ys"
  using assms mset_eq_setD [OF assms(2)] separated_inj [OF assms(1)]
  by (intro sort_key_inj_key_eq) (simp_all add: separated_sorted)

lemma insertRange_append:
  assumes "\<forall>r \<in> set B. rend r < rbegin m" "\<forall>r \<in> set T. touches r m" "\<forall>r \<in> set A. rend m < rbegin r"
    "\<forall>r \<in> set (B @ T @ A). rbegin r < rend r" "rbegin m < rend m"
  shows "insertRange m (B @ T @ A) = B @ foldl widen m T # A"
proof -
  have "filter (\<lambda>r. rend r < rbegin m) A = []" "filter (\<lambda>r. rend m < rbegin r) B = []"
    using assms not_below_above [of _ m] by (simp_all add: filter_empty_conv) blast+
  then show ?thesis using assms by (simp add: insertRange_def filter_id_conv filter_empty_conv)
qed

lemma addClearedRange_eq:
  assumes "separated rs" and "b < e"
  shows "addClearedRange rs b e = insertRange \<lparr>rbegin = b, rend = e\<rparr> rs"
proof -
  let ?m = "\<lparr>rbegin = b, rend = e\<rparr>"
  let ?B = "filter (\<lambda>r. rend r < rbegin ?m) rs" and ?T = "filter (\<lambda>r. touches r ?m) rs"
    and ?A = "filter (\<lambda>r. rend ?m < rbegin r) rs" and ?N = "filter (\<lambda>r. \<not> touches r ?m) rs"
  have ne: "rbegin ?m < rend ?m" using assms by simp
  have sep: "separated (insertRange ?m rs)" using separated_insertRange(1) [OF assms(1) ne] .
  have "?N = filter (\<lambda>r. \<not> touches r ?m) (?B @ ?T @ ?A)"
    using separated_split [OF assms(1) ne] by simp
  also have "\<dots> = ?B @ ?A"
  proof -
    have "filter (\<lambda>r. \<not> touches r ?m) ?B = ?B" "filter (\<lambda>r. \<not> touches r ?m) ?A = ?A" by (rule filter_True; simp)+
    moreover have "filter (\<lambda>r. \<not> touches r ?m) ?T = []" by (rule filter_False) simp
    ultimately show ?thesis by (simp only: filter_append append_Nil)
  qed
  finally have N: "?N = ?B @ ?A" .
  have "mset (?N @ [foldl widen ?m ?T]) = mset (insertRange ?m rs)"
    unfolding N insertRange_def by simp
  with sep have "sort_key rbegin (?N @ [foldl widen ?m ?T]) = insertRange ?m rs" by (rule sort_separated)
  then show ?thesis
    using assms addClearedLoop_eq [OF assms(1) ne] by (auto simp: addClearedRange_def dest: leD)
qed

lemma takeWhile_split:
  "\<forall>x \<in> set xs. P x \<Longrightarrow> \<forall>y \<in> set ys. \<not> P y \<Longrightarrow> takeWhile P (xs @ ys) = xs"
  by (cases ys) auto

lemma mergeRange_eq:
  assumes "separated rs" and "b < e"
  shows "mergeRange rs b e = insertRange \<lparr>rbegin = b, rend = e\<rparr> rs"
proof -
  let ?m = "\<lparr>rbegin = b, rend = e\<rparr>"
  define B T A where "B = filter (\<lambda>r. rend r < rbegin ?m) rs" and "T = filter (\<lambda>r. touches r ?m) rs"
    and "A = filter (\<lambda>r. rend ?m < rbegin r) rs"
  have rs: "rs = B @ T @ A" unfolding B_def T_def A_def using assms by (intro separated_split) simp_all
  have sep: "\<forall>r \<in> set rs. rbegin r < rend r" using assms(1) by (simp add: separated_def)
  have B: "r \<in> set B \<Longrightarrow> rend r < b" and T: "r \<in> set T \<Longrightarrow> b \<le> rend r \<and> rbegin r \<le> e"
    and A: "r \<in> set A \<Longrightarrow> e < rbegin r" for r by (auto simp: B_def T_def A_def)
  have A': "b \<le> rend r" if "r \<in> set A" for r using A [OF that] sep that assms(2) rs by force
  have B': "rbegin r \<le> e" if "r \<in> set B" for r using B [OF that] sep that assms(2) rs by force
  have "takeWhile (\<lambda>r. \<not> b \<le> rend r) (B @ T @ A) = B"
    by (rule takeWhile_split) (auto dest: B T A' leD)
  then have lo: "sort_search (length rs) (\<lambda>i. rend (rs ! i) \<ge> b) = length B"
    using sort_search_sorted(3) [OF separated_sorted(2) [OF assms(1)], of "\<lambda>r. b \<le> rend r"] rs by simp
  have "takeWhile (\<lambda>r. \<not> e < rbegin r) ((B @ T) @ A) = B @ T"
    by (rule takeWhile_split) (auto dest: B' T A leD)
  then have hi: "sort_search (length rs) (\<lambda>i. rbegin (rs ! i) > e) = length (B @ T)"
    using sort_search_sorted(3) [OF separated_sorted(1) [OF assms(1)], of "\<lambda>r. e < rbegin r"] rs by simp
  have "mergeRange rs b e = B @ foldl widen ?m T # A"
    using assms(2) unfolding mergeRange_def Let_def lo hi by (simp add: rs)
  then show ?thesis by (simp add: insertRange_def B_def T_def A_def)
qed

lemma rememberLoop_above:
  assumes "separated rs" and "\<forall>r \<in> set rs. rend m < rbegin r" and "rbegin m < rend m"
  shows "rememberLoop rs m True = rs"
  using assms
proof (induction rs)
  case (Cons r rs)
  then show ?case using not_below_above [of r m] by auto
qed simp

lemma rememberLoop_eq:
  assumes "separated rs" and "rbegin m < rend m"
  shows "rememberLoop rs m False = insertRange m rs"
  using assms
proof (induction rs arbitrary: m)
  case (Cons r rs)
  consider (below) "rend r < rbegin m" | (touch) "touches r m" | (above) "rend m < rbegin r" by blast
  then show ?case
  proof cases
    case below
    then show ?thesis using Cons not_below_above [of r m] by (simp add: insertRange_def)
  next
    case touch
    have "rbegin r < rend r" using Cons.prems by simp
    then have w: "rend (widen m r) < rbegin r' \<longleftrightarrow> rend m < rbegin r'" "rend r' < rbegin (widen m r) \<longleftrightarrow> rend r' < rbegin m"
      "touches r' (widen m r) \<longleftrightarrow> touches r' m" if "r' \<in> set rs" for r'
      using touches_widen [of m r r'] that Cons.prems touch by (auto dest: separated_nonempty)
    have "rbegin (widen m r) < rend (widen m r)"
      using Cons.prems by (auto simp: min_less_iff_disj less_max_iff_disj)
    then have "rememberLoop rs (widen m r) False = insertRange (widen m r) rs" using Cons by simp
    also have "\<dots> = insertRange m (r # rs)"
      using touch w unfolding insertRange_def by (simp cong: filter_cong)
    finally show ?thesis using touch by simp
  next
    case above
    then have all: "\<forall>r' \<in> set (r # rs). rend m < rbegin r'" using Cons.prems by (auto intro: less_trans)
    then have "insertRange m ([] @ [] @ r # rs) = [] @ foldl widen m [] # (r # rs)"
      using Cons.prems by (intro insertRange_append) (auto dest: separated_nonempty)
    moreover have "\<not> rend r < rbegin m" using not_below_above [of r m] Cons.prems above by auto
    ultimately show ?thesis using rememberLoop_above [of rs m] all Cons.prems by simp
  qed
qed (simp add: insertRange_def)


section \<open>Lookups\<close>

text \<open>In a separated list the last range that starts at or below a key is the only one that can hold it.\<close>

lemma covered_separated:
  assumes "separated (B @ A)" and "\<forall>r \<in> set B. rbegin r \<le> k" and "\<forall>r \<in> set A. k < rbegin r"
  shows "covered (B @ A) k \<longleftrightarrow> B \<noteq> [] \<and> k < rend (last B)"
proof (cases B rule: rev_cases)
  case Nil
  then show ?thesis using assms(3) by (auto simp: covered_def within_def)
next
  case (snoc B' r)
  have "\<not> within r' k" if "r' \<in> set B'" for r'
  proof -
    have "rend r' < rbegin r" "rbegin r \<le> k" using assms(1,2) that snoc by auto
    then have "rend r' < k" by (rule less_le_trans)
    then show ?thesis by (auto simp: within_def dest: less_trans)
  qed
  moreover have "\<not> within r' k" if "r' \<in> set A" for r' using assms(3) that by (auto simp: within_def)
  ultimately show ?thesis using snoc assms(2) by (auto simp: covered_def within_def)
qed

lemma clearedAt_covered:
  assumes "separated rs"
  shows "clearedAt rs k \<longleftrightarrow> covered rs k"
proof -
  define B A where "B = takeWhile (\<lambda>r. \<not> k < rbegin r) rs" and "A = dropWhile (\<lambda>r. \<not> k < rbegin r) rs"
  have rs: "rs = B @ A" by (simp add: B_def A_def)
  have i: "sort_search (length rs) (\<lambda>i. k < rbegin (rs ! i)) = length B"
    unfolding B_def by (rule sort_search_sorted(3) [OF separated_sorted(1) [OF assms]]) (rule less_le_trans)
  have "\<forall>r \<in> set B. rbegin r \<le> k" unfolding B_def by (auto dest: set_takeWhileD simp: not_less)
  moreover have "\<forall>r \<in> set A. k < rbegin r"
  proof (cases A)
    case (Cons r A')
    then have "k < rbegin r" unfolding A_def by (metis hd_dropWhile list.distinct(1) list.sel(1))
    moreover have "sorted (map rbegin (r # A'))" using separated_sorted(1) [OF assms] rs Cons by (simp add: sorted_append)
    ultimately show ?thesis using Cons by (auto intro: less_le_trans)
  qed simp
  ultimately have "covered rs k \<longleftrightarrow> B \<noteq> [] \<and> k < rend (last B)"
    using covered_separated [of B A k] assms rs by simp
  also have "\<dots> \<longleftrightarrow> clearedAt rs k"
    unfolding clearedAt_def i Let_def by (cases B rule: rev_cases) (simp_all add: rs nth_append)
  finally show ?thesis ..
qed

lemma rangesHold_covered:
  assumes "separated rs"
  shows "rangesHold rs k \<longleftrightarrow> covered rs k"
proof -
  define B A where "B = takeWhile (\<lambda>r. \<not> k < rend r) rs" and "A = dropWhile (\<lambda>r. \<not> k < rend r) rs"
  have rs: "rs = B @ A" by (simp add: B_def A_def)
  have i: "sort_search (length rs) (\<lambda>i. k < rend (rs ! i)) = length B"
    unfolding B_def by (rule sort_search_sorted(3) [OF separated_sorted(2) [OF assms]]) (rule less_le_trans)
  have B: "\<not> covered B k" unfolding B_def by (auto simp: covered_def within_def dest: set_takeWhileD)
  show ?thesis
  proof (cases A)
    case Nil
    then show ?thesis using B unfolding rangesHold_def i Let_def by (simp add: rs)
  next
    case (Cons r A')
    then have "k < rend r" unfolding A_def by (metis hd_dropWhile list.distinct(1) list.sel(1))
    moreover have "\<not> covered A' k"
    proof -
      have "\<forall>r' \<in> set A'. rend r < rbegin r'" using assms rs Cons by simp
      then have "\<forall>r' \<in> set A'. k < rbegin r'" using \<open>k < rend r\<close> by (auto intro: less_trans)
      then show ?thesis by (auto simp: covered_def within_def)
    qed
    ultimately show ?thesis using B Cons unfolding rangesHold_def i Let_def
      by (auto simp: rs nth_append within_def)
  qed
qed

section \<open>Subtraction\<close>

lemma separated_concat:
  assumes "separated rs"
    and "\<And>r r'. r \<in> set rs \<Longrightarrow> r' \<in> set (f r) \<Longrightarrow> rbegin r \<le> rbegin r' \<and> rend r' \<le> rend r"
    and "\<And>r. r \<in> set rs \<Longrightarrow> separated (f r)"
  shows "separated (concat (map f rs))"
  using assms
proof (induction rs)
  case (Cons r rs)
  have "rend a < rbegin b" if "a \<in> set (f r)" "r' \<in> set rs" "b \<in> set (f r')" for a r' b
  proof -
    have "rend a \<le> rend r" "rend r < rbegin r'" "rbegin r' \<le> rbegin b" using Cons.prems that by auto
    then show ?thesis by (meson le_less_trans less_le_trans)
  qed
  then show ?case using Cons by auto
qed simp

lemma subtractRange_separated:
  assumes "separated rs"
  shows "separated (subtractRange rs b e)"
proof (cases "rs = [] \<or> e \<le> b")
  case True
  then show ?thesis using assms by (auto simp: subtractRange_def)
next
  case False
  let ?f = "\<lambda>r. if rend r \<le> b \<or> rbegin r \<ge> e then [r]
        else (if rbegin r < b then [\<lparr>rbegin = rbegin r, rend = b\<rparr>] else []) @
             (if rend r > e then [\<lparr>rbegin = e, rend = rend r\<rparr>] else [])"
  have "separated (concat (map ?f rs))"
  proof (rule separated_concat [OF assms])
    fix r assume r: "r \<in> set rs"
    then have "rbegin r < rend r" using assms by (rule separated_nonempty [rotated])
    then show "separated (?f r)" using False by auto
    show "rbegin r \<le> rbegin r' \<and> rend r' \<le> rend r" if "r' \<in> set (?f r)" for r'
      using that False \<open>rbegin r < rend r\<close> by (auto split: if_splits)
  qed
  then show ?thesis using False by (simp add: subtractRange_def)
qed

lemma subtractRange_covered:
  assumes "separated rs"
  shows "covered (subtractRange rs b e) k \<longleftrightarrow> covered rs k \<and> \<not> (b \<le> k \<and> k < e)"
proof (cases "rs = [] \<or> e \<le> b")
  case True
  then show ?thesis by (auto simp: subtractRange_def dest: leD le_less_trans)
next
  case False
  let ?f = "\<lambda>r. if rend r \<le> b \<or> rbegin r \<ge> e then [r]
        else (if rbegin r < b then [\<lparr>rbegin = rbegin r, rend = b\<rparr>] else []) @
             (if rend r > e then [\<lparr>rbegin = e, rend = rend r\<rparr>] else [])"
  have f: "covered (?f r) k \<longleftrightarrow> within r k \<and> \<not> (b \<le> k \<and> k < e)" for r
    using False by (auto simp: within_def not_le not_less intro: less_le_trans le_less_trans)
  have "covered (concat (map g rs)) k \<longleftrightarrow> (\<exists>r \<in> set rs. covered (g r) k)" for g :: "keyRange \<Rightarrow> keyRange list"
    by (auto simp: covered_def)
  then have "covered (concat (map ?f rs)) k \<longleftrightarrow> (\<exists>r \<in> set rs. within r k \<and> \<not> (b \<le> k \<and> k < e))"
    by (simp only: f)
  also have "\<dots> \<longleftrightarrow> covered rs k \<and> \<not> (b \<le> k \<and> k < e)" by (auto simp: covered_def)
  finally show ?thesis using False by (simp add: subtractRange_def)
qed

section \<open>The contract\<close>

locale key_range_set =
  fixes inv :: "'s \<Rightarrow> bool"
    and empty :: 's
    and member :: "'s \<Rightarrow> bytes \<Rightarrow> bool"
    and add :: "'s \<Rightarrow> bytes \<Rightarrow> bytes \<Rightarrow> 's"
  assumes empty_inv: "inv empty"
    and member_empty: "\<not> member empty k"
    and add_inv: "inv s \<Longrightarrow> inv (add s b e)"
    and member_add: "inv s \<Longrightarrow> member (add s b e) k \<longleftrightarrow> member s k \<or> b \<le> k \<and> k < e"
begin

lemma inv_adds: "inv s \<Longrightarrow> inv (fold (\<lambda>p s. add s (fst p) (snd p)) rs s)"
  by (induction rs arbitrary: s) (auto simp: add_inv)

text \<open>Whatever the order of the insertions, a key is held exactly if one of the ranges has it.\<close>

lemma member_adds:
  "inv s \<Longrightarrow> member (fold (\<lambda>p s. add s (fst p) (snd p)) rs s) k \<longleftrightarrow> member s k \<or> (\<exists>p \<in> set rs. fst p \<le> k \<and> k < snd p)"
  by (induction rs arbitrary: s) (auto simp: add_inv member_add)

lemma member_built:
  "member (fold (\<lambda>p s. add s (fst p) (snd p)) rs empty) k \<longleftrightarrow> (\<exists>p \<in> set rs. fst p \<le> k \<and> k < snd p)"
  by (simp add: member_adds empty_inv member_empty)

end

locale key_range_diff = key_range_set +
  fixes sub :: "'a \<Rightarrow> bytes \<Rightarrow> bytes \<Rightarrow> 'a"
  assumes sub_inv: "inv s \<Longrightarrow> inv (sub s b e)"
    and member_sub: "inv s \<Longrightarrow> member (sub s b e) k \<longleftrightarrow> member s k \<and> \<not> (b \<le> k \<and> k < e)"
begin

lemma sub_add: "inv s \<Longrightarrow> member (sub (add s b e) b e) k \<longleftrightarrow> member s k \<and> \<not> (b \<le> k \<and> k < e)"
  by (auto simp: add_inv member_sub member_add)

lemma add_sub: "inv s \<Longrightarrow> member (add (sub s b e) b e) k \<longleftrightarrow> member s k \<or> b \<le> k \<and> k < e"
  by (auto simp: sub_inv member_sub member_add)

end

lemma insert_cases:
  assumes "separated rs" and "b < e \<Longrightarrow> xs = insertRange \<lparr>rbegin = b, rend = e\<rparr> rs" and "e \<le> b \<Longrightarrow> xs = rs"
  shows "separated xs" and "covered xs k \<longleftrightarrow> covered rs k \<or> b \<le> k \<and> k < e"
proof -
  have "separated xs \<and> (covered xs k \<longleftrightarrow> covered rs k \<or> b \<le> k \<and> k < e)"
  proof (cases "b < e")
    case True
    then show ?thesis
      using assms(2) separated_insertRange(1) [OF assms(1), of "\<lparr>rbegin = b, rend = e\<rparr>"]
        separated_insertRange(2) [OF assms(1), of "\<lparr>rbegin = b, rend = e\<rparr>" k] by simp
  next
    case False
    then have "e \<le> b" by (rule leI)
    moreover from this have "\<not> (b \<le> k \<and> k < e)" by (meson leD le_less_trans less_le_trans)
    ultimately show ?thesis using assms(1,3) by blast
  qed
  then show "separated xs" "covered xs k \<longleftrightarrow> covered rs k \<or> b \<le> k \<and> k < e" by simp_all
qed

lemma addClearedRange_spec:
  assumes "separated rs"
  shows "separated (addClearedRange rs b e)"
    and "covered (addClearedRange rs b e) k \<longleftrightarrow> covered rs k \<or> b \<le> k \<and> k < e"
  using insert_cases [OF assms, of b e "addClearedRange rs b e"] addClearedRange_eq [OF assms]
  by (simp_all add: addClearedRange_def)

lemma mergeRange_spec:
  assumes "separated rs"
  shows "separated (mergeRange rs b e)"
    and "covered (mergeRange rs b e) k \<longleftrightarrow> covered rs k \<or> b \<le> k \<and> k < e"
  using insert_cases [OF assms, of b e "mergeRange rs b e"] mergeRange_eq [OF assms]
  by (simp_all add: mergeRange_def)

lemma rememberRange_spec:
  assumes "separated rs"
  shows "separated (rememberRange rs b e)"
    and "covered (rememberRange rs b e) k \<longleftrightarrow> covered rs k \<or> b \<le> k \<and> k < e"
  using insert_cases [OF assms, of b e "rememberRange rs b e"] rememberLoop_eq [OF assms]
  by (simp_all add: rememberRange_def)

interpretation clearedSet: key_range_set separated "[]" clearedAt addClearedRange
  by unfold_locales (auto simp: addClearedRange_spec clearedAt_covered)

interpretation unreadableSet: key_range_diff separated "[]" rangesHold mergeRange subtractRange
  by unfold_locales
    (auto simp: mergeRange_spec rangesHold_covered subtractRange_separated subtractRange_covered)

interpretation knownSet: key_range_set separated "[]" rangesHold rememberRange
  by unfold_locales (auto simp: rememberRange_spec rangesHold_covered)

end
