(* ===== verification/SimAtomic.thy ===== *)
theory SimAtomic
  imports Prelude
begin

unbundle bit_operations_syntax

text \<open>
  Atomic mutations as the storage server applies them (\<^verbatim>\<open>pkg/simfdb/atomic.go\<close>).  A stored value is
  a \<^verbatim>\<open>[]byte\<close> whose nil means that the key is absent, a \<open>bytes option\<close> here; an operand is only
  looked at through its length and bytes.
\<close>

section \<open>Definitions\<close>

abbreviation atomicValueSizeLimit :: nat where "atomicValueSizeLimit \<equiv> 100000"

datatype atomicOp =
  atomicAdd | atomicAnd | atomicOr | atomicXor | atomicMax | atomicMin | atomicByteMax | atomicByteMin
| atomicAppendIfFits | atomicCompareAndClear

text \<open>\<^verbatim>\<open>append([]byte(nil), b...)\<close> is nil when there is nothing to append.\<close>

definition appendNil :: "bytes \<Rightarrow> bytes option" where
  "appendNil b = (if b = [] then None else Some b)"

definition presentBytes :: "bytes option \<Rightarrow> bytes" where
  "presentBytes existing = (case existing of None \<Rightarrow> [] | Some e \<Rightarrow> e)"

text \<open>The loop of \<^verbatim>\<open>doAdd\<close> on the bytes of both values from index \<open>i\<close> on, with the 16-bit carry.\<close>

fun addLoop :: "bytes \<Rightarrow> bytes \<Rightarrow> 16 word \<Rightarrow> bytes" where
  "addLoop e [] carry = []"
| "addLoop e (p # param) carry =
     (let ev = (case e of [] \<Rightarrow> 0 | x # _ \<Rightarrow> ucast x);
          sum = carry + ev + ucast p
      in ucast sum # addLoop (tl e) param (drop_bit 8 sum))"

definition doAdd :: "bytes option \<Rightarrow> bytes \<Rightarrow> bytes option" where
  "doAdd existing param =
     (let e = presentBytes existing
      in if length param = 0 then Some [] else Some (addLoop e param 0))"

definition doAnd :: "bytes option \<Rightarrow> bytes \<Rightarrow> bytes option" where
  "doAnd existing param =
     (case existing of
        None \<Rightarrow> appendNil param
      | Some e \<Rightarrow>
          if length param = 0 then Some []
          else let n = min (length e) (length param)
               in Some (map2 (AND) (take n e) (take n param) @ replicate (length param - n) 0))"

definition doOr :: "bytes option \<Rightarrow> bytes \<Rightarrow> bytes option" where
  "doOr existing param =
     (let e = presentBytes existing
      in if length e = 0 \<or> length param = 0 then appendNil param
         else let n = min (length e) (length param)
              in Some (map2 (OR) (take n e) (take n param) @ drop n param))"

definition doXor :: "bytes option \<Rightarrow> bytes \<Rightarrow> bytes option" where
  "doXor existing param =
     (let e = presentBytes existing
      in if length e = 0 \<or> length param = 0 then appendNil param
         else let n = min (length e) (length param)
              in Some (map2 (XOR) (take n e) (take n param) @ drop n param))"

text \<open>
  The loops of \<^verbatim>\<open>doMax\<close> and \<^verbatim>\<open>doMinPresent\<close> run down from the last byte of the operand.  The first
  looks for a nonzero byte that the existing value lacks, the second (\<open>compareDown\<close>, called with one
  more than the index) for the highest byte in which both differ.
\<close>

fun compareDown :: "bytes \<Rightarrow> bytes \<Rightarrow> nat \<Rightarrow> int" where
  "compareDown param e 0 = 0"
| "compareDown param e (Suc i) =
     (if param ! i > e ! i then 1 else if param ! i < e ! i then - 1 else compareDown param e i)"

definition highNonzero :: "bytes \<Rightarrow> bytes \<Rightarrow> bool" where
  "highNonzero param e = list_ex (\<lambda>b. b \<noteq> 0) (drop (length e) param)"

text \<open>\<^verbatim>\<open>copy(result, e)\<close> into a zeroed array of length \<open>n\<close>.\<close>

definition padTo :: "nat \<Rightarrow> bytes \<Rightarrow> bytes" where
  "padTo n e = take n e @ replicate (n - length e) 0"

definition doMax :: "bytes option \<Rightarrow> bytes \<Rightarrow> bytes option" where
  "doMax existing param =
     (let e = presentBytes existing
      in if length e = 0 \<or> length param = 0 then appendNil param
         else if highNonzero param e then appendNil param
         else if compareDown param e (min (length param) (length e)) = - 1 then Some (padTo (length param) e)
         else appendNil param)"

definition doMinPresent :: "bytes \<Rightarrow> bytes \<Rightarrow> bytes option" where
  "doMinPresent e param =
     (if length param = 0 then Some []
      else if highNonzero param e then Some (padTo (length param) e)
      else if compareDown param e (min (length param) (length e)) = 1 then Some (padTo (length param) e)
      else appendNil param)"

definition doMin :: "bytes option \<Rightarrow> bytes \<Rightarrow> bytes option" where
  "doMin existing param =
     (case existing of None \<Rightarrow> appendNil param | Some e \<Rightarrow> doMinPresent e param)"

definition doByteMax :: "bytes option \<Rightarrow> bytes \<Rightarrow> bytes option" where
  "doByteMax existing param =
     (case existing of None \<Rightarrow> appendNil param | Some e \<Rightarrow> if e > param then appendNil e else appendNil param)"

definition doByteMin :: "bytes option \<Rightarrow> bytes \<Rightarrow> bytes option" where
  "doByteMin existing param =
     (case existing of None \<Rightarrow> appendNil param | Some e \<Rightarrow> if e < param then appendNil e else appendNil param)"

definition doAppendIfFits :: "bytes option \<Rightarrow> bytes \<Rightarrow> bytes option" where
  "doAppendIfFits existing param =
     (let e = presentBytes existing
      in if length e = 0 then appendNil param
         else if length param = 0 then appendNil e
         else if length e + length param > atomicValueSizeLimit then appendNil e
         else Some (e @ param))"

definition doCompareAndClear :: "bytes option \<Rightarrow> bytes \<Rightarrow> bytes option \<times> bool" where
  "doCompareAndClear existing param =
     (case existing of
        None \<Rightarrow> (None, True)
      | Some e \<Rightarrow> if e = param then (None, True) else (appendNil e, False))"

definition applyAtomic :: "atomicOp \<Rightarrow> bytes option \<Rightarrow> bytes \<Rightarrow> bytes option \<times> bool" where
  "applyAtomic op existing param =
     (let (newVal, clear) =
        (case op of
           atomicCompareAndClear \<Rightarrow> doCompareAndClear existing param
         | atomicAdd \<Rightarrow> (doAdd existing param, False)
         | atomicAnd \<Rightarrow> (doAnd existing param, False)
         | atomicOr \<Rightarrow> (doOr existing param, False)
         | atomicXor \<Rightarrow> (doXor existing param, False)
         | atomicMax \<Rightarrow> (doMax existing param, False)
         | atomicMin \<Rightarrow> (doMin existing param, False)
         | atomicByteMax \<Rightarrow> (doByteMax existing param, False)
         | atomicByteMin \<Rightarrow> (doByteMin existing param, False)
         | atomicAppendIfFits \<Rightarrow> (doAppendIfFits existing param, False))
      in if clear then (None, True)
         else (case newVal of None \<Rightarrow> Some [] | Some v \<Rightarrow> Some v, False))"

section \<open>Arithmetic of the little-endian operations\<close>

lemma presentBytes_simps [simp]: "presentBytes None = []" "presentBytes (Some e) = e"
  by (simp_all add: presentBytes_def)

lemma le_val_padTo: "le_val (padTo n e) = le_val (take n e)"
proof -
  have "le_val (replicate m 0) = 0" for m by (induction m) simp_all
  then show ?thesis by (simp add: padTo_def le_val_append)
qed

lemma length_padTo [simp]: "length (padTo n e) = n"
  by (simp add: padTo_def min_def)

lemma le_val_take_mod: "le_val (take n e) = le_val e mod 256 ^ n"
proof (cases "n \<le> length e")
  case True
  have "le_val (take n e @ drop n e) = le_val (take n e) + 256 ^ n * le_val (drop n e)"
    unfolding le_val_append using True by simp
  then have "le_val e = le_val (take n e) + 256 ^ n * le_val (drop n e)" by simp
  then have "le_val e mod 256 ^ n = le_val (take n e) mod 256 ^ n" by (simp only: mod_mult_self2)
  also have "\<dots> = le_val (take n e)" using le_val_lt [of "take n e"] True by simp
  finally show ?thesis by simp
next
  case False
  have "le_val e < 256 ^ length e" by (rule le_val_lt)
  also have "\<dots> \<le> 256 ^ n" using False by (intro power_increasing) auto
  finally show ?thesis using False by simp
qed

text \<open>Addition with carry: what is lost is the carry out of the operand's width.\<close>

lemma unat_ucast_byte [simp]: "unat (ucast (x :: byte) :: 16 word) = unat x"
  using unat_byte_lt [of x] by (simp add: unsigned_ucast_eq take_bit_nat_eq_self del: unat_byte_lt)

lemma addLoop_step:
  fixes x p :: byte and carry :: "16 word"
  assumes "unat carry \<le> 1"
  defines "s \<equiv> carry + ucast x + ucast p"
  shows "unat (ucast s :: byte) = (unat carry + unat x + unat p) mod 256"
    and "unat (drop_bit 8 s) = (unat carry + unat x + unat p) div 256"
    and "unat (drop_bit 8 s) \<le> 1"
proof -
  have lt: "unat x < 256" "unat p < 256" by simp_all
  then have "unat carry + unat x < 65536" "unat carry + unat x + unat p < 65536"
    using assms(1) by linarith+
  then have s: "unat s = unat carry + unat x + unat p" by (simp add: s_def unat_word_ariths)
  show "unat (ucast s :: byte) = (unat carry + unat x + unat p) mod 256"
    by (simp add: unsigned_ucast_eq take_bit_eq_mod s)
  show d: "unat (drop_bit 8 s) = (unat carry + unat x + unat p) div 256"
    by (simp add: drop_bit_eq_div unat_div s)
  show "unat (drop_bit 8 s) \<le> 1" unfolding d using lt assms(1) by linarith
qed

lemma carry_mod: "t mod 256 + 256 * ((x + t div 256) mod k) = (t + 256 * x) mod (256 * k)" for t x k :: nat
proof -
  have "(t + 256 * x) mod (256 * k) = 256 * ((t + 256 * x) div 256 mod k) + (t + 256 * x) mod 256"
    by (rule mod_mult2_eq)
  then show ?thesis by (simp add: add.commute)
qed

lemma addLoop_val:
  assumes "unat carry \<le> 1"
  shows "le_val (addLoop e param carry) =
    (le_val (take (length param) e) + le_val param + unat carry) mod 256 ^ length param"
  using assms
proof (induction param arbitrary: e carry)
  case (Cons p param)
  let ?x = "case e of [] \<Rightarrow> 0 | x # _ \<Rightarrow> x" and ?K = "256 ^ length param :: nat"
  let ?s = "carry + ucast ?x + ucast p"
  let ?t = "unat carry + unat ?x + unat p" and ?X = "le_val (take (length param) (tl e)) + le_val param"
  note step = addLoop_step [OF Cons.prems, of ?x p]
  have "addLoop e (p # param) carry = ucast ?s # addLoop (tl e) param (drop_bit 8 ?s)"
    by (cases e) (simp_all add: Let_def)
  then have "le_val (addLoop e (p # param) carry) = ?t mod 256 + 256 * ((?X + ?t div 256) mod ?K)"
    using Cons.IH [OF step(3)] by (simp only: le_val.simps step)
  also have "\<dots> = (?t + 256 * ?X) mod (256 * ?K)"
    by (rule carry_mod)
  also have "?t + 256 * ?X = le_val (take (length (p # param)) e) + le_val (p # param) + unat carry"
    by (cases e) simp_all
  finally show ?case by simp
qed simp

lemma length_addLoop [simp]: "length (addLoop e param carry) = length param"
  by (induction e param carry rule: addLoop.induct) (simp_all add: Let_def)

text \<open>The highest differing byte decides the comparison.\<close>

lemma compareDown_val:
  "n \<le> length param \<Longrightarrow> n \<le> length e \<Longrightarrow>
     compareDown param e n = cmp_compare (le_val (take n param)) (le_val (take n e))"
proof (induction n)
  case (Suc i)
  let ?p = "le_val (take i param)" and ?e = "le_val (take i e)"
  have v: "le_val (take (Suc i) param) = ?p + 256 ^ i * unat (param ! i)"
    "le_val (take (Suc i) e) = ?e + 256 ^ i * unat (e ! i)"
    using Suc.prems by (simp_all add: take_Suc_conv_app_nth le_val_append)
  have lt: "?p < 256 ^ i" "?e < 256 ^ i"
    using le_val_lt [of "take i param"] le_val_lt [of "take i e"] Suc.prems by simp_all
  have lexi: "a + 256 ^ i * m < b + 256 ^ i * n" if "m < n" "a < 256 ^ i" for a b m n :: nat
  proof -
    have "a + 256 ^ i * m < 256 ^ i * Suc m" using that by simp
    also have "\<dots> \<le> 256 ^ i * n" using that by (intro mult_le_mono2) simp
    finally show ?thesis by simp
  qed
  show ?case
  proof (cases "param ! i" "e ! i" rule: linorder_cases)
    case less
    then show ?thesis using lexi [of "unat (param ! i)" "unat (e ! i)" ?p ?e] lt(1) unfolding v by (simp add: cmp_compare_def word_less_nat_alt)
  next
    case equal
    then show ?thesis using Suc unfolding v by (simp add: cmp_compare_def)
  next
    case greater
    have "?e + 256 ^ i * unat (e ! i) < ?p + 256 ^ i * unat (param ! i)"
      using greater lt(2) by (intro lexi) (simp_all add: word_less_nat_alt)
    with greater show ?thesis unfolding v by (auto simp: cmp_compare_def)
  qed
qed simp


lemma highNonzero_val:
  assumes "length e \<le> length param"
  shows "highNonzero param e \<longleftrightarrow> le_val e < le_val param \<and> 256 ^ length e \<le> le_val param"
proof -
  have z: "le_val b = 0 \<longleftrightarrow> \<not> list_ex (\<lambda>x. x \<noteq> 0) b" for b
    by (induction b) (auto simp: unat_eq_zero)
  let ?d = "drop (length e) param" and ?t = "take (length e) param"
  have v: "le_val param = le_val ?t + 256 ^ length e * le_val ?d"
    using assms le_val_append [of ?t ?d] by simp
  have lt: "le_val ?t < 256 ^ length e" "le_val e < 256 ^ length e"
    using assms le_val_lt [of ?t] le_val_lt [of e] by simp_all
  show ?thesis
  proof (cases "le_val ?d = 0")
    case True
    then show ?thesis using v lt z [of ?d] by (simp add: highNonzero_def)
  next
    case False
    then have "256 ^ length e * 1 \<le> 256 ^ length e * le_val ?d" by (intro mult_le_mono2) simp
    then have "256 ^ length e \<le> le_val param" unfolding v by linarith
    with lt show ?thesis using False z [of ?d] by (simp add: highNonzero_def)
  qed
qed

text \<open>Both loops together compare the operand with the existing value cut to the operand's width.\<close>

lemma highNonzero_drop: "length param \<le> length e \<Longrightarrow> \<not> highNonzero param e"
  by (simp add: highNonzero_def)

lemma compare_widths:
  shows "highNonzero param e \<Longrightarrow> le_val (take (length param) e) < le_val param"
    and "\<not> highNonzero param e \<Longrightarrow>
      compareDown param e (min (length param) (length e)) = cmp_compare (le_val param) (le_val (take (length param) e))"
proof -
  let ?n = "min (length param) (length e)"
  show "highNonzero param e \<Longrightarrow> le_val (take (length param) e) < le_val param"
    using highNonzero_val [of e param] highNonzero_drop [of param e]
    by (cases "length e \<le> length param") auto
  assume h: "\<not> highNonzero param e"
  have "le_val (take ?n param) = le_val param"
  proof (cases "length e \<le> length param")
    case True
    have "le_val (drop (length e) param) = 0"
    proof -
      have "list_all (\<lambda>x. x = 0) b \<Longrightarrow> le_val b = 0" for b by (induction b) simp_all
      then show ?thesis using h by (simp add: highNonzero_def list_ex_iff list_all_iff)
    qed
    then show ?thesis using True le_val_append [of "take (length e) param" "drop (length e) param"]
      by (simp add: min_absorb2)
  qed (simp add: min_def)
  moreover have "le_val (take ?n e) = le_val (take (length param) e)" by (simp add: min_def)
  ultimately show "compareDown param e ?n = cmp_compare (le_val param) (le_val (take (length param) e))"
    by (simp add: compareDown_val)
qed

section \<open>Properties\<close>

text \<open>
  (C32) The arithmetic operations are arithmetic on little-endian numbers at the width of the operand:
  ADD adds modulo 256 to that width, MAX and MIN take the larger and the smaller of the operand and the
  existing value cut to the width.  An absent key counts as zero for ADD and MAX; for MIN it stores the
  operand.
\<close>

theorem applyAtomic_arithmetic:
  "\<exists>add max min. applyAtomic atomicAdd existing param = (Some add, False) \<and> length add = length param \<and>
     le_val add = (le_val (presentBytes existing) + le_val param) mod 256 ^ length param \<and>
   applyAtomic atomicMax existing param = (Some max, False) \<and> length max = length param \<and>
     le_val max = Orderings.max (le_val (presentBytes existing) mod 256 ^ length param) (le_val param) \<and>
   applyAtomic atomicMin existing param = (Some min, False) \<and> length min = length param \<and>
     le_val min = (if existing = None then le_val param
       else Orderings.min (le_val (presentBytes existing) mod 256 ^ length param) (le_val param))"
proof (intro exI conjI)
  let ?e = "presentBytes existing"
  let ?max = "case doMax existing param of None \<Rightarrow> [] | Some v \<Rightarrow> v"
    and ?min = "case doMin existing param of None \<Rightarrow> [] | Some v \<Rightarrow> v"
  show "applyAtomic atomicAdd existing param = (Some (addLoop ?e param 0), False)"
    by (simp add: applyAtomic_def doAdd_def)
  show "length (addLoop ?e param 0) = length param" by simp
  show "le_val (addLoop ?e param 0) = (le_val ?e + le_val param) mod 256 ^ length param"
    by (simp add: addLoop_val le_val_take_mod mod_add_left_eq)
  show "applyAtomic atomicMax existing param = (Some ?max, False)"
    "applyAtomic atomicMin existing param = (Some ?min, False)"
    by (simp_all add: applyAtomic_def split: option.splits)
  note cw = compare_widths [of param ?e]
  show "length ?max = length param" by (simp add: doMax_def Let_def appendNil_def)
  show "le_val ?max = Orderings.max (le_val ?e mod 256 ^ length param) (le_val param)"
    using cw by (cases "highNonzero param ?e")
      (auto simp: doMax_def Let_def appendNil_def le_val_padTo cmp_compare_def le_val_take_mod split: if_splits)
  show "length ?min = length param"
    by (cases existing) (simp_all add: doMin_def doMinPresent_def appendNil_def)
  show "le_val ?min = (if existing = None then le_val param
       else Orderings.min (le_val ?e mod 256 ^ length param) (le_val param))"
    using cw by (cases existing; cases "highNonzero param ?e")
      (auto simp: doMin_def doMinPresent_def appendNil_def le_val_padTo cmp_compare_def le_val_take_mod
        split: if_splits)
qed

text \<open>
  The bitwise operations work byte by byte at the width of the operand; where the existing value
  is too short its bytes count as zero.  AND on an absent key stores the operand.
\<close>

lemma applyAtomic_bitwise:
  "\<exists>a o' x. applyAtomic atomicAnd existing param = (Some a, False) \<and> length a = length param \<and>
     applyAtomic atomicOr existing param = (Some o', False) \<and> length o' = length param \<and>
     applyAtomic atomicXor existing param = (Some x, False) \<and> length x = length param \<and>
     (\<forall>i. i < length param \<longrightarrow>
       (let b = (if i < length (presentBytes existing) then presentBytes existing ! i else 0)
        in a ! i = (if existing = None then param ! i else b AND param ! i) \<and>
           o' ! i = b OR param ! i \<and> x ! i = b XOR param ! i))"
proof -
  let ?e = "presentBytes existing"
  let ?a = "case doAnd existing param of None \<Rightarrow> [] | Some v \<Rightarrow> v"
    and ?o = "case doOr existing param of None \<Rightarrow> [] | Some v \<Rightarrow> v"
    and ?x = "case doXor existing param of None \<Rightarrow> [] | Some v \<Rightarrow> v"
  have "applyAtomic atomicAnd existing param = (Some ?a, False)"
    "applyAtomic atomicOr existing param = (Some ?o, False)"
    "applyAtomic atomicXor existing param = (Some ?x, False)"
    by (simp_all add: applyAtomic_def split: option.splits)
  moreover have "length ?a = length param" "length ?o = length param" "length ?x = length param"
    by (cases existing; simp add: doAnd_def doOr_def doXor_def appendNil_def Let_def min_def)+
  moreover have "?a ! i = (if existing = None then param ! i
        else (if i < length ?e then ?e ! i else 0) AND param ! i)"
    "?o ! i = (if i < length ?e then ?e ! i else 0) OR param ! i"
    "?x ! i = (if i < length ?e then ?e ! i else 0) XOR param ! i" if "i < length param" for i
    using that
    by (cases existing; auto simp: doAnd_def doOr_def doXor_def appendNil_def Let_def nth_append min_def)+
  ultimately show ?thesis unfolding Let_def by blast
qed

lemma applyAtomic_bitwise_example:
  "applyAtomic atomicAnd (Some [0x0F]) [0xFC, 0xFF] = (Some [0x0C, 0], False) \<and>
   applyAtomic atomicXor (Some [0x0F]) [0xFC, 0xFF] = (Some [0xF3, 0xFF], False)"
proof -
  have "applyAtomic atomicAnd (Some [0x0F]) [0xFC, 0xFF] = (Some [0x0C, 0], False)"
    "applyAtomic atomicXor (Some [0x0F]) [0xFC, 0xFF] = (Some [0xF3, 0xFF], False)" by code_simp+
  with applyAtomic_bitwise [of "Some [0x0F]" "[0xFC, 0xFF]"] show ?thesis by simp
qed

text \<open>
  Only COMPARE\_AND\_CLEAR deletes a key, and exactly when the key is absent or holds the operand;
  every other operation leaves a present value, and so does COMPARE\_AND\_CLEAR on a different value,
  which it keeps.  BYTE\_MAX and BYTE\_MIN store the larger and the smaller byte string, APPEND\_IF\_FITS
  the concatenation if it is within the value size limit and the old value otherwise.
\<close>

lemma applyAtomic_presence:
  "(snd (applyAtomic op existing param) \<longleftrightarrow>
      op = atomicCompareAndClear \<and> (existing = None \<or> existing = Some param)) \<and>
   (fst (applyAtomic op existing param) = None \<longleftrightarrow> snd (applyAtomic op existing param)) \<and>
   (case existing of
      None \<Rightarrow>
        op = atomicCompareAndClear \<or> applyAtomic op existing param = (Some param, False)
    | Some e \<Rightarrow>
        applyAtomic atomicByteMax existing param = (Some (max e param), False) \<and>
        applyAtomic atomicByteMin existing param = (Some (min e param), False) \<and>
        applyAtomic atomicAppendIfFits existing param =
          (Some (if length e + length param \<le> atomicValueSizeLimit \<or> e = [] then e @ param else e), False) \<and>
        applyAtomic atomicCompareAndClear existing param =
          (if e = param then (None, True) else (Some e, False)))"
proof -
  have "addLoop [] p 0 = p" for p
  proof -
    have "le_val (addLoop [] p 0) = le_val p" using le_val_lt [of p] by (simp add: addLoop_val)
    then show ?thesis using le_bytes_le_val [of "addLoop [] p 0"] le_bytes_le_val [of p] by simp
  qed
  moreover have "a \<noteq> [] \<Longrightarrow> [] < a" for a :: bytes by (cases a) simp_all
  ultimately show ?thesis
    by (cases existing; cases op)
      (auto simp: applyAtomic_def doAdd_def doAnd_def doOr_def doXor_def doMax_def doMin_def doMinPresent_def
        doByteMax_def doByteMin_def doAppendIfFits_def doCompareAndClear_def appendNil_def Let_def
        max_def min_def split: if_splits)
qed

end
