(* ===== verification/SimWriteMap.thy ===== *)
theory SimWriteMap
  imports KeyRanges SimAtomic "HOL-Library.AList"
begin

text \<open>
  The write map of a simulated transaction (\<^verbatim>\<open>pkg/simfdb/ryw_conflict.go\<close>): its buffered mutations replayed
  into the keys that carry an operation and the ranges that are cleared, from which the reads decide
  whether they depend on the database.  A Go map is an association list; the order of iteration over it
  is not specified and nothing proved here depends on it.
\<close>

section \<open>Definitions\<close>

datatype mutationKind =
  mutSet | mutClear | mutClearRange | mutAtomic | mutVersionstampedKey | mutVersionstampedValue

text \<open>A nil value is \<open>None\<close>.\<close>

record mutation =
  mkind :: mutationKind
  mkey :: bytes
  mend :: bytes
  mvalue :: "bytes option"
  mop :: atomicOp
  mnoWriteConflict :: bool

record writeEntry =
  dependent :: bool

record writeMap =
  wmOps :: "(bytes \<times> writeEntry) list"
  wmCleared :: "keyRange list"

definition addCleared :: "writeMap \<Rightarrow> bytes \<Rightarrow> bytes \<Rightarrow> writeMap" where
  "addCleared wm begin end = wm\<lparr>wmCleared := addClearedRange (wmCleared wm) begin end\<rparr>"

definition isCleared :: "writeMap \<Rightarrow> bytes \<Rightarrow> bool" where
  "isCleared wm key = clearedAt (wmCleared wm) key"

text \<open>One turn of the loop of \<^verbatim>\<open>buildWriteMap\<close>.\<close>

definition writeMapStep :: "writeMap \<Rightarrow> mutation \<Rightarrow> writeMap" where
  "writeMapStep wm m =
     (case mkind m of
        mutSet \<Rightarrow> wm\<lparr>wmOps := AList.update (mkey m) \<lparr>dependent = False\<rparr> (wmOps wm)\<rparr>
      | mutVersionstampedKey \<Rightarrow> wm\<lparr>wmOps := AList.update (mkey m) \<lparr>dependent = False\<rparr> (wmOps wm)\<rparr>
      | mutVersionstampedValue \<Rightarrow> wm\<lparr>wmOps := AList.update (mkey m) \<lparr>dependent = False\<rparr> (wmOps wm)\<rparr>
      | mutClear \<Rightarrow>
          addCleared (wm\<lparr>wmOps := AList.delete (mkey m) (wmOps wm)\<rparr>) (mkey m) (keyAfter (mkey m))
      | mutClearRange \<Rightarrow>
          addCleared (wm\<lparr>wmOps := filter (\<lambda>(k, _). \<not> (k \<ge> mkey m \<and> k < mend m)) (wmOps wm)\<rparr>) (mkey m) (mend m)
      | mutAtomic \<Rightarrow>
          (if map_of (wmOps wm) (mkey m) \<noteq> None then wm
           else wm\<lparr>wmOps := AList.update (mkey m) \<lparr>dependent = \<not> isCleared wm (mkey m)\<rparr> (wmOps wm)\<rparr>))"

definition buildWriteMap :: "mutation list \<Rightarrow> writeMap" where
  "buildWriteMap buffer = foldl writeMapStep \<lparr>wmOps = [], wmCleared = []\<rparr> buffer"

definition conflictForKey :: "writeMap \<Rightarrow> bytes \<Rightarrow> bool" where
  "conflictForKey wm key =
     (case map_of (wmOps wm) key of
        Some e \<Rightarrow> dependent e
      | None \<Rightarrow> if isCleared wm key then False else True)"

text \<open>The bounds at which \<^verbatim>\<open>conflictRanges\<close> cuts its window.\<close>

definition addBound :: "bytes \<Rightarrow> bytes \<Rightarrow> bytes \<Rightarrow> bytes list" where
  "addBound begin end b = (if b > begin \<and> b < end then [b] else [])"

definition opBounds :: "bytes \<Rightarrow> bytes \<Rightarrow> (bytes \<times> writeEntry) list \<Rightarrow> bytes list" where
  "opBounds begin end ops =
     concat (map (\<lambda>(k, _). if k < begin \<or> k \<ge> end then []
                           else addBound begin end k @ addBound begin end (keyAfter k)) ops)"

fun clearedBounds :: "bytes \<Rightarrow> bytes \<Rightarrow> keyRange list \<Rightarrow> bytes list" where
  "clearedBounds begin end [] = []"
| "clearedBounds begin end (r # rs) =
     (if rbegin r \<ge> end then []
      else if rend r \<le> begin then clearedBounds begin end rs
      else addBound begin end (rbegin r) @ addBound begin end (rend r) @ clearedBounds begin end rs)"

text \<open>The class of a segment, and the loop that collects the segments that conflict.\<close>

definition segmentConflict :: "writeMap \<Rightarrow> bytes \<Rightarrow> bytes \<Rightarrow> bool" where
  "segmentConflict wm lo hi =
     (case map_of (wmOps wm) lo of
        Some e \<Rightarrow> if hi = keyAfter lo then dependent e else if isCleared wm lo then False else True
      | None \<Rightarrow> if isCleared wm lo then False else True)"

fun conflictLoop :: "writeMap \<Rightarrow> bytes list \<Rightarrow> keyRange list \<Rightarrow> keyRange list" where
  "conflictLoop wm (lo # hi # bounds) out =
     (if lo = hi then conflictLoop wm (hi # bounds) out
      else if \<not> segmentConflict wm lo hi then conflictLoop wm (hi # bounds) out
      else if length out > 0 \<and> rend (last out) = lo
      then conflictLoop wm (hi # bounds) (butlast out @ [(last out)\<lparr>rend := hi\<rparr>])
      else conflictLoop wm (hi # bounds) (out @ [\<lparr>rbegin = lo, rend = hi\<rparr>]))"
| "conflictLoop wm bounds out = out"

definition conflictRanges :: "writeMap \<Rightarrow> bytes \<Rightarrow> bytes \<Rightarrow> keyRange list" where
  "conflictRanges wm begin end =
     (if begin \<ge> end then []
      else conflictLoop wm
             (sort ([begin, end] @ opBounds begin end (wmOps wm) @ clearedBounds begin end (wmCleared wm))) [])"

text \<open>The replay of \<^verbatim>\<open>conflictForKeyDirect\<close> keeps the three flags \<open>hasOp\<close>, \<open>dependent\<close> and \<open>cleared\<close>.\<close>

definition directStep :: "bytes \<Rightarrow> bool \<times> bool \<times> bool \<Rightarrow> mutation \<Rightarrow> bool \<times> bool \<times> bool" where
  "directStep key st m =
     (case st of (hasOp, dep, cleared) \<Rightarrow>
       case mkind m of
         mutSet \<Rightarrow> if mkey m = key then (True, False, cleared) else st
       | mutVersionstampedKey \<Rightarrow> if mkey m = key then (True, False, cleared) else st
       | mutVersionstampedValue \<Rightarrow> if mkey m = key then (True, False, cleared) else st
       | mutClear \<Rightarrow> if mkey m = key then (False, False, True) else st
       | mutClearRange \<Rightarrow> if key \<ge> mkey m \<and> key < mend m then (False, False, True) else st
       | mutAtomic \<Rightarrow> if mkey m = key \<and> \<not> hasOp then (True, \<not> cleared, cleared) else st)"

definition conflictForKeyDirect :: "mutation list \<Rightarrow> bytes \<Rightarrow> bool" where
  "conflictForKeyDirect buffer key =
     (case foldl (directStep key) (False, False, False) buffer of
        (hasOp, dep, cleared) \<Rightarrow> if hasOp then dep else \<not> cleared)"


section \<open>The single key decision\<close>

lemma map_of_filter_fst: "map_of (filter (\<lambda>(k, _). P k) al) k = (if P k then map_of al k else None)"
  by (induction al) auto

lemma less_keyAfter_same: "k \<le> k' \<and> k' < keyAfter k \<longleftrightarrow> k' = k"
  by (auto simp: less_keyAfter_iff)

lemma buildWriteMap_snoc: "buildWriteMap (ms @ [m]) = writeMapStep (buildWriteMap ms) m"
  by (simp add: buildWriteMap_def)

lemma addCleared_sel [simp]:
  "wmOps (addCleared wm b e) = wmOps wm"
  "wmCleared (addCleared wm b e) = addClearedRange (wmCleared wm) b e"
  by (simp_all add: addCleared_def)

lemma separated_writeMapStep: "separated (wmCleared wm) \<Longrightarrow> separated (wmCleared (writeMapStep wm m))"
  by (auto simp: writeMapStep_def addClearedRange_spec split: mutationKind.splits)

lemma separated_buildWriteMap: "separated (wmCleared (buildWriteMap ms))"
  by (induction ms rule: rev_induct) (simp_all add: buildWriteMap_snoc separated_writeMapStep buildWriteMap_def)

lemma isCleared_buildWriteMap: "isCleared (buildWriteMap ms) k \<longleftrightarrow> covered (wmCleared (buildWriteMap ms)) k"
  by (simp add: isCleared_def clearedAt_covered separated_buildWriteMap)

text \<open>The three flags are what the write map knows of the key.\<close>

lemma directStep_writeMap:
  "foldl (directStep k) (False, False, False) ms =
     (let wm = buildWriteMap ms
      in (map_of (wmOps wm) k \<noteq> None, (\<exists>e. map_of (wmOps wm) k = Some e \<and> dependent e), isCleared wm k))"
proof (induction ms rule: rev_induct)
  case Nil
  then show ?case by (simp add: buildWriteMap_def isCleared_def clearedSet.member_empty)
next
  case (snoc m ms)
  let ?wm = "buildWriteMap ms"
  have cl: "isCleared (writeMapStep ?wm m) k \<longleftrightarrow>
      isCleared ?wm k \<or> mkind m = mutClear \<and> mkey m = k \<or> mkind m = mutClearRange \<and> mkey m \<le> k \<and> k < mend m"
    using separated_buildWriteMap [of ms]
    by (cases "mkind m") (auto simp: isCleared_def writeMapStep_def clearedSet.member_add less_keyAfter_same)
  show ?case
    using cl unfolding foldl_append foldl_Cons foldl_Nil snoc Let_def buildWriteMap_snoc
    by (cases "mkind m")
      (auto simp: directStep_def writeMapStep_def update_conv' delete_conv' map_of_filter_fst split: if_splits)
qed

lemma conflictForKeyDirect_eq: "conflictForKeyDirect ms k = conflictForKey (buildWriteMap ms) k"
  unfolding conflictForKeyDirect_def directStep_writeMap Let_def conflictForKey_def
  by (auto split: option.splits)

section \<open>The range decision\<close>

text \<open>Between two neighbouring cuts all keys are of the same class.\<close>

definition cuts :: "writeMap \<Rightarrow> bytes set" where
  "cuts wm = {x. \<exists>k. map_of (wmOps wm) k \<noteq> None \<and> (x = k \<or> x = keyAfter k)} \<union>
     rbegin ` set (wmCleared wm) \<union> rend ` set (wmCleared wm)"

lemma segmentConflict_key:
  assumes sep: "separated (wmCleared wm)" and k: "lo \<le> k" "k < hi"
    and no: "\<And>x. x \<in> cuts wm \<Longrightarrow> \<not> (lo < x \<and> x < hi)"
  shows "segmentConflict wm lo hi \<longleftrightarrow> conflictForKey wm k"
proof (cases "map_of (wmOps wm) lo")
  case (Some e)
  then have "keyAfter lo \<in> cuts wm" by (auto simp: cuts_def)
  moreover have "lo < hi" using k by (rule le_less_trans)
  then have "keyAfter lo \<le> hi" by (simp add: keyAfter_le_iff)
  ultimately have "hi = keyAfter lo" using no [of "keyAfter lo"] by (auto simp: le_less)
  moreover from this have "k = lo" using k less_keyAfter_same [of lo k] by simp
  ultimately show ?thesis using Some by (simp add: segmentConflict_def conflictForKey_def)
next
  case None
  have "map_of (wmOps wm) k = None"
  proof (rule ccontr)
    assume a: "map_of (wmOps wm) k \<noteq> None"
    then have "k \<in> cuts wm" by (auto simp: cuts_def)
    moreover have "k \<noteq> lo" using None a by auto
    ultimately show False using no [of k] k by auto
  qed
  moreover have "within r lo \<longleftrightarrow> within r k" if "r \<in> set (wmCleared wm)" for r
  proof -
    have "rbegin r \<in> cuts wm" "rend r \<in> cuts wm" using that by (auto simp: cuts_def)
    then have "\<not> (lo < rbegin r \<and> rbegin r < hi)" "\<not> (lo < rend r \<and> rend r < hi)" using no by auto
    then show ?thesis using k unfolding within_def
      by (meson leI le_less_trans less_le_trans order_trans)
  qed
  then have "isCleared wm lo \<longleftrightarrow> isCleared wm k"
    using sep by (simp add: isCleared_def clearedAt_covered covered_def)
  ultimately show ?thesis using None by (simp add: segmentConflict_def conflictForKey_def)
qed


text \<open>The loop extends what it has by the conflicting keys of the window its bounds span.\<close>

lemma separated_extend:
  assumes "separated (out @ [r])" "rend r < hi"
  shows "separated (out @ [r\<lparr>rend := hi\<rparr>])"
    and "covered (out @ [r\<lparr>rend := hi\<rparr>]) k \<longleftrightarrow> covered (out @ [r]) k \<or> rend r \<le> k \<and> k < hi"
  using assms by (auto simp: within_def not_less dest: less_trans le_less_trans)

lemma separated_snoc:
  assumes "separated out" and "\<And>r. r \<in> set out \<Longrightarrow> rend r \<le> lo"
    and "\<not> (length out > 0 \<and> rend (last out) = lo)" and "lo < hi"
  shows "separated (out @ [\<lparr>rbegin = lo, rend = hi\<rparr>])"
proof (cases out rule: rev_cases)
  case (snoc out' r')
  then have "rend r' < lo" using assms(2) [of r'] assms(3) by auto
  moreover have "r = r' \<or> rend r < rbegin r' \<and> rbegin r' < rend r'" if "r \<in> set out" for r
    using that snoc assms(1) by auto
  ultimately have "rend r < lo" if "r \<in> set out" for r using that by (auto intro: less_trans)
  then show ?thesis using assms(1,4) by simp
qed (use assms(4) in simp)

lemma segment_class:
  assumes "separated (wmCleared wm)" and "sorted (lo # hi # bs)"
    and cut: "\<And>x. x \<in> cuts wm \<Longrightarrow> lo < x \<Longrightarrow> x < hi \<Longrightarrow> x \<in> set (lo # hi # bs)"
    and k: "lo \<le> k" "k < hi"
  shows "segmentConflict wm lo hi \<longleftrightarrow> conflictForKey wm k"
proof (rule segmentConflict_key [OF assms(1) k])
  fix x assume x: "x \<in> cuts wm"
  show "\<not> (lo < x \<and> x < hi)"
  proof
    assume "lo < x \<and> x < hi"
    moreover from this have "x \<in> set (lo # hi # bs)" using cut [OF x] by simp
    ultimately show False using assms(2) by auto
  qed
qed

lemma conflictLoop_spec:
  assumes "separated (wmCleared wm)" and "sorted bs" and "bs \<noteq> []"
    and "\<And>x. x \<in> cuts wm \<Longrightarrow> hd bs < x \<Longrightarrow> x < last bs \<Longrightarrow> x \<in> set bs"
    and "separated out" and "\<And>r. r \<in> set out \<Longrightarrow> rend r \<le> hd bs"
  shows "separated (conflictLoop wm bs out) \<and>
    (covered (conflictLoop wm bs out) k \<longleftrightarrow>
       covered out k \<or> hd bs \<le> k \<and> k < last bs \<and> conflictForKey wm k)"
  using assms
proof (induction bs arbitrary: out rule: induct_list012)
  case (3 lo hi bs)
  have le: "lo \<le> hi" "hi \<le> last (hi # bs)" using "3.prems"(2) by (auto simp: last_ConsR)
  have cut: "x \<in> set (hi # bs)" if "x \<in> cuts wm" "hd (hi # bs) < x" "x < last (hi # bs)" for x
    using "3.prems"(4) [OF that(1)] that le by (auto dest: le_less_trans)
  have IH: "separated (conflictLoop wm (hi # bs) out) \<and>
    (covered (conflictLoop wm (hi # bs) out) k \<longleftrightarrow>
       covered out k \<or> hi \<le> k \<and> k < last (hi # bs) \<and> conflictForKey wm k)"
    if "separated out" "\<And>r. r \<in> set out \<Longrightarrow> rend r \<le> hi" for out
  proof -
    have "sorted (hi # bs)" "hi # bs \<noteq> []" using "3.prems"(2) by auto
    then show ?thesis using "3.IH"(2) [OF "3.prems"(1) _ _ cut that(1)] that(2) by simp
  qed
  have out_hi: "rend r \<le> hi" if "r \<in> set out" for r
    using "3.prems"(6) [OF that] le(1) by simp
  have seg: "segmentConflict wm lo hi \<longleftrightarrow> conflictForKey wm k" if "lo \<le> k" "k < hi" for k
    using segment_class [OF "3.prems"(1,2) _ that] "3.prems"(4) le by auto
  have split: "lo \<le> k \<and> k < last (hi # bs) \<longleftrightarrow> lo \<le> k \<and> k < hi \<or> hi \<le> k \<and> k < last (hi # bs)"
    using le by (meson leI less_le_trans order_trans)
  show ?case
  proof (cases "lo = hi \<or> \<not> segmentConflict wm lo hi")
    case True
    have "\<not> (lo \<le> k \<and> k < hi \<and> conflictForKey wm k)" using True seg by auto
    moreover have "conflictLoop wm (lo # hi # bs) out = conflictLoop wm (hi # bs) out" using True by auto
    ultimately show ?thesis using IH [OF "3.prems"(5) out_hi] split by auto
  next
    case yes: False
    then have lt: "lo < hi" using le(1) by (auto simp: le_less)
    show ?thesis
    proof (cases "length out > 0 \<and> rend (last out) = lo")
      case True
      then obtain out' r where out: "out = out' @ [r]" "rend r = lo" by (cases out rule: rev_cases) auto
      let ?out = "out' @ [r\<lparr>rend := hi\<rparr>]"
      have e: "separated ?out" "covered ?out k \<longleftrightarrow> covered out k \<or> lo \<le> k \<and> k < hi"
        using separated_extend [of out' r hi] "3.prems"(5) out lt by simp_all
      have "rend r' \<le> hi" if "r' \<in> set ?out" for r' using that out_hi out by auto
      note IH [OF e(1) this]
      moreover have "conflictLoop wm (lo # hi # bs) out = conflictLoop wm (hi # bs) ?out"
        using yes True out by simp
      ultimately show ?thesis using split seg yes e(2) by auto
    next
      case new: False
      let ?out = "out @ [\<lparr>rbegin = lo, rend = hi\<rparr>]"
      have "separated ?out" using separated_snoc [OF "3.prems"(5) _ new lt] "3.prems"(6) by simp
      moreover have "rend r' \<le> hi" if "r' \<in> set ?out" for r' using that out_hi by auto
      ultimately have "separated (conflictLoop wm (hi # bs) ?out) \<and>
         (covered (conflictLoop wm (hi # bs) ?out) k \<longleftrightarrow>
            covered ?out k \<or> hi \<le> k \<and> k < last (hi # bs) \<and> conflictForKey wm k)" by (rule IH)
      moreover have "conflictLoop wm (lo # hi # bs) out = conflictLoop wm (hi # bs) ?out" using yes new by auto
      ultimately show ?thesis using split seg yes by auto
    qed
  qed
qed auto


text \<open>The bounds hold every cut that falls inside the window.\<close>

lemma opBounds_cuts:
  assumes "map_of ops k \<noteq> None" and "x = k \<or> x = keyAfter k" and "begin < x" and "x < end"
  shows "x \<in> set (opBounds begin end ops)"
proof -
  obtain v where v: "(k, v) \<in> set ops" using assms(1) by (auto dest: map_of_SomeD)
  have "begin \<le> k" using assms(2,3) by (auto simp: less_keyAfter_iff)
  moreover have "k < end" using assms(2,4) by (auto intro: less_trans)
  ultimately have "x \<in> set (if k < begin \<or> k \<ge> end then []
      else addBound begin end k @ addBound begin end (keyAfter k))"
    using assms(2-4) by (auto simp: addBound_def)
  then show ?thesis
    unfolding opBounds_def set_concat set_map by (intro UnionI [OF imageI [OF imageI [OF v]]]) simp
qed

lemma clearedBounds_cuts:
  assumes "separated rs" and "r \<in> set rs" and "x = rbegin r \<or> x = rend r" and "begin < x" and "x < end"
  shows "x \<in> set (clearedBounds begin end rs)"
  using assms(1,2)
proof (induction rs)
  case (Cons r' rs)
  have r: "rbegin r < rend r" using Cons.prems by (rule separated_nonempty)
  have "rbegin r < end" using assms(3,5) r by (auto dest: less_trans)
  moreover have "rbegin r' \<le> rbegin r"
    using Cons.prems by (auto dest!: separated_nonempty [of rs] intro: less_imp_le less_trans)
  ultimately have "\<not> end \<le> rbegin r'" by auto
  moreover have "begin < rend r" using assms(3,4) r by (auto intro: less_trans)
  ultimately show ?case using Cons assms(3-5) by (auto simp: addBound_def)
qed simp

lemma addBound_within: "x \<in> set (addBound begin end b) \<Longrightarrow> begin < x \<and> x < end"
  by (auto simp: addBound_def split: if_splits)

lemma opBounds_within: "x \<in> set (opBounds begin end ops) \<Longrightarrow> begin < x \<and> x < end"
  by (auto simp: opBounds_def split: if_splits dest: addBound_within)

lemma clearedBounds_within: "x \<in> set (clearedBounds begin end rs) \<Longrightarrow> begin < x \<and> x < end"
  by (induction rs) (auto split: if_splits dest: addBound_within)

lemma sort_ends:
  assumes "\<forall>x \<in> set xs. b < x \<and> x < e" and "b < (e :: bytes)"
  shows "hd (sort ([b, e] @ xs)) = b" and "last (sort ([b, e] @ xs)) = e"
proof -
  have "sort ([b, e] @ xs) = b # sort xs @ [e]"
    using assms by (intro properties_for_sort)
      (auto simp: sorted_append less_imp_le)
  then show "hd (sort ([b, e] @ xs)) = b" "last (sort ([b, e] @ xs)) = e" by simp_all
qed

lemma conflictRanges_spec:
  assumes "separated (wmCleared wm)"
  shows "separated (conflictRanges wm b e) \<and>
    (covered (conflictRanges wm b e) k \<longleftrightarrow> b \<le> k \<and> k < e \<and> conflictForKey wm k)"
proof (cases "b < e")
  case True
  let ?xs = "opBounds b e (wmOps wm) @ clearedBounds b e (wmCleared wm)"
  let ?bs = "sort ([b, e] @ ?xs)"
  have ends: "hd ?bs = b" "last ?bs = e"
    using True by (intro sort_ends; auto dest: opBounds_within clearedBounds_within)+
  have "x \<in> set ?xs" if "x \<in> cuts wm" "b < x" "x < e" for x
    using that opBounds_cuts [of "wmOps wm" _ x b e] clearedBounds_cuts [OF assms, of _ x b e]
    unfolding cuts_def by auto
  then have cut: "x \<in> set ?bs" if "x \<in> cuts wm" "hd ?bs < x" "x < last ?bs" for x
    using that unfolding ends set_sort set_append by blast
  have "length ?bs \<noteq> 0" by (simp only: length_sort length_append list.size)
  then have "?bs \<noteq> []" by (simp only: length_0_conv not_False_eq_True)
  from conflictLoop_spec [OF assms sorted_sort this cut separated_simps(1), of k]
  show ?thesis using True unfolding ends conflictRanges_def by simp
next
  case False
  then show ?thesis by (auto simp: conflictRanges_def not_less dest: leD le_less_trans)
qed

section \<open>Properties\<close>

text \<open>
  The single key replay, which looks at nothing but the key, decides exactly as the write map built
  from the whole buffer does.
\<close>

lemma conflictForKeyDirect_equiv: "conflictForKeyDirect buffer key = conflictForKey (buildWriteMap buffer) key"
  by (rule conflictForKeyDirect_eq)

text \<open>
  (C12) For a range read the write map records exactly the keys of the range that conflict one by one:
  no key the transaction resolved from the database is left out, none it answered from its own writes
  is included.  The ranges come out in order, non-empty and with a gap between any two, so that
  each is maximal.
\<close>

theorem conflictRanges_exact:
  "separated (conflictRanges (buildWriteMap buffer) begin end) \<and>
   (covered (conflictRanges (buildWriteMap buffer) begin end) key \<longleftrightarrow>
      begin \<le> key \<and> key < end \<and> conflictForKeyDirect buffer key)"
  using conflictRanges_spec [OF separated_buildWriteMap] by (simp add: conflictForKeyDirect_eq)

end
