(* ===== verification/Keys.thy ===== *)
theory Keys
  imports Prelude
begin

text \<open>
  Keys, key selectors and prefix ranges (\<^verbatim>\<open>pkg/fdbgo/fdb/key.go\<close> and
  \<^verbatim>\<open>pkg/fdbgo/fdb/range.go\<close>).
\<close>

section \<open>Definitions\<close>

subsection \<open>Selectors and ranges\<close>

record KeySelector =
  Key :: bytes
  OrEqual :: bool
  Offset :: int

definition FirstGreaterOrEqual :: "bytes \<Rightarrow> KeySelector" where
  "FirstGreaterOrEqual key = \<lparr>Key = key, OrEqual = False, Offset = 1\<rparr>"

definition FirstGreaterThan :: "bytes \<Rightarrow> KeySelector" where
  "FirstGreaterThan key = \<lparr>Key = key, OrEqual = True, Offset = 1\<rparr>"

definition LastLessOrEqual :: "bytes \<Rightarrow> KeySelector" where
  "LastLessOrEqual key = \<lparr>Key = key, OrEqual = True, Offset = 0\<rparr>"

definition LastLessThan :: "bytes \<Rightarrow> KeySelector" where
  "LastLessThan key = \<lparr>Key = key, OrEqual = False, Offset = 0\<rparr>"

record KeyRange =
  Begin :: bytes
  End :: bytes

definition KeyRangeSelectors :: "KeyRange \<Rightarrow> KeySelector \<times> KeySelector" where
  "KeyRangeSelectors kr = (FirstGreaterOrEqual (Begin kr), FirstGreaterOrEqual (End kr))"

record RangeOptions =
  Limit :: int
  Mode :: int
  Reverse :: bool

subsection \<open>Prefixes\<close>

definition hasPrefix :: "bytes \<Rightarrow> bytes \<Rightarrow> bool" where
  "hasPrefix k p \<longleftrightarrow> take (length p) k = p"

text \<open>The loop of \<^verbatim>\<open>Strinc\<close> at index \<open>i\<close> is called with \<open>Suc i\<close>.\<close>

fun strincLoop :: "bytes \<Rightarrow> nat \<Rightarrow> bytes option" where
  "strincLoop prefix 0 = None"
| "strincLoop prefix (Suc i) =
     (if prefix ! i \<noteq> 0xFF
      then (let out = take (i + 1) prefix in Some (out[i := out ! i + 1]))
      else strincLoop prefix i)"

definition Strinc :: "bytes \<Rightarrow> bytes option" where
  "Strinc prefix = strincLoop prefix (length prefix)"

definition PrefixRange :: "bytes \<Rightarrow> KeyRange option" where
  "PrefixRange prefix =
     (case Strinc prefix of
        None \<Rightarrow> None
      | Some end \<Rightarrow> Some \<lparr>Begin = prefix, End = end\<rparr>)"

subsection \<open>Printing\<close>

definition hexDigit :: "byte \<Rightarrow> byte" where
  "hexDigit d = (if d < 10 then 0x30 + d else 0x61 + (d - 10))"

fun Printable :: "bytes \<Rightarrow> bytes" where
  "Printable [] = []"
| "Printable (c # b) =
     (if 32 \<le> c \<and> c < 127 \<and> c \<noteq> 0x5C then [c]
      else if c = 0x5C then [0x5C, 0x5C]
      else [0x5C, 0x78, hexDigit (c div 16), hexDigit (c mod 16)]) @ Printable b"

section \<open>Prefix ranges\<close>

lemma hasPrefix_iff: "hasPrefix k p \<longleftrightarrow> (\<exists>r. k = p @ r)"
  by (auto simp: hasPrefix_def) (metis append_take_drop_id)

lemma hasPrefix_append [simp]: "hasPrefix (p @ r) p"
  by (simp add: hasPrefix_def)

lemma strincLoop_None: "n \<le> length p \<Longrightarrow> strincLoop p n = None \<longleftrightarrow> take n p = replicate n 0xFF"
  by (induction n) (auto simp: take_Suc_conv_app_nth Let_def replicate_append_same [symmetric])

text \<open>The prefix splits at its last byte other than 0xFF, which is incremented.\<close>

lemma strincLoop_Some:
  assumes "n \<le> length p" and "strincLoop p n = Some e"
  shows "\<exists>q c m. take n p = q @ c # replicate m 0xFF \<and> c \<noteq> 0xFF \<and> e = q @ [c + 1]"
  using assms
proof (induction n)
  case (Suc i)
  show ?case
  proof (cases "p ! i = 0xFF")
    case True
    with Suc obtain q c m where "take i p = q @ c # replicate m 0xFF" "c \<noteq> 0xFF" "e = q @ [c + 1]"
      by auto
    with True Suc.prems show ?thesis
      by (intro exI [of _ q] exI [of _ c] exI [of _ "Suc m"])
        (simp add: take_Suc_conv_app_nth replicate_append_same [symmetric] del: replicate_append_same)
  next
    case False
    with Suc.prems show ?thesis
      by (intro exI [of _ "take i p"] exI [of _ "p ! i"] exI [of _ 0])
        (auto simp: take_Suc_conv_app_nth Let_def list_update_append nth_append)
  qed
qed simp

lemma byte_FF: "(0xFF :: byte) = - 1"
  by simp

lemma byte_lt_FF: "(x :: byte) \<noteq> 0xFF \<longleftrightarrow> x < 0xFF"
  unfolding byte_FF by (rule word_order.not_eq_extremum)

lemma replicate_FF_le: "replicate m (0xFF :: byte) \<le> k \<longleftrightarrow> hasPrefix k (replicate m 0xFF)"
proof (induction m arbitrary: k)
  case (Suc m)
  show ?case
  proof (cases k)
    case (Cons y k')
    then show ?thesis using Suc [of k'] byte_lt_FF [of y] by (auto simp: hasPrefix_def)
  qed (simp add: hasPrefix_def)
qed (simp add: hasPrefix_def)

lemma less_succ_byte: "c \<noteq> 0xFF \<Longrightarrow> (y :: byte) < c + 1 \<longleftrightarrow> y \<le> c"
  unfolding byte_lt_FF by (auto simp: word_less_nat_alt word_le_nat_alt unat_word_ariths)

lemma prefix_interval:
  assumes "c \<noteq> 0xFF"
  shows "q @ c # replicate m 0xFF \<le> k \<and> k < q @ [c + 1] \<longleftrightarrow> hasPrefix k (q @ c # replicate m (0xFF :: byte))"
proof (induction q arbitrary: k)
  case Nil
  show ?case
  proof (cases k)
    case (Cons y k')
    then show ?thesis using assms replicate_FF_le [of m k'] less_succ_byte [of c y]
      by (auto simp: hasPrefix_def)
  qed (simp add: hasPrefix_def)
next
  case (Cons x q)
  show ?case
  proof (cases k)
    case (Cons y k')
    then show ?thesis using Cons.IH [of k'] by (auto simp: hasPrefix_def)
  qed (simp add: hasPrefix_def)
qed

lemma Strinc_None: "Strinc p = None \<longleftrightarrow> p = replicate (length p) 0xFF"
  using strincLoop_None [of "length p" p] by (simp add: Strinc_def)

lemma Strinc_Some: "Strinc p = Some e \<Longrightarrow> p \<le> k \<and> k < e \<longleftrightarrow> hasPrefix k p"
  using strincLoop_Some [of "length p" p e] prefix_interval by (auto simp: Strinc_def)

section \<open>Printing loses nothing\<close>

text \<open>The printed form of a byte.\<close>

definition print_byte :: "byte \<Rightarrow> bytes" where
  "print_byte c =
     (if 32 \<le> c \<and> c < 127 \<and> c \<noteq> 0x5C then [c]
      else if c = 0x5C then [0x5C, 0x5C]
      else [0x5C, 0x78, hexDigit (c div 16), hexDigit (c mod 16)])"

lemma Printable_Cons: "Printable (c # b) = print_byte c @ Printable b"
  by (simp add: print_byte_def)

lemma unat_hexDigit: "unat x < 16 \<Longrightarrow> unat (hexDigit x) = (if unat x < 10 then 48 + unat x else 87 + unat x)"
  by (auto simp: hexDigit_def word_less_nat_alt unat_word_ariths unat_sub_if')

lemma hexDigits_inject:
  assumes "hexDigit (c div 16) = hexDigit (d div 16)" and "hexDigit (c mod 16) = hexDigit (d mod 16)"
  shows "c = d"
proof -
  have u: "unat (x div 16) = unat x div 16" "unat (x mod 16) = unat x mod 16" for x :: byte
    by (simp_all add: unat_div unat_mod)
  then have lt: "unat (x div 16) < 16" "unat (x mod 16) < 16" for x :: byte
    using unat_byte_lt [of x] by (simp_all add: less_mult_imp_div_less)
  have inj: "unat x = unat y" if "hexDigit x = hexDigit y" "unat x < 16" "unat y < 16" for x y
    using arg_cong [OF that(1), of unat] that(2,3) by (simp add: unat_hexDigit split: if_splits)
  have "unat (c div 16) = unat (d div 16)" "unat (c mod 16) = unat (d mod 16)"
    using inj assms lt by blast+
  then have "unat c div 16 = unat d div 16" "unat c mod 16 = unat d mod 16" by (simp_all only: u)
  then have "unat c = unat d" by (metis div_mult_mod_eq)
  then show ?thesis by (simp add: word_unat_eq_iff)
qed

lemma print_byte_cases:
  obtains "print_byte c = [c]" "c \<noteq> 0x5C" | "print_byte c = [0x5C, 0x5C]" "c = 0x5C"
  | "print_byte c = [0x5C, 0x78, hexDigit (c div 16), hexDigit (c mod 16)]"
  unfolding print_byte_def by meson

lemma print_byte_inject: "print_byte c @ r = print_byte d @ s \<Longrightarrow> c = d \<and> r = s"
  by (cases c rule: print_byte_cases; cases d rule: print_byte_cases)
    (simp_all add: hexDigits_inject)

lemma print_byte_neq_Nil [simp]: "print_byte c \<noteq> []"
  by (simp add: print_byte_def)

lemma Printable_eq: "Printable a = Printable b \<longleftrightarrow> a = b"
proof (induction a arbitrary: b)
  case Nil
  show ?case by (cases b) (simp_all add: Printable_Cons del: Printable.simps(2))
next
  case IH: (Cons x a)
  show ?case
  proof (cases b)
    case (Cons y b')
    then show ?thesis
      using print_byte_inject [of x "Printable a" y "Printable b'"] IH.IH [of b']
      by (auto simp: Printable_Cons simp del: Printable.simps(2))
  qed (simp add: Printable_Cons del: Printable.simps(2))
qed

section \<open>Properties\<close>

text \<open>
  Prefix ranges.  \<^verbatim>\<open>PrefixRange\<close> fails exactly on prefixes that consist of 0xFF bytes only;
  otherwise a key lies in the half-open range it returns if and only if it starts with the prefix.
\<close>

lemma PrefixRange_exact:
  "(case PrefixRange p of
      None \<Rightarrow> p = replicate (length p) 0xFF
    | Some kr \<Rightarrow> p \<noteq> replicate (length p) 0xFF \<and> (\<forall>k. (Begin kr \<le> k \<and> k < End kr) = hasPrefix k p))"
  using Strinc_None [of p] Strinc_Some [of p] by (auto simp: PrefixRange_def split: option.splits)

text \<open>
  Printing keys loses nothing: two keys with the same printed form are the same key.
\<close>

lemma Printable_injective: "inj Printable"
  by (rule injI) (simp add: Printable_eq)

end
