(* ===== verification/SimTxn.thy ===== *)
theory SimTxn
  imports SimStore SimWriteMap Keys
begin

text \<open>
  The simulated transaction (\<^verbatim>\<open>pkg/simfdb/txn.go\<close>): its state, its reads over the write buffer, the keys a
  pending versionstamp makes unreadable, its writes, conflict ranges and life cycle.  The handle points
  to its database; here an operation takes the database as an argument and returns the changed
  transaction with its result.  An error is the code of the \<^verbatim>\<open>fdb.Error\<close>, left of the result.  The mutex
  of the database has no counterpart because an operation is one step, and the two counters that only
  tests read are left out.
\<close>

section \<open>The database and its versions\<close>

record committedWrites =
  cwVersion :: int
  cwRanges :: "keyRange list"

text \<open>The clock of the environment, if one is installed, in nanoseconds since \<^verbatim>\<open>dst.Epoch\<close>.\<close>

record simDB =
  store :: mvccStore
  lastVersion :: int
  envClock :: "int option"
  dbClosed :: bool
  recentWrites :: "committedWrites list"
  pendingInject :: int
  injectQueue :: "int list"
  lastUnknownApplied :: bool

definition newSimDB :: "int option \<Rightarrow> simDB" where
  "newSimDB clock =
     \<lparr>store = \<lparr>entries = []\<rparr>, lastVersion = 0, envClock = clock, dbClosed = False, recentWrites = [],
      pendingInject = 0, injectQueue = [], lastUnknownApplied = False\<rparr>"

definition currentReadVersion :: "simDB \<Rightarrow> int" where
  "currentReadVersion db = lastVersion db"

definition clockVersion :: "simDB \<Rightarrow> int" where
  "clockVersion db =
     (case envClock db of
        None \<Rightarrow> 0
      | Some elapsed \<Rightarrow> if elapsed \<le> 0 then 0 else elapsed div 1000)"

definition latestVersion :: "simDB \<Rightarrow> int" where
  "latestVersion db =
     (let v = currentReadVersion db; c = clockVersion db in if c > v then c else v)"

text \<open>\<^verbatim>\<open>Env.Now\<close>: the simulated clock, or the wall clock of the host, whose reading is not modelled.\<close>

datatype instant = ClockInstant int | WallInstant

definition envNow :: "simDB \<Rightarrow> instant" where
  "envNow db = (case envClock db of None \<Rightarrow> WallInstant | Some t \<Rightarrow> ClockInstant t)"

section \<open>The transaction\<close>

text \<open>The zero \<^verbatim>\<open>time.Time\<close> of an instant that is not set is \<open>None\<close>; the key set \<^verbatim>\<open>unreadable\<close> is a list.\<close>

record simTxn =
  readVersion :: int
  rvSet :: bool
  rvInstant :: "instant option"
  buffer :: "mutation list"
  readConflicts :: "keyRange list"
  writeConflicts :: "keyRange list"
  knownReads :: "keyRange list"
  nextWriteNoConflict :: bool
  rywDisabled :: bool
  writeConflictsDisabled :: bool
  unreadable :: "bytes list"
  unreadableRanges :: "keyRange list"
  bypassUnreadable :: bool
  retryLimit :: int
  hasRetryLimit :: bool
  retryCount :: int
  committed :: bool
  committedVersion :: int
  cancelled :: bool
  txVersionstamp :: "bytes option"

definition newTxn :: simTxn where
  "newTxn =
     \<lparr>readVersion = 0, rvSet = False, rvInstant = None, buffer = [], readConflicts = [], writeConflicts = [],
      knownReads = [], nextWriteNoConflict = False, rywDisabled = False, writeConflictsDisabled = False,
      unreadable = [], unreadableRanges = [], bypassUnreadable = False, retryLimit = 0,
      hasRetryLimit = False, retryCount = 0, committed = False, committedVersion = 0, cancelled = False,
      txVersionstamp = None\<rparr>"

definition ensureReadVersion :: "simDB \<Rightarrow> simTxn \<Rightarrow> simTxn" where
  "ensureReadVersion db tx =
     (if rvSet tx then tx
      else tx\<lparr>readVersion := latestVersion db, rvSet := True, rvInstant := Some (envNow db)\<rparr>)"

definition ReadVersionInstant :: "simTxn \<Rightarrow> instant option" where
  "ReadVersionInstant tx = (if \<not> rvSet tx \<or> rvInstant tx = None then None else rvInstant tx)"

section \<open>Reads of one key\<close>

definition cloneVal :: "bytes option \<Rightarrow> bytes option" where
  "cloneVal v = (case v of None \<Rightarrow> None | Some b \<Rightarrow> Some b)"

text \<open>A nil operand has length zero.\<close>

definition presentVal :: "bytes option \<Rightarrow> bytes option" where
  "presentVal v = Some (presentBytes v)"

definition snapshotValue :: "simDB \<Rightarrow> simTxn \<Rightarrow> bytes \<Rightarrow> bytes option" where
  "snapshotValue db tx key = cloneVal (valueAt (store db) key (readVersion tx))"

text \<open>One turn of the loop of \<^verbatim>\<open>resolveKey\<close>.\<close>

definition replayStep :: "bytes \<Rightarrow> bytes option \<Rightarrow> mutation \<Rightarrow> bytes option" where
  "replayStep key cur m =
     (case mkind m of
        mutSet \<Rightarrow> if mkey m = key then cloneVal (mvalue m) else cur
      | mutVersionstampedValue \<Rightarrow> if mkey m = key then cloneVal (mvalue m) else cur
      | mutVersionstampedKey \<Rightarrow> if mkey m = key then cloneVal (mvalue m) else cur
      | mutClear \<Rightarrow> if mkey m = key then None else cur
      | mutClearRange \<Rightarrow> if key \<ge> mkey m \<and> key < mend m then None else cur
      | mutAtomic \<Rightarrow>
          if mkey m = key
          then let (nv, clear) = applyAtomic (mop m) cur (presentBytes (mvalue m)) in if clear then None else nv
          else cur)"

definition resolveKey :: "simDB \<Rightarrow> simTxn \<Rightarrow> bytes \<Rightarrow> bytes option" where
  "resolveKey db tx key =
     (let cur = snapshotValue db tx key
      in if rywDisabled tx then cur else foldl (replayStep key) cur (buffer tx))"

section \<open>Unreadable keys\<close>

definition markUnreadable :: "simTxn \<Rightarrow> bytes \<Rightarrow> simTxn" where
  "markUnreadable tx key = tx\<lparr>unreadable := List.insert key (unreadable tx)\<rparr>"

definition addUnreadableRange :: "simTxn \<Rightarrow> bytes \<Rightarrow> bytes \<Rightarrow> simTxn" where
  "addUnreadableRange tx begin end = tx\<lparr>unreadableRanges := mergeRange (unreadableRanges tx) begin end\<rparr>"

definition subtractUnreadableRange :: "simTxn \<Rightarrow> bytes \<Rightarrow> bytes \<Rightarrow> simTxn" where
  "subtractUnreadableRange tx begin end = tx\<lparr>unreadableRanges := subtractRange (unreadableRanges tx) begin end\<rparr>"

definition clearUnreadable :: "simTxn \<Rightarrow> bytes \<Rightarrow> simTxn" where
  "clearUnreadable tx key =
     subtractUnreadableRange (tx\<lparr>unreadable := removeAll key (unreadable tx)\<rparr>) key (keyAfter key)"

definition clearUnreadableRange :: "simTxn \<Rightarrow> bytes \<Rightarrow> bytes \<Rightarrow> simTxn" where
  "clearUnreadableRange tx begin end =
     subtractUnreadableRange (tx\<lparr>unreadable := filter (\<lambda>k. \<not> (k \<ge> begin \<and> k < end)) (unreadable tx)\<rparr>) begin end"

definition hasUnreadable :: "simTxn \<Rightarrow> bool" where
  "hasUnreadable tx \<longleftrightarrow> length (unreadable tx) > 0 \<or> length (unreadableRanges tx) > 0"

definition inUnreadableRange :: "simTxn \<Rightarrow> bytes \<Rightarrow> bool" where
  "inUnreadableRange tx key = rangesHold (unreadableRanges tx) key"

definition firstUnreadableRangeIn :: "simTxn \<Rightarrow> bytes \<Rightarrow> bytes \<Rightarrow> bytes option" where
  "firstUnreadableRangeIn tx begin end =
     (let rs = unreadableRanges tx; i = sort_search (length rs) (\<lambda>i. rend (rs ! i) > begin)
      in if i < length rs \<and> rbegin (rs ! i) < end
         then if rbegin (rs ! i) > begin then Some (rbegin (rs ! i)) else Some begin
         else None)"

definition lastUnreadableRangeIn :: "simTxn \<Rightarrow> bytes \<Rightarrow> bytes \<Rightarrow> bytes option" where
  "lastUnreadableRangeIn tx begin end =
     (let rs = unreadableRanges tx; i = int (sort_search (length rs) (\<lambda>i. rbegin (rs ! i) \<ge> end)) - 1
      in if i < 0 \<or> rend (rs ! nat i) \<le> begin then None
         else if rend (rs ! nat i) < end then Some (rend (rs ! nat i)) else Some end)"

definition isUnreadable :: "simTxn \<Rightarrow> bytes \<Rightarrow> bool" where
  "isUnreadable tx key =
     (if rywDisabled tx \<or> bypassUnreadable tx \<or> \<not> hasUnreadable tx then False
      else if key \<in> set (unreadable tx) then True
      else inUnreadableRange tx key)"

text \<open>The loop over the unreadable keys in \<^verbatim>\<open>unreadableScanCap\<close>.\<close>

definition entryCap :: "bytes list \<Rightarrow> bytes \<Rightarrow> bytes \<Rightarrow> bool \<Rightarrow> bytes option" where
  "entryCap keys begin end reverse =
     foldl (\<lambda>entryPos kb.
       if kb < begin \<or> kb \<ge> end then entryPos
       else case entryPos of
              None \<Rightarrow> Some kb
            | Some p \<Rightarrow> if reverse \<and> kb > p then Some kb else if \<not> reverse \<and> kb < p then Some kb else Some p)
       None keys"

definition unreadableScanCap :: "simTxn \<Rightarrow> bytes \<Rightarrow> bytes \<Rightarrow> bool \<Rightarrow> bytes option" where
  "unreadableScanCap tx begin end reverse =
     (if rywDisabled tx \<or> bypassUnreadable tx \<or> \<not> hasUnreadable tx then None
      else
        let entryPos = entryCap (unreadable tx) begin end reverse;
            entryPos = (if reverse then map_option keyAfter entryPos else entryPos);
            rangePos = (if reverse then lastUnreadableRangeIn tx begin end else firstUnreadableRangeIn tx begin end)
        in case entryPos of
             None \<Rightarrow> rangePos
           | Some e \<Rightarrow>
               (case rangePos of
                  None \<Rightarrow> Some e
                | Some r \<Rightarrow> if reverse then (if r > e then Some r else Some e) else if r < e then Some r else Some e))"


section \<open>What a transaction remembers of its reads\<close>

definition addReadConflict :: "simTxn \<Rightarrow> bytes \<Rightarrow> bytes \<Rightarrow> simTxn" where
  "addReadConflict tx begin end = tx\<lparr>readConflicts := readConflicts tx @ [\<lparr>rbegin = begin, rend = end\<rparr>]\<rparr>"

definition addWriteConflict :: "simTxn \<Rightarrow> bytes \<Rightarrow> bytes \<Rightarrow> simTxn" where
  "addWriteConflict tx begin end = tx\<lparr>writeConflicts := writeConflicts tx @ [\<lparr>rbegin = begin, rend = end\<rparr>]\<rparr>"

definition addFilteredReadConflictKey :: "simTxn \<Rightarrow> bytes \<Rightarrow> simTxn" where
  "addFilteredReadConflictKey tx key =
     (if rywDisabled tx then addReadConflict tx key (keyAfter key)
      else if conflictForKeyDirect (buffer tx) key then addReadConflict tx key (keyAfter key)
      else tx)"

definition addFilteredReadConflict :: "simTxn \<Rightarrow> bytes \<Rightarrow> bytes \<Rightarrow> simTxn" where
  "addFilteredReadConflict tx begin end =
     (if begin \<ge> end then tx
      else if rywDisabled tx then addReadConflict tx begin end
      else foldl (\<lambda>tx r. addReadConflict tx (rbegin r) (rend r)) tx
             (conflictRanges (buildWriteMap (buffer tx)) begin end))"

definition rememberRead :: "simTxn \<Rightarrow> bytes \<Rightarrow> bytes \<Rightarrow> simTxn" where
  "rememberRead tx begin end =
     (if rywDisabled tx \<or> begin \<ge> end then tx
      else tx\<lparr>knownReads := rememberRange (knownReads tx) begin end\<rparr>)"

definition readKnown :: "simTxn \<Rightarrow> bytes \<Rightarrow> bool" where
  "readKnown tx key = rangesHold (knownReads tx) key"

type_synonym row = "bytes \<times> bytes option"

definition rememberRangeRead :: "simTxn \<Rightarrow> bytes \<Rightarrow> bytes \<Rightarrow> row list \<Rightarrow> bool \<Rightarrow> bool \<Rightarrow> simTxn" where
  "rememberRangeRead tx begin end kvs hasMore reverse =
     (if hasMore
      then if length kvs = 0 then tx
           else if reverse then rememberRead tx (fst (last kvs)) end
           else rememberRead tx begin (keyAfter (fst (last kvs)))
      else rememberRead tx begin end)"

definition get :: "simDB \<Rightarrow> simTxn \<Rightarrow> bytes \<Rightarrow> bool \<Rightarrow> simTxn \<times> (int, bytes option) result" where
  "get db tx k snapshot =
     (if cancelled tx then (tx, Inl 1025)
      else let tx = ensureReadVersion db tx
           in if isUnreadable tx k then (tx, Inl 1036)
              else let tx = (if \<not> snapshot then addFilteredReadConflictKey tx k else tx);
                       val = resolveKey db tx k
                   in (rememberRead tx k (keyAfter k), Inr val))"

section \<open>The merged view\<close>

definition applyMutationToView :: "row list \<Rightarrow> mutation \<Rightarrow> row list" where
  "applyMutationToView m mut =
     (case mkind mut of
        mutSet \<Rightarrow> AList.update (mkey mut) (cloneVal (mvalue mut)) m
      | mutVersionstampedKey \<Rightarrow> AList.update (mkey mut) (cloneVal (mvalue mut)) m
      | mutVersionstampedValue \<Rightarrow> AList.update (mkey mut) (cloneVal (mvalue mut)) m
      | mutClear \<Rightarrow> AList.delete (mkey mut) m
      | mutClearRange \<Rightarrow> filter (\<lambda>(k, _). \<not> (k \<ge> mkey mut \<and> k < mend mut)) m
      | mutAtomic \<Rightarrow>
          (let existing = (case map_of m (mkey mut) of None \<Rightarrow> None | Some v \<Rightarrow> v);
               (nv, clear) = applyAtomic (mop mut) existing (presentBytes (mvalue mut))
           in if clear then AList.delete (mkey mut) m else AList.update (mkey mut) nv m))"

definition sortedView :: "row list \<Rightarrow> row list" where
  "sortedView m = sort_key fst m"

definition buildView :: "simDB \<Rightarrow> simTxn \<Rightarrow> row list" where
  "buildView db tx =
     (let m = foldl (\<lambda>m e. case valueAtEntry e (readVersion tx) of
                              None \<Rightarrow> m | Some v \<Rightarrow> AList.update (entryKey e) (cloneVal (Some v)) m)
                []  (entries (store db));
          m = (if rywDisabled tx then m else foldl applyMutationToView m (buffer tx))
      in sortedView m)"

definition mutationOverlaps :: "mutation \<Rightarrow> bytes \<Rightarrow> bytes \<Rightarrow> bool" where
  "mutationOverlaps mut begin end =
     (if mkind mut = mutClearRange then mkey mut < end \<and> begin < mend mut
      else mkey mut \<ge> begin \<and> mkey mut < end)"

text \<open>One turn of the loop of \<^verbatim>\<open>buildViewRangeLimited\<close>: the view of the window a bounded read covers.\<close>

definition viewWindow :: "simDB \<Rightarrow> simTxn \<Rightarrow> bytes \<Rightarrow> bytes \<Rightarrow> int \<Rightarrow> bool \<Rightarrow> row list \<times> bool" where
  "viewWindow db tx begin end budget reverse =
     (let r = rangeAtLimited (store db) begin end (readVersion tx) budget reverse;
          m = foldl (\<lambda>m kv. AList.update (fst kv) (Some (snd kv)) m) [] (lrRows r);
          m = (if rywDisabled tx then m
               else foldl (\<lambda>m mut. if mutationOverlaps mut (lrBegin r) (lrEnd r) then applyMutationToView m mut else m)
                      m (buffer tx))
      in (sortedView m, lrExhausted r))"

text \<open>A bounded read that does not exhaust its range found as many rows as it was asked for.\<close>

lemma limitedForward_budget:
  "\<not> lrExhausted (limitedForward es b e v want out t) \<Longrightarrow> 0 < want \<and> want \<le> int (length out + length es)"
  by (induction es arbitrary: out t) (fastforce simp: Let_def split: if_splits option.splits)+

lemma limitedReverse_budget:
  "\<not> lrExhausted (limitedReverse es b e v want out t) \<Longrightarrow> 0 < want \<and> want \<le> int (length out + length es)"
  by (induction es arbitrary: out t) (fastforce simp: Let_def split: if_splits option.splits)+

lemma rangeAtLimited_budget:
  "\<not> lrExhausted (rangeAtLimited s b e v want reverse) \<Longrightarrow> 0 < want \<and> want \<le> int (length (entries s))"
  by (fastforce simp: rangeAtLimited_def Let_def split: if_splits
      dest!: limitedForward_budget limitedReverse_budget)

function viewLimitedLoop ::
  "simDB \<Rightarrow> simTxn \<Rightarrow> bytes \<Rightarrow> bytes \<Rightarrow> int \<Rightarrow> bool \<Rightarrow> int \<Rightarrow> row list \<times> bool" where
  "viewLimitedLoop db tx begin end want reverse budget =
     (let (view, exhausted) = viewWindow db tx begin end budget reverse
      in if exhausted \<or> want \<le> 0 \<or> int (length view) \<ge> want then (view, exhausted)
         else viewLimitedLoop db tx begin end want reverse (budget * 2))"
  by pat_completeness auto
termination
proof (relation "measure (\<lambda>(db, tx, begin, end, want, reverse, budget). nat (int (length (entries (store db))) + 1 - budget))")
  fix db :: simDB and tx :: simTxn and b e :: bytes and want budget :: int and reverse :: bool and p view exhausted
  assume p: "p = viewWindow db tx b e budget reverse" "(view, exhausted) = p"
    and "\<not> (exhausted \<or> want \<le> 0 \<or> want \<le> int (length view))"
  then have "\<not> lrExhausted (rangeAtLimited (store db) b e (readVersion tx) budget reverse)"
    by (simp add: viewWindow_def Let_def)
  from rangeAtLimited_budget [OF this]
  show "((db, tx, b, e, want, reverse, budget * 2), db, tx, b, e, want, reverse, budget)
      \<in> measure (\<lambda>(db, tx, begin, end, want, reverse, budget). nat (int (length (entries (store db))) + 1 - budget))"
    by simp
qed simp

declare viewLimitedLoop.simps [simp del]

definition buildViewRangeLimited ::
  "simDB \<Rightarrow> simTxn \<Rightarrow> bytes \<Rightarrow> bytes \<Rightarrow> int \<Rightarrow> bool \<Rightarrow> row list \<times> bool" where
  "buildViewRangeLimited db tx begin end want reverse =
     (if begin \<ge> end then ([], True) else viewLimitedLoop db tx begin end want reverse want)"

definition buildViewRange :: "simDB \<Rightarrow> simTxn \<Rightarrow> bytes \<Rightarrow> bytes \<Rightarrow> row list" where
  "buildViewRange db tx begin end = fst (buildViewRangeLimited db tx begin end 0 False)"


section \<open>One fetch of a range\<close>

definition rangeRows :: "simDB \<Rightarrow> simTxn \<Rightarrow> bytes \<Rightarrow> bytes \<Rightarrow> int \<Rightarrow> bool \<Rightarrow> row list \<times> bool" where
  "rangeRows db tx begin end limit reverse =
     (let kvs = fst (buildViewRangeLimited db tx begin end limit reverse);
          kvs = (if reverse then rev kvs else kvs)
      in if limit > 0 \<and> int (length kvs) \<ge> limit then (take (nat limit) kvs, True) else (kvs, False))"

abbreviation ByteLimitUnlimited :: int where "ByteLimitUnlimited \<equiv> -1"

abbreviation serverRowOverheadBytes :: int where "serverRowOverheadBytes \<equiv> 24"

text \<open>The loop of \<^verbatim>\<open>serverByteCut\<close> from row \<open>i\<close> on.\<close>

fun byteCutLoop :: "row list \<Rightarrow> int \<Rightarrow> int \<Rightarrow> nat \<Rightarrow> nat" where
  "byteCutLoop [] acc targetBytes i = i"
| "byteCutLoop ((k, v) # batch) acc targetBytes i =
     (let acc = acc + int (length k) + int (length (presentBytes v)) + serverRowOverheadBytes
      in if acc \<ge> targetBytes then i + 1 else byteCutLoop batch acc targetBytes (i + 1))"

definition serverByteCut :: "row list \<Rightarrow> int \<Rightarrow> nat" where
  "serverByteCut batch targetBytes =
     (if targetBytes = ByteLimitUnlimited \<or> length batch = 0 then length batch
      else byteCutLoop batch 0 targetBytes 0)"

text \<open>
  \<^verbatim>\<open>fetchRange\<close> returns its rows, whether there may be more, and the window it read.  The byte target is
  never negative but for the unlimited one, so the integer division of the ceiling is \<open>div\<close>.
\<close>

definition fetchRange ::
  "simDB \<Rightarrow> simTxn \<Rightarrow> bytes \<Rightarrow> bytes \<Rightarrow> int \<Rightarrow> int \<Rightarrow> bool \<Rightarrow>
     simTxn \<times> (int, row list \<times> bool \<times> bytes \<times> bytes) result" where
  "fetchRange db tx begin end limit byteTarget reverse =
     (if cancelled tx then (tx, Inl 1025)
      else
        let capKey = unreadableScanCap tx begin end reverse;
            cBegin = (case capKey of Some c \<Rightarrow> if reverse then c else begin | None \<Rightarrow> begin);
            cEnd = (case capKey of Some c \<Rightarrow> if reverse then end else c | None \<Rightarrow> end);
            limit = (if byteTarget \<noteq> ByteLimitUnlimited
                     then let maxRows = byteTarget div (1 + serverRowOverheadBytes) + 1
                          in if maxRows < limit then maxRows else limit
                     else limit);
            (kvs, hasMore) = rangeRows db tx cBegin cEnd limit reverse;
            cut = serverByteCut kvs byteTarget;
            (kvs, hasMore) = (if cut < length kvs then (take cut kvs, True) else (kvs, hasMore))
        in if capKey = None then (rememberRangeRead tx cBegin cEnd kvs hasMore reverse, Inr (kvs, hasMore, cBegin, cEnd))
           else if \<not> hasMore then (tx, Inl 1036)
           else (rememberRangeRead tx cBegin cEnd kvs True reverse, Inr (kvs, True, cBegin, cEnd)))"

section \<open>Key selectors\<close>

abbreviation endKeyMarker :: bytes where "endKeyMarker \<equiv> [0xFF]"

definition resolveSelector :: "row list \<Rightarrow> KeySelector \<Rightarrow> int" where
  "resolveSelector view ks =
     (let base = (if OrEqual ks then keyAfter (Key ks) else Key ks);
          i = sort_search (length view) (\<lambda>i. fst (view ! i) \<ge> base)
      in int i + Offset ks - 1)"

definition isTrivialSelector :: "KeySelector \<Rightarrow> bool" where
  "isTrivialSelector ks \<longleftrightarrow> Offset ks = 1"

definition removeOrEqual :: "KeySelector \<Rightarrow> KeySelector" where
  "removeOrEqual ks =
     (if OrEqual ks then \<lparr>Key = keyAfter (Key ks), OrEqual = False, Offset = Offset ks\<rparr>
      else \<lparr>Key = Key ks, OrEqual = False, Offset = Offset ks\<rparr>)"

definition resolveRangeBound :: "row list \<Rightarrow> KeySelector \<Rightarrow> bytes" where
  "resolveRangeBound view ks =
     (if isTrivialSelector ks then if OrEqual ks then keyAfter (Key ks) else Key ks
      else let idx = resolveSelector view ks
           in if idx < 0 then []
              else if idx \<ge> int (length view) then endKeyMarker
              else fst (view ! nat idx))"

definition selectorReadSpan :: "row list \<Rightarrow> KeySelector \<Rightarrow> bytes \<times> bytes" where
  "selectorReadSpan view sel =
     (let anchor = Key sel; idx = resolveSelector view sel; found = (idx \<ge> 0 \<and> idx < int (length view))
      in if Offset sel \<le> 0 then (if found then fst (view ! nat idx) else [], anchor)
         else (anchor, if found then keyAfter (fst (view ! nat idx)) else endKeyMarker))"

definition addGetKeyConflictRange :: "simTxn \<Rightarrow> KeySelector \<Rightarrow> bytes \<Rightarrow> simTxn" where
  "addGetKeyConflictRange tx ks resolved =
     (let selKey = Key ks;
          (cBegin, cEnd) =
            (if Offset ks \<le> 0 then (resolved, if OrEqual ks then keyAfter selKey else selKey)
             else (if OrEqual ks then keyAfter selKey else selKey, keyAfter resolved))
      in if cBegin < cEnd then addFilteredReadConflict tx cBegin cEnd else tx)"

text \<open>The span \<^verbatim>\<open>getKey\<close> checks for unreadable keys.\<close>

definition getKeySpan :: "row list \<Rightarrow> KeySelector \<Rightarrow> bytes \<times> bytes" where
  "getKeySpan view ks =
     (let idx = resolveSelector view ks; anchor = Key ks
      in if idx < 0 then ([], keyAfter anchor)
         else if idx \<ge> int (length view) then (anchor, endKeyMarker)
         else if fst (view ! nat idx) < anchor then (fst (view ! nat idx), keyAfter anchor)
         else (anchor, keyAfter (fst (view ! nat idx))))"

definition getKey :: "simDB \<Rightarrow> simTxn \<Rightarrow> KeySelector \<Rightarrow> bool \<Rightarrow> simTxn \<times> (int, bytes) result" where
  "getKey db tx ks snapshot =
     (if cancelled tx then (tx, Inl 1025)
      else
        let tx = ensureReadVersion db tx;
            view = buildView db tx;
            idx = resolveSelector view ks;
            (lo, hi) = getKeySpan view ks
        in if \<not> bypassUnreadable tx \<and> hasUnreadable tx \<and> lo < hi \<and> unreadableScanCap tx lo hi False \<noteq> None
           then (tx, Inl 1036)
           else
             let result = (if idx < 0 then []
                           else if idx \<ge> int (length view) then endKeyMarker
                           else fst (view ! nat idx));
                 tx = (if \<not> snapshot then addGetKeyConflictRange tx ks result else tx);
                 (knownBegin, knownEnd) = selectorReadSpan view (removeOrEqual ks)
             in (rememberRead tx knownBegin knownEnd, Inr result))"

definition resolveRangeForRead ::
  "simDB \<Rightarrow> simTxn \<Rightarrow> KeySelector \<Rightarrow> KeySelector \<Rightarrow> simTxn \<times> (int, bytes \<times> bytes) result" where
  "resolveRangeForRead db tx beginSel endSel =
     (if cancelled tx then (tx, Inl 1025)
      else
        let tx = ensureReadVersion db tx;
            begin = resolveRangeBound [] beginSel;
            end = resolveRangeBound [] endSel
        in (tx, Inr (if begin > end then ([], []) else (begin, end))))"

definition rangeConflictExtent :: "bytes \<Rightarrow> bytes \<Rightarrow> row list \<Rightarrow> bool \<Rightarrow> bool \<Rightarrow> bytes \<times> bytes" where
  "rangeConflictExtent begin end kvs hasMore reverse =
     (if \<not> hasMore \<or> length kvs = 0 then (begin, end)
      else let lastKey = fst (last kvs)
           in if reverse then (lastKey, end) else (begin, keyAfter lastKey))"

section \<open>Other reads\<close>

definition GetReadVersion :: "simDB \<Rightarrow> simTxn \<Rightarrow> simTxn \<times> (int, int) result" where
  "GetReadVersion db tx =
     (if cancelled tx then (tx, Inl 1025)
      else let tx = ensureReadVersion db tx in (tx, Inr (readVersion tx)))"

definition GetEstimatedRangeSizeBytes :: "simDB \<Rightarrow> simTxn \<Rightarrow> bytes \<Rightarrow> bytes \<Rightarrow> simTxn \<times> (int, int) result" where
  "GetEstimatedRangeSizeBytes db tx b e =
     (if b > e then (tx, Inl 2005)
      else if cancelled tx then (tx, Inl 1025)
      else let tx = ensureReadVersion db tx;
               kvs = rangeAt (store db) b e (readVersion tx)
           in (tx, Inr (foldl (\<lambda>total kv. total + int (length (fst kv) + length (snd kv))) 0 kvs)))"

definition GetRangeSplitPoints :: "simTxn \<Rightarrow> bytes \<Rightarrow> bytes \<Rightarrow> (int, bytes list) result" where
  "GetRangeSplitPoints tx b e =
     (if b > e then Inl 2005 else if cancelled tx then Inl 1025 else Inr [])"


section \<open>Writes\<close>

definition enqueue :: "simTxn \<Rightarrow> mutation \<Rightarrow> simTxn" where
  "enqueue tx m =
     (let m = m\<lparr>mnoWriteConflict := nextWriteNoConflict tx\<rparr>;
          tx = tx\<lparr>nextWriteNoConflict := False, buffer := buffer tx @ [m]\<rparr>
      in if \<not> mnoWriteConflict m \<and> \<not> writeConflictsDisabled tx
         then if mkind m = mutClearRange then addWriteConflict tx (mkey m) (mend m)
              else addWriteConflict tx (mkey m) (keyAfter (mkey m))
         else tx)"

text \<open>A Go mutation whose fields are not all given has their zero values.\<close>

definition mutationOf :: "mutationKind \<Rightarrow> bytes \<Rightarrow> bytes \<Rightarrow> bytes option \<Rightarrow> mutation" where
  "mutationOf kind key end v =
     \<lparr>mkind = kind, mkey = key, mend = end, mvalue = v, mop = atomicAdd, mnoWriteConflict = False\<rparr>"

definition txnSet :: "simTxn \<Rightarrow> bytes \<Rightarrow> bytes option \<Rightarrow> simTxn" where
  "txnSet tx key v = enqueue tx (mutationOf mutSet key [] (presentVal v))"

definition txnClear :: "simTxn \<Rightarrow> bytes \<Rightarrow> simTxn" where
  "txnClear tx k = enqueue (clearUnreadable tx k) (mutationOf mutClear k [] None)"

definition txnClearRange :: "simTxn \<Rightarrow> bytes \<Rightarrow> bytes \<Rightarrow> simTxn" where
  "txnClearRange tx begin end =
     enqueue (clearUnreadableRange tx begin end) (mutationOf mutClearRange begin end None)"

definition txnAtomic :: "simTxn \<Rightarrow> atomicOp \<Rightarrow> bytes \<Rightarrow> bytes option \<Rightarrow> simTxn" where
  "txnAtomic tx op key param = enqueue tx ((mutationOf mutAtomic key [] (cloneVal param))\<lparr>mop := op\<rparr>)"

text \<open>
  \<^verbatim>\<open>placeVersionstamp\<close> on a slice of at least ten bytes: the version in eight bytes, as the unsigned number
  its conversion gives, and the number of the transaction in two.
\<close>

definition placeVersionstamp :: "bytes \<Rightarrow> int \<Rightarrow> nat \<Rightarrow> bytes" where
  "placeVersionstamp dst version txnNumber =
     be_bytes 8 (nat (version mod 2 ^ 64)) @ be_bytes 2 txnNumber @ drop 10 dst"

definition versionstampKeyRange :: "bytes \<Rightarrow> int \<Rightarrow> bytes \<Rightarrow> (bytes \<times> bytes \<times> bytes) option" where
  "versionstampKeyRange key minVersion maxKey =
     (if length key < 4 then None
      else
        let pos = sint (word_of_nat (le_val (drop (length key - 4) key)) :: 32 word)
        in if pos < 0 \<or> pos > int (length key) - 4 - 10 then None
           else
             let pos = nat pos;
                 stem = take (length key - 4) key;
                 begin = take pos stem @ placeVersionstamp (drop pos stem) minVersion 0;
                 end = stem @ [0];
                 end = take pos end @ replicate 10 0xFF @ drop (pos + 10) end;
                 end = (if end > maxKey then maxKey else end);
                 transformed = take pos key @ placeVersionstamp (drop pos key) minVersion 0
             in Some (begin, end, transformed))"

definition SetVersionstampedKey :: "simTxn \<Rightarrow> bytes \<Rightarrow> bytes option \<Rightarrow> simTxn" where
  "SetVersionstampedKey tx k param =
     (let minVersion = (if rvSet tx then readVersion tx else 0);
          (tx, k) =
            (if k < endKeyMarker
             then case versionstampKeyRange k minVersion endKeyMarker of
                    Some (rb, re, transformed) \<Rightarrow> (addUnreadableRange tx rb re, transformed)
                  | None \<Rightarrow> (tx, k)
             else (tx, k))
      in enqueue (markUnreadable tx k) (mutationOf mutVersionstampedKey k [] (cloneVal param)))"

definition SetVersionstampedValue :: "simTxn \<Rightarrow> bytes \<Rightarrow> bytes option \<Rightarrow> simTxn" where
  "SetVersionstampedValue tx k param =
     enqueue (markUnreadable tx k) (mutationOf mutVersionstampedValue k [] (cloneVal param))"

section \<open>Explicit conflict ranges\<close>

abbreviation keySizeLimit :: nat where "keySizeLimit \<equiv> 10000"
abbreviation systemKeySizeLimit :: nat where "systemKeySizeLimit \<equiv> 30000"
abbreviation tenantPrefixSize :: nat where "tenantPrefixSize \<equiv> 8"

definition getMaxClearKeySize :: "bytes \<Rightarrow> nat" where
  "getMaxClearKeySize key =
     (if length key > 0 \<and> key ! 0 = 0xFF then systemKeySizeLimit else keySizeLimit + tenantPrefixSize)"

text \<open>\<open>Inr None\<close> is \<^verbatim>\<open>ok = false\<close> without an error.\<close>

definition clampConflictRange :: "bytes \<Rightarrow> bytes \<Rightarrow> (int, (bytes \<times> bytes) option) result" where
  "clampConflictRange begin end =
     (if begin > end then Inl 2005
      else
        let bmax = getMaxClearKeySize begin;
            begin = (if length begin > bmax then take (bmax + 1) begin else begin);
            emax = getMaxClearKeySize end;
            end = (if length end > emax then take (emax + 1) end else end)
        in if begin \<ge> end then Inr None else Inr (Some (begin, end)))"

definition AddReadConflictRange :: "simTxn \<Rightarrow> bytes \<Rightarrow> bytes \<Rightarrow> simTxn \<times> int option" where
  "AddReadConflictRange tx b e =
     (case clampConflictRange b e of
        Inl err \<Rightarrow> (tx, Some err)
      | Inr None \<Rightarrow> (tx, None)
      | Inr (Some (begin, end)) \<Rightarrow> (addFilteredReadConflict tx begin end, None))"

definition AddReadConflictKey :: "simTxn \<Rightarrow> bytes \<Rightarrow> simTxn" where
  "AddReadConflictKey tx k =
     (if length k > getMaxClearKeySize k then tx else addFilteredReadConflictKey tx k)"

definition AddWriteConflictRange :: "simTxn \<Rightarrow> bytes \<Rightarrow> bytes \<Rightarrow> simTxn \<times> int option" where
  "AddWriteConflictRange tx b e =
     (case clampConflictRange b e of
        Inl err \<Rightarrow> (tx, Some err)
      | Inr None \<Rightarrow> (tx, None)
      | Inr (Some (begin, end)) \<Rightarrow> (addWriteConflict tx begin end, None))"

definition AddWriteConflictKey :: "simTxn \<Rightarrow> bytes \<Rightarrow> simTxn" where
  "AddWriteConflictKey tx k =
     (if length k > getMaxClearKeySize k then tx else addWriteConflict tx k (keyAfter k))"

section \<open>Life cycle\<close>

definition postCommitReset :: "simTxn \<Rightarrow> simTxn" where
  "postCommitReset tx =
     tx\<lparr>readVersion := 0, rvSet := False, rvInstant := None, buffer := [], knownReads := [], unreadable := [],
        unreadableRanges := [], readConflicts := [], writeConflicts := []\<rparr>"

definition Cancel :: "simTxn \<Rightarrow> simTxn" where
  "Cancel tx = tx\<lparr>cancelled := True\<rparr>"

definition resetState :: "simTxn \<Rightarrow> simTxn" where
  "resetState tx =
     tx\<lparr>readVersion := 0, rvSet := False, rvInstant := None, buffer := [], knownReads := [], unreadable := [],
        unreadableRanges := [], readConflicts := [], writeConflicts := [], nextWriteNoConflict := False,
        committed := False, committedVersion := 0, cancelled := False, txVersionstamp := None\<rparr>"

definition Reset :: "simTxn \<Rightarrow> simTxn" where
  "Reset tx = (resetState tx)\<lparr>hasRetryLimit := False, retryLimit := 0, retryCount := 0\<rparr>"

definition maybeCommitted :: "int \<Rightarrow> bool" where
  "maybeCommitted code \<longleftrightarrow> code = 1021 \<or> code = 1039"

definition IsOnErrorRetryable :: "int \<Rightarrow> bool" where
  "IsOnErrorRetryable code \<longleftrightarrow>
     code \<in> {1007, 1009, 1020, 1021, 1037, 1038, 1039, 1042, 1051, 1078, 1079, 1213, 1223, 1235, 1242}"

definition OnError :: "simTxn \<Rightarrow> int \<Rightarrow> simTxn \<times> int option" where
  "OnError tx e =
     (if hasRetryLimit tx \<and> retryCount tx \<ge> retryLimit tx then (tx, Some e)
      else if \<not> IsOnErrorRetryable e then (tx, Some e)
      else
        let tx = tx\<lparr>retryCount := retryCount tx + 1\<rparr>
        in if \<not> maybeCommitted e then (resetState tx, None)
           else let selfConflicts = writeConflicts tx;
                    tx = resetState tx
                in (tx\<lparr>readConflicts := readConflicts tx @ selfConflicts\<rparr>, None))"

definition SetReadVersion :: "simTxn \<Rightarrow> int \<Rightarrow> simTxn" where
  "SetReadVersion tx version =
     (let tx = (if \<not> rvSet tx \<or> readVersion tx \<noteq> version then tx\<lparr>knownReads := []\<rparr> else tx)
      in tx\<lparr>readVersion := version, rvSet := True, rvInstant := None\<rparr>)"

definition GetCommittedVersion :: "simTxn \<Rightarrow> (int, int) result" where
  "GetCommittedVersion tx = (if \<not> committed tx then Inl 2017 else Inr (committedVersion tx))"

text \<open>\<^verbatim>\<open>lazyVersionstamp.Get\<close>.\<close>

definition GetVersionstamp :: "simTxn \<Rightarrow> (int, bytes) result" where
  "GetVersionstamp tx =
     (if cancelled tx then Inl 1025
      else case txVersionstamp tx of
             None \<Rightarrow> Inl 2017
           | Some v \<Rightarrow> if \<not> committed tx then Inl 2017 else Inr v)"

section \<open>Options\<close>

definition SetNextWriteNoWriteConflictRange :: "simTxn \<Rightarrow> simTxn" where
  "SetNextWriteNoWriteConflictRange tx = tx\<lparr>nextWriteNoConflict := True\<rparr>"

definition SetReadYourWritesDisable :: "simTxn \<Rightarrow> simTxn" where
  "SetReadYourWritesDisable tx = tx\<lparr>rywDisabled := True\<rparr>"

definition SetWriteConflictsDisabled :: "simTxn \<Rightarrow> simTxn" where
  "SetWriteConflictsDisabled tx = tx\<lparr>writeConflictsDisabled := True\<rparr>"

definition SetBypassUnreadable :: "simTxn \<Rightarrow> simTxn" where
  "SetBypassUnreadable tx = tx\<lparr>bypassUnreadable := True\<rparr>"

definition SetRetryLimit :: "simTxn \<Rightarrow> int \<Rightarrow> simTxn" where
  "SetRetryLimit tx retries =
     (if retries < 0 then tx\<lparr>hasRetryLimit := False\<rparr>
      else tx\<lparr>retryLimit := retries, hasRetryLimit := True\<rparr>)"

end
