(* ===== verification/SimView.thy ===== *)
theory SimView
  imports SimTxn
begin

text \<open>
  Reads of a simulated transaction see its own writes over a snapshot: the view of the keys, built as a
  whole, in a window or page by page, agrees with the value each key resolves to, and the filter on read
  conflicts drops only reads whose value does not depend on the snapshot.
\<close>

section \<open>The view of one key\<close>

definition viewStep :: "bytes \<Rightarrow> bytes option option \<Rightarrow> mutation \<Rightarrow> bytes option option" where
  "viewStep k cur mut =
     (case mkind mut of
        mutClear \<Rightarrow> if mkey mut = k then None else cur
      | mutClearRange \<Rightarrow> if mkey mut \<le> k \<and> k < mend mut then None else cur
      | mutAtomic \<Rightarrow>
          if mkey mut = k
          then let (nv, clear) = applyAtomic (mop mut) (Option.bind cur id) (presentBytes (mvalue mut))
               in if clear then None else Some nv
          else cur
      | _ \<Rightarrow> if mkey mut = k then Some (mvalue mut) else cur)"

lemma cloneVal_id [simp]: "cloneVal v = v"
  by (cases v) (simp_all add: cloneVal_def)

lemma bind_id_case: "(case x of None \<Rightarrow> None | Some v \<Rightarrow> v) = Option.bind x id"
  by (cases x) simp_all

lemma map_of_applyMutationToView: "map_of (applyMutationToView m mut) k = viewStep k (map_of m k) mut"
  by (cases "mkind mut")
    (auto simp: applyMutationToView_def viewStep_def update_conv' delete_conv' map_of_filter_fst bind_id_case
      split: prod.splits)

lemma distinct_applyMutationToView:
  "distinct (map fst m) \<Longrightarrow> distinct (map fst (applyMutationToView m mut))"
  by (cases "mkind mut")
    (auto simp: applyMutationToView_def distinct_update distinct_delete distinct_map_filter split: prod.splits)

lemma map_of_replay: "map_of (foldl applyMutationToView m ms) k = foldl (viewStep k) (map_of m k) ms"
  by (induction ms arbitrary: m) (simp_all add: map_of_applyMutationToView)

lemma distinct_replay: "distinct (map fst m) \<Longrightarrow> distinct (map fst (foldl applyMutationToView m ms))"
  by (induction ms arbitrary: m) (simp_all add: distinct_applyMutationToView)

text \<open>Reading one key replays the same mutations.\<close>

lemma viewStep_replayStep: "Option.bind (viewStep k cur m) id = replayStep k (Option.bind cur id) m"
  by (cases "mkind m") (auto simp: viewStep_def replayStep_def split: prod.splits)

lemma foldl_viewStep: "Option.bind (foldl (viewStep k) cur ms) id = foldl (replayStep k) (Option.bind cur id) ms"
  by (induction ms arbitrary: cur) (simp_all add: viewStep_replayStep)

section \<open>Sorted views\<close>

lemma sortedView_spec:
  assumes "distinct (map fst m)"
  shows "sorted_wrt (<) (map fst (sortedView m))" and "map_of (sortedView m) = map_of m"
proof -
  have "sorted (map fst (sortedView m))" unfolding sortedView_def by (rule sorted_sort_key)
  moreover have d: "distinct (map fst (sortedView m))"
    using assms unfolding sortedView_def by (simp add: distinct_map)
  ultimately show "sorted_wrt (<) (map fst (sortedView m))" by (simp add: strict_sorted_iff)
  show "map_of (sortedView m) = map_of m"
    using assms d by (subst map_of_inject_set) (simp_all add: sortedView_def)
qed

section \<open>The whole view\<close>

lemma view_base:
  "distinct (map fst m) \<Longrightarrow>
     distinct (map fst (foldl (\<lambda>m e. case valueAtEntry e v of
       None \<Rightarrow> m | Some x \<Rightarrow> AList.update (entryKey e) (cloneVal (Some x)) m) m es)) \<and>
     (sorted_keys es \<longrightarrow>
      map_of (foldl (\<lambda>m e. case valueAtEntry e v of
       None \<Rightarrow> m | Some x \<Rightarrow> AList.update (entryKey e) (cloneVal (Some x)) m) m es) k =
      (case map_of (rows es v) k of None \<Rightarrow> map_of m k | Some x \<Rightarrow> Some (Some x)))"
proof (induction es arbitrary: m)
  case (Cons e es)
  show ?case
  proof (cases "valueAtEntry e v")
    case None
    then show ?thesis using Cons by simp
  next
    case (Some x)
    have "k = entryKey e \<Longrightarrow> sorted_keys (e # es) \<Longrightarrow> map_of (rows es v) k = None"
      using rows_keys [of es v] by (fastforce simp: map_of_eq_None_iff)
    then show ?thesis
      using Some Cons.IH [of "AList.update (entryKey e) (Some x) m"] Cons.prems
      by (auto simp: distinct_update update_conv' split: option.splits)
  qed
qed simp

lemma map_of_rows_valueAt:
  assumes "store_inv s u"
  shows "map_of (rows (entries s) v) k = valueAt s k v"
proof -
  have s: "sorted_keys (entries s)" using assms by (simp add: store_inv_def)
  then have "valueAt s k v = newestAt (history s k) v" by (rule valueAt_history)
  then show ?thesis using s by (auto simp: map_of_rows history_find valueAtEntry_def split: option.splits)
qed

definition viewOf :: "simDB \<Rightarrow> simTxn \<Rightarrow> bytes \<Rightarrow> bytes option option" where
  "viewOf db tx k =
     (let cur = map_option Some (valueAt (store db) k (readVersion tx))
      in if rywDisabled tx then cur else foldl (viewStep k) cur (buffer tx))"

lemma buildView_spec:
  assumes "store_inv (store db) u"
  shows "sorted_wrt (<) (map fst (buildView db tx))" and "map_of (buildView db tx) k = viewOf db tx k"
proof -
  let ?m = "foldl (\<lambda>m e. case valueAtEntry e (readVersion tx) of
       None \<Rightarrow> m | Some x \<Rightarrow> AList.update (entryKey e) (cloneVal (Some x)) m) [] (entries (store db))"
  have s: "sorted_keys (entries (store db))" using assms by (simp add: store_inv_def)
  have d: "distinct (map fst ?m)" using view_base [of "[]" "readVersion tx" "entries (store db)"] by simp
  have base: "map_of ?m k = map_option Some (valueAt (store db) k (readVersion tx))"
    using view_base [of "[]" "readVersion tx" "entries (store db)" k] s map_of_rows_valueAt [OF assms]
    by (simp split: option.splits)
  let ?m' = "if rywDisabled tx then ?m else foldl applyMutationToView ?m (buffer tx)"
  have d': "distinct (map fst ?m')" using d distinct_replay by simp
  have eq: "buildView db tx = sortedView ?m'" by (simp add: buildView_def Let_def)
  show "sorted_wrt (<) (map fst (buildView db tx))" unfolding eq using sortedView_spec(1) [OF d'] .
  show "map_of (buildView db tx) k = viewOf db tx k"
    unfolding eq sortedView_spec(2) [OF d'] viewOf_def Let_def by (simp add: map_of_replay base)
qed

lemma viewOf_resolveKey: "Option.bind (viewOf db tx k) id = resolveKey db tx k"
proof -
  have "Option.bind (map_option Some x) id = x" for x :: "bytes option" by (cases x) simp_all
  then show ?thesis by (simp add: viewOf_def resolveKey_def snapshotValue_def Let_def foldl_viewStep)
qed


section \<open>The view of a window\<close>

lemma viewStep_outside:
  "b \<le> k \<Longrightarrow> k < e \<Longrightarrow> \<not> mutationOverlaps mut b e \<Longrightarrow> viewStep k cur mut = cur"
  by (cases "mkind mut") (auto simp: viewStep_def mutationOverlaps_def dest: le_less_trans)

lemma viewStep_None:
  "\<not> (b \<le> k \<and> k < e) \<Longrightarrow> mutationOverlaps mut b e \<Longrightarrow> viewStep k None mut = None"
  by (cases "mkind mut") (auto simp: viewStep_def mutationOverlaps_def)

lemma map_of_window:
  assumes "\<forall>k. \<not> (b \<le> k \<and> k < e) \<longrightarrow> map_of m k = None"
  shows "map_of (foldl (\<lambda>m mut. if mutationOverlaps mut b e then applyMutationToView m mut else m) m ms) k =
    (if b \<le> k \<and> k < e then foldl (viewStep k) (map_of m k) ms else None)"
  using assms
proof (induction ms arbitrary: m)
  case (Cons mut ms)
  let ?m = "if mutationOverlaps mut b e then applyMutationToView m mut else m"
  have "\<forall>k. \<not> (b \<le> k \<and> k < e) \<longrightarrow> map_of ?m k = None"
    using Cons.prems viewStep_None by (auto simp: map_of_applyMutationToView)
  note Cons.IH [OF this]
  moreover have "b \<le> k \<and> k < e \<Longrightarrow> map_of ?m k = viewStep k (map_of m k) mut"
    using viewStep_outside by (auto simp: map_of_applyMutationToView)
  ultimately show ?case by simp
qed auto

lemma distinct_window:
  "distinct (map fst m) \<Longrightarrow>
     distinct (map fst (foldl (\<lambda>m mut. if mutationOverlaps mut b e then applyMutationToView m mut else m) m ms))"
  by (induction ms arbitrary: m) (auto simp: distinct_applyMutationToView)

lemma rows_base:
  "distinct (map fst m) \<Longrightarrow> distinct (map fst (foldl (\<lambda>m kv. AList.update (fst kv) (Some (snd kv)) m) m kvs)) \<and>
     (distinct (map fst kvs) \<longrightarrow>
      map_of (foldl (\<lambda>m kv. AList.update (fst kv) (Some (snd kv)) m) m kvs) k =
      (case map_of kvs k of None \<Rightarrow> map_of m k | Some x \<Rightarrow> Some (Some x)))"
proof (induction kvs arbitrary: m)
  case (Cons kv kvs)
  have "k = fst kv \<Longrightarrow> distinct (map fst (kv # kvs)) \<Longrightarrow> map_of kvs k = None"
    by (auto simp: map_of_eq_None_iff)
  then show ?case
    using Cons.IH [of "AList.update (fst kv) (Some (snd kv)) m"] Cons.prems
    by (auto simp: distinct_update update_conv' split: option.splits)
qed simp

lemma viewWindow_spec:
  assumes inv: "store_inv (store db) u"
    and r: "r = rangeAtLimited (store db) b e (readVersion tx) budget reverse"
  shows "viewWindow db tx b e budget reverse =
    (filter (\<lambda>x. lrBegin r \<le> fst x \<and> fst x < lrEnd r) (buildView db tx), lrExhausted r)"
proof -
  let ?m = "foldl (\<lambda>m kv. AList.update (fst kv) (Some (snd kv)) m) [] (lrRows r)"
  let ?in = "\<lambda>k. lrBegin r \<le> k \<and> k < lrEnd r"
  have rows: "lrRows r = rangeAt (store db) (lrBegin r) (lrEnd r) (readVersion tx)"
    using rangeAtLimited_spec [OF inv r refl] by simp
  have sorted: "sorted_wrt (<) (map fst (lrRows r))" unfolding rows using inv by (rule simstore.scan_sorted)
  then have "distinct (map fst (lrRows r))" by (simp add: strict_sorted_iff)
  then have base: "distinct (map fst ?m)"
    "map_of ?m k = (if ?in k then map_option Some (valueAt (store db) k (readVersion tx)) else None)" for k
    using rows_base [of "[]" "lrRows r" k] simstore.scan_get [OF inv, of "lrBegin r" "lrEnd r" "readVersion tx" k]
    unfolding rows by (auto split: option.splits)
  let ?m' = "if rywDisabled tx then ?m
    else foldl (\<lambda>m mut. if mutationOverlaps mut (lrBegin r) (lrEnd r) then applyMutationToView m mut else m) ?m (buffer tx)"
  have d: "distinct (map fst ?m')" using base(1) distinct_window by simp
  have m': "map_of ?m' k = (if ?in k then viewOf db tx k else None)" for k
  proof (cases "rywDisabled tx")
    case True
    then show ?thesis by (simp add: base(2) viewOf_def)
  next
    case False
    then show ?thesis
      using map_of_window [of "lrBegin r" "lrEnd r" ?m "buffer tx" k] by (simp add: base(2) viewOf_def)
  qed
  have "sortedView ?m' = filter (\<lambda>x. ?in (fst x)) (buildView db tx)"
  proof (rule rows_eqI)
    show "sorted_wrt (<) (map fst (sortedView ?m'))" using d by (rule sortedView_spec(1))
    show "sorted_wrt (<) (map fst (filter (\<lambda>x. ?in (fst x)) (buildView db tx)))"
      using buildView_spec(1) [OF inv] by (simp add: sorted_wrt_map sorted_wrt_filter)
    show "map_of (sortedView ?m') = map_of (filter (\<lambda>x. ?in (fst x)) (buildView db tx))"
      using map_of_filter_key [of ?in "buildView db tx"]
      by (intro ext) (simp only: sortedView_spec(2) [OF d] m' buildView_spec(2) [OF inv])
  qed
  then show ?thesis unfolding viewWindow_def Let_def r [symmetric] by simp
qed

section \<open>A page of a view\<close>

lemma viewLimitedLoop_window:
  "\<exists>budget'. viewLimitedLoop db tx b e want reverse budget = viewWindow db tx b e budget' reverse \<and>
     (let (view, exhausted) = viewWindow db tx b e budget' reverse
      in exhausted \<or> want \<le> 0 \<or> want \<le> int (length view))"
proof (induction db tx b e want reverse budget rule: viewLimitedLoop.induct)
  case (1 db tx b e want reverse budget)
  obtain view exhausted where w: "viewWindow db tx b e budget reverse = (view, exhausted)" by fastforce
  show ?case
  proof (cases "exhausted \<or> want \<le> 0 \<or> want \<le> int (length view)")
    case True
    then have "viewLimitedLoop db tx b e want reverse budget = viewWindow db tx b e budget reverse"
      using w by (simp add: viewLimitedLoop.simps [of db tx b e want reverse budget])
    then show ?thesis using True w by (intro exI [of _ budget]) simp
  next
    case False
    then have "viewLimitedLoop db tx b e want reverse budget = viewLimitedLoop db tx b e want reverse (budget * 2)"
      using w by (simp add: viewLimitedLoop.simps [of db tx b e want reverse budget])
    then show ?thesis using "1.IH" [OF refl w [symmetric] False] by simp
  qed
qed

lemma filter_prefix:
  fixes R :: "('k :: linorder \<times> 'v) list"
  assumes "sorted_wrt (<) (map fst R)"
  shows "filter (\<lambda>x. fst x < c) R = take (length (filter (\<lambda>x. fst x < c) R)) R"
    and "filter (\<lambda>x. c \<le> fst x) R = drop (length R - length (filter (\<lambda>x. c \<le> fst x) R)) R"
proof -
  have tw: "takeWhile (\<lambda>x. fst x < c) R = filter (\<lambda>x. fst x < c) R"
    and dw: "dropWhile (\<lambda>x. fst x < c) R = filter (\<lambda>x. c \<le> fst x) R"
    using sorted_takeWhile [OF assms] by simp_all
  have R: "R = filter (\<lambda>x. fst x < c) R @ filter (\<lambda>x. c \<le> fst x) R"
    using takeWhile_dropWhile_id [of "\<lambda>x. fst x < c" R] tw dw by simp
  show "filter (\<lambda>x. fst x < c) R = take (length (filter (\<lambda>x. fst x < c) R)) R"
    using takeWhile_eq_take [of "\<lambda>x. fst x < c" R] tw by simp
  have "length R - length (filter (\<lambda>x. c \<le> fst x) R) = length (filter (\<lambda>x. fst x < c) R)"
    using arg_cong [OF R, of length] by simp
  then show "filter (\<lambda>x. c \<le> fst x) R = drop (length R - length (filter (\<lambda>x. c \<le> fst x) R)) R"
    using dropWhile_eq_drop [of "\<lambda>x. fst x < c" R] tw dw by simp
qed


abbreviation viewIn :: "simDB \<Rightarrow> simTxn \<Rightarrow> bytes \<Rightarrow> bytes \<Rightarrow> row list" where
  "viewIn db tx b e \<equiv> filter (\<lambda>x. b \<le> fst x \<and> fst x < e) (buildView db tx)"

lemma sorted_viewIn: "store_inv (store db) u \<Longrightarrow> sorted_wrt (<) (map fst (viewIn db tx b e))"
  using buildView_spec(1) [of db u tx] by (simp add: sorted_wrt_map sorted_wrt_filter)

lemma viewIn_empty: "e \<le> b \<Longrightarrow> viewIn db tx b e = []"
  by (auto simp: filter_empty_conv dest: le_less_trans leD)

lemma viewIn_sub: "b \<le> b' \<Longrightarrow> e' \<le> e \<Longrightarrow>
    viewIn db tx b' e' = filter (\<lambda>x. b' \<le> fst x \<and> fst x < e') (viewIn db tx b e)"
  by (auto simp: intro!: filter_cong dest: order_trans less_le_trans)

lemma viewWindow_page:
  assumes inv: "store_inv (store db) u" and w: "viewWindow db tx b e budget reverse = (view, exhausted)"
    and R: "R = viewIn db tx b e"
  shows "if exhausted then view = R
    else 0 < budget \<and> view = (if reverse then drop (length R - length view) R else take (length view) R)"
proof -
  define r where "r = rangeAtLimited (store db) b e (readVersion tx) budget reverse"
  have eq: "view = viewIn db tx (lrBegin r) (lrEnd r)" "exhausted = lrExhausted r"
    using w viewWindow_spec [OF inv r_def] by simp_all
  note spec = rangeAtLimited_spec [OF inv r_def refl] and ends = rangeAtLimited_ends [OF inv r_def]
  have sorted: "sorted_wrt (<) (map fst R)" unfolding R using inv by (rule sorted_viewIn)
  show ?thesis
  proof (cases exhausted)
    case True
    then show ?thesis using eq ends R by simp
  next
    case False
    then have "0 < budget" using spec eq by (simp split: if_splits)
    moreover have "view = (if reverse then drop (length R - length view) R else take (length view) R)"
    proof (cases reverse)
      case True
      have "lrEnd r = e" "b \<le> lrBegin r" using ends spec True by simp_all
      then have "view = filter (\<lambda>x. lrBegin r \<le> fst x) R"
        unfolding eq(1) R by (auto intro!: filter_cong dest: order_trans)
      then show ?thesis using filter_prefix(2) [OF sorted, of "lrBegin r"] True by simp
    next
      case False
      have "lrBegin r = b" "lrEnd r \<le> e" using ends spec False by simp_all
      then have "view = filter (\<lambda>x. fst x < lrEnd r) R"
        unfolding eq(1) R by (auto intro!: filter_cong dest: less_le_trans)
      then show ?thesis using filter_prefix(1) [OF sorted, of "lrEnd r"] False by simp
    qed
    ultimately show ?thesis using False by simp
  qed
qed

lemma buildViewRangeLimited_spec:
  assumes inv: "store_inv (store db) u" and v: "buildViewRangeLimited db tx b e want reverse = (view, exhausted)"
    and R: "R = viewIn db tx b e"
  shows "if exhausted then view = R
    else 0 < want \<and> want \<le> int (length view) \<and>
      view = (if reverse then drop (length R - length view) R else take (length view) R)"
proof (cases "b < e")
  case False
  then have "view = []" exhausted using v by (auto simp: buildViewRangeLimited_def not_less split: if_splits)
  then show ?thesis using R viewIn_empty [of e b db tx] False by (simp add: not_less)
next
  case True
  then have loop: "viewLimitedLoop db tx b e want reverse want = (view, exhausted)"
    using v by (simp add: buildViewRangeLimited_def)
  show ?thesis
  proof (cases "want \<le> 0")
    case True
    then have "viewWindow db tx b e want reverse = (view, exhausted)"
      using loop by (simp add: viewLimitedLoop.simps [of db tx b e want reverse want] split: prod.splits)
    from viewWindow_page [OF inv this R] True show ?thesis by (simp split: if_splits)
  next
    case False
    obtain budget' where "viewWindow db tx b e budget' reverse = (view, exhausted)"
      "exhausted \<or> want \<le> int (length view)"
      using viewLimitedLoop_window [of db tx b e want reverse want] loop False by auto
    with viewWindow_page [OF inv this(1) R] False show ?thesis by (auto split: if_splits)
  qed
qed

lemma rangeRows_spec:
  assumes inv: "store_inv (store db) u"
    and D: "D = (if reverse then rev (viewIn db tx b e) else viewIn db tx b e)"
  shows "rangeRows db tx b e limit reverse =
    (if 0 < limit \<and> limit \<le> int (length D) then (take (nat limit) D, True) else (D, False))"
proof -
  obtain view exhausted where v: "buildViewRangeLimited db tx b e limit reverse = (view, exhausted)" by fastforce
  note spec = buildViewRangeLimited_spec [OF inv v refl]
  let ?V = "if reverse then rev view else view"
  show ?thesis
  proof (cases exhausted)
    case True
    then have "?V = D" using spec D by simp
    then show ?thesis using v by (auto simp: rangeRows_def Let_def)
  next
    case False
    then have lim: "0 < limit" "limit \<le> int (length view)" using spec by simp_all
    define n R where "n = length view" and "R = viewIn db tx b e"
    have view: "view = (if reverse then drop (length R - n) R else take n R)"
      unfolding n_def R_def using spec [unfolded if_not_P [OF False]] by (elim conjE)
    then have n: "n \<le> length R" using arg_cong [OF view, of length] n_def by (simp split: if_splits)
    have "?V = take n D"
    proof (cases reverse)
      case True
      then have "?V = rev (drop (length R - n) R)" using view by simp
      also have "\<dots> = take n (rev R)" using n by (simp add: rev_drop)
      finally show ?thesis using True D by (simp add: R_def)
    next
      case False
      then show ?thesis using view D by (simp add: R_def)
    qed
    moreover have "length D = length R" using D by (simp add: R_def)
    ultimately show ?thesis using v lim n n_def by (simp add: rangeRows_def Let_def)
  qed
qed

section \<open>The conflict filter\<close>

text \<open>
  A key that does not conflict resolves to the same value over every snapshot: its last operation replaced
  the value, or followed a clear.
\<close>

lemma directStep_independent:
  "case foldl (directStep k) (False, False, False) ms of (hasOp, dep, cleared) \<Rightarrow>
     (hasOp \<and> \<not> dep \<longrightarrow> foldl (replayStep k) x ms = foldl (replayStep k) y ms) \<and>
     (\<not> hasOp \<and> cleared \<longrightarrow> foldl (replayStep k) x ms = None \<and> foldl (replayStep k) y ms = None)"
proof (induction ms rule: rev_induct)
  case (snoc m ms)
  define X Y where "X = foldl (replayStep k) x ms" and "Y = foldl (replayStep k) y ms"
  obtain h d c where st: "foldl (directStep k) (False, False, False) ms = (h, d, c)"
    by (cases "foldl (directStep k) (False, False, False) ms")
  have "h \<and> \<not> d \<longrightarrow> X = Y" "\<not> h \<and> c \<longrightarrow> X = None \<and> Y = None"
    using snoc unfolding st X_def Y_def by simp_all
  then show ?case
    unfolding foldl_append foldl_Cons foldl_Nil st X_def [symmetric] Y_def [symmetric]
    by (cases "mkind m") (auto simp: directStep_def replayStep_def)
qed simp

lemma conflictForKeyDirect_independent:
  "\<not> conflictForKeyDirect ms k \<Longrightarrow> foldl (replayStep k) x ms = foldl (replayStep k) y ms"
  using directStep_independent [where k = k and ms = ms and x = x and y = y]
  by (auto simp: conflictForKeyDirect_def split: prod.splits if_splits)


lemma buildViewRange_eq: "store_inv (store db) v \<Longrightarrow> buildViewRange db tx b e = viewIn db tx b e"
  using buildViewRangeLimited_spec [of db v tx b e 0 False "fst (buildViewRangeLimited db tx b e 0 False)"
      "snd (buildViewRangeLimited db tx b e 0 False)"]
  by (simp add: buildViewRange_def split: if_splits)

section \<open>Properties\<close>

text \<open>A small database and a transaction with pending writes, for the witnesses.\<close>

definition exampleDB :: simDB where
  "exampleDB =
     (newSimDB None)\<lparr>lastVersion := 3, store := \<lparr>entries =
       [\<lparr>entryKey = [1], entryHistory = [\<lparr>vvVersion = 2, vvValue = Some [7]\<rparr>]\<rparr>,
        \<lparr>entryKey = [2], entryHistory = [\<lparr>vvVersion = 3, vvValue = Some [8]\<rparr>]\<rparr>,
        \<lparr>entryKey = [4], entryHistory = [\<lparr>vvVersion = 3, vvValue = Some []\<rparr>]\<rparr>]\<rparr>\<rparr>"

definition exampleTxn :: simTxn where
  "exampleTxn =
     txnAtomic (txnClear (txnSet (ensureReadVersion exampleDB newTxn) [3] (Some [5])) [2]) atomicAdd [1] (Some [1])"

lemma exampleDB_inv: "store_inv (store exampleDB) 3"
  by (simp add: exampleDB_def store_inv_def)

text \<open>
  (C11) Point reads and range reads agree.  The view of a window has its keys in strictly ascending
  order, and every key of the window has there the value that a read of that key resolves to from the
  snapshot and the pending writes; a key outside the window is not in it.
\<close>

theorem view_resolveKey:
  assumes "store_inv (store db) v"
  shows "sorted_wrt (<) (map fst (buildViewRange db tx b e)) \<and>
    (case map_of (buildViewRange db tx b e) key of None \<Rightarrow> None | Some val \<Rightarrow> val) =
      (if b \<le> key \<and> key < e then resolveKey db tx key else None)"
  using sorted_viewIn [OF assms, of b e tx] map_of_filter_key [of "\<lambda>k. b \<le> k \<and> k < e" "buildView db tx" key]
    buildView_spec(2) [OF assms, of tx key] viewOf_resolveKey [of db tx key]
  by (simp add: bind_id_case buildViewRange_eq [OF assms])

theorem view_resolveKey_witness:
  "map_of (buildViewRange exampleDB exampleTxn [] [9]) [1] = Some (Some [8]) \<and>
   resolveKey exampleDB exampleTxn [1] = Some [8]"
proof -
  have "map_of (buildViewRange exampleDB exampleTxn [] [9]) [1] = Some (Some [8])" by code_simp
  with view_resolveKey [OF exampleDB_inv, of exampleTxn "[]" "[9]" "[1]"] show ?thesis by simp
qed

text \<open>
  (C18) A page of a view, built from bounded reads of the store that are widened while pending clears
  leave it short, is a page of the whole view: if the range was exhausted it is the whole view of the
  range, otherwise it has at least the number of rows wanted and is the front of that view, or its back
  when the read runs in reverse.  The widening always ends.
\<close>

theorem buildViewRangeLimited_page:
  assumes "store_inv (store db) v" and "buildViewRangeLimited db tx b e want reverse = (view, exhausted)"
    and "R = buildViewRange db tx b e"
  shows "if exhausted then view = R
    else 0 < want \<and> want \<le> int (length view) \<and>
      view = (if reverse then drop (length R - length view) R else take (length view) R)"
  using assms(3) unfolding buildViewRange_eq [OF assms(1)] by (rule buildViewRangeLimited_spec [OF assms(1,2)])

theorem buildViewRangeLimited_page_witness:
  "fst (buildViewRangeLimited exampleDB exampleTxn [] [9] 2 True) = drop 1 (buildViewRange exampleDB exampleTxn [] [9])"
proof -
  have R: "buildViewRange exampleDB exampleTxn [] [9] = [([1], Some [8]), ([3], Some [5]), ([4], Some [])]" by code_simp
  have v: "buildViewRangeLimited exampleDB exampleTxn [] [9] 2 True = ([([3], Some [5]), ([4], Some [])], False)"
    by code_simp
  from buildViewRangeLimited_page [OF exampleDB_inv v refl] show ?thesis by (simp add: R v)
qed

text \<open>
  (C13) The filter on read conflicts is safe: a read of a key that takes no conflict returns the same
  value whatever the database holds and whatever version is read, so no concurrent write of the key can
  change what the transaction saw.
\<close>

theorem conflict_filter_sound:
  assumes "\<not> rywDisabled tx" and "readConflicts (addFilteredReadConflictKey tx key) = readConflicts tx"
  shows "resolveKey db tx key = resolveKey db' (tx\<lparr>readVersion := v\<rparr>) key"
proof -
  have "\<not> conflictForKeyDirect (buffer tx) key"
    using assms by (auto simp: addFilteredReadConflictKey_def addReadConflict_def)
  from conflictForKeyDirect_independent [OF this] assms(1) show ?thesis
    by (simp add: resolveKey_def Let_def)
qed

theorem conflict_filter_sound_witness:
  "resolveKey exampleDB exampleTxn [3] = resolveKey (newSimDB None) (exampleTxn\<lparr>readVersion := 9\<rparr>) [3] \<and>
   resolveKey exampleDB exampleTxn [3] = Some [5]"
proof -
  have "\<not> rywDisabled exampleTxn" by code_simp
  moreover have "readConflicts (addFilteredReadConflictKey exampleTxn [3]) = readConflicts exampleTxn" by code_simp
  moreover have "resolveKey exampleDB exampleTxn [3] = Some [5]" by code_simp
  ultimately show ?thesis using conflict_filter_sound [of exampleTxn "[3]" exampleDB "newSimDB None" 9] by simp
qed

end
