(* ===== verification/SimSelector.thy ===== *)
theory SimSelector
  imports SimView
begin

text \<open>
  Range reads whose bounds are key selectors (\<^verbatim>\<open>pkg/simfdb/selector_range.go\<close>,
  \<^verbatim>\<open>pkg/simfdb/selector_unreadable.go\<close>): one fetch resolves both selectors within the read, and its conflict
  range and its errors depend on what the transaction already knows of the keys in between.  The knowledge
  is a list of segments of the key space, and reducing a selector walks over the known ones.
\<close>

section \<open>Segments\<close>

record simSelectors =
  selOn :: bool
  selBegin :: KeySelector
  selEnd :: KeySelector

definition advance :: "simSelectors \<Rightarrow> bytes \<Rightarrow> bool \<Rightarrow> simSelectors" where
  "advance s lastKey reverse =
     (if reverse then s\<lparr>selEnd := FirstGreaterOrEqual lastKey\<rparr> else s\<lparr>selBegin := FirstGreaterThan lastKey\<rparr>)"

definition selectorsInverted :: "KeySelector \<Rightarrow> KeySelector \<Rightarrow> bool" where
  "selectorsInverted begin end \<longleftrightarrow> Offset begin \<ge> Offset end \<and> Key begin \<ge> Key end"

record selectorWriteSegment =
  segBegin :: bytes
  segEnd :: bytes
  segKnown :: bool
  segKv :: bool
  segUnreadable :: bool

definition segAdd :: "bytes \<Rightarrow> bytes list" where
  "segAdd key = (if length key > 0 \<and> key < endKeyMarker then [key] else [])"

definition extraKnown :: "simTxn \<Rightarrow> keyRange list \<Rightarrow> bytes \<Rightarrow> bool" where
  "extraKnown tx extra key =
     (if list_ex (\<lambda>r. rbegin r \<le> key \<and> key < rend r) extra then True else readKnown tx key)"

definition segmentBounds :: "simTxn \<Rightarrow> row list \<Rightarrow> bool \<Rightarrow> keyRange list \<Rightarrow> writeMap \<Rightarrow> bytes list" where
  "segmentBounds tx view allKnown extra wm =
     [[], endKeyMarker] @
     concat (map (\<lambda>r. segAdd (rbegin r) @ segAdd (rend r)) (knownReads tx)) @
     concat (map (\<lambda>r. segAdd (rbegin r) @ segAdd (rend r)) extra) @
     concat (map (\<lambda>x. if allKnown \<or> extraKnown tx extra (fst x) then segAdd (fst x) @ segAdd (keyAfter (fst x)) else []) view) @
     concat (map (\<lambda>x. segAdd (fst x) @ segAdd (keyAfter (fst x))) (wmOps wm)) @
     concat (map (\<lambda>r. segAdd (rbegin r) @ segAdd (rend r)) (wmCleared wm)) @
     concat (map (\<lambda>k. segAdd k @ segAdd (keyAfter k)) (unreadable tx)) @
     concat (map (\<lambda>r. segAdd (rbegin r) @ segAdd (rend r)) (unreadableRanges tx))"

definition segmentOf ::
  "simTxn \<Rightarrow> row list \<Rightarrow> bool \<Rightarrow> keyRange list \<Rightarrow> writeMap \<Rightarrow> bytes \<Rightarrow> bytes \<Rightarrow> selectorWriteSegment" where
  "segmentOf tx view allKnown extra wm lo hi =
     (let segment = \<lparr>segBegin = lo, segEnd = hi, segKnown = False, segKv = False, segUnreadable = isUnreadable tx lo\<rparr>
      in if \<not> segUnreadable segment
         then case map_of (wmOps wm) lo of
                Some op \<Rightarrow>
                  let known = (allKnown \<or> \<not> dependent op \<or> extraKnown tx extra lo)
                  in segment\<lparr>segKnown := known, segKv := known\<rparr>
              | None \<Rightarrow>
                  let known = (allKnown \<or> isCleared wm lo \<or> extraKnown tx extra lo)
                  in segment\<lparr>segKnown := known, segKv := known \<and> lo \<in> fst ` set view\<rparr>
         else segment)"

fun segmentLoop :: "(bytes \<Rightarrow> bytes \<Rightarrow> selectorWriteSegment) \<Rightarrow> bytes list \<Rightarrow> selectorWriteSegment list" where
  "segmentLoop mk (lo # hi # bounds) =
     (if lo = hi then segmentLoop mk (hi # bounds) else mk lo hi # segmentLoop mk (hi # bounds))"
| "segmentLoop mk bounds = []"

definition selectorSegments ::
  "simTxn \<Rightarrow> row list \<Rightarrow> bool \<Rightarrow> keyRange list \<Rightarrow> selectorWriteSegment list" where
  "selectorSegments tx view allKnown extra =
     (if \<not> allKnown \<and> length (buffer tx) = 0 \<and> length (knownReads tx) = 0 \<and> length extra = 0 then []
      else let wm = buildWriteMap (buffer tx)
           in segmentLoop (segmentOf tx view allKnown extra wm) (sort (segmentBounds tx view allKnown extra wm)))"

definition selectorWriteSegments :: "simTxn \<Rightarrow> row list \<Rightarrow> selectorWriteSegment list" where
  "selectorWriteSegments tx view = selectorSegments tx view False []"

section \<open>Reducing a selector\<close>

text \<open>
  The three loops of \<^verbatim>\<open>reduceSelectorKnown\<close>, with the index of the current segment.  The first segment
  starts at the empty key and the last one ends at \<^verbatim>\<open>\xff\<close>, at which the loops stop, so the index does not
  leave the list; the guard on it only makes the recursion well founded.
\<close>

function reduceForward ::
  "selectorWriteSegment list \<Rightarrow> int \<Rightarrow> nat \<Rightarrow> bytes \<Rightarrow> int \<times> nat \<times> bytes" where
  "reduceForward segments offset i key =
     (if offset > 1 \<and> i < length segments \<and> segKnown (segments ! i) \<and> segEnd (segments ! i) < endKeyMarker
      then reduceForward segments (if segKv (segments ! i) then offset - 1 else offset) (i + 1)
             (segBegin (segments ! (i + 1)))
      else (offset, i, key))"
  by pat_completeness auto
termination
  by (relation "measure (\<lambda>(segments, offset, i, key). length segments - i)") auto

declare reduceForward.simps [simp del]

fun reduceBackward ::
  "selectorWriteSegment list \<Rightarrow> int \<Rightarrow> nat \<Rightarrow> bytes \<Rightarrow> int \<times> nat \<times> bytes" where
  "reduceBackward segments offset i key =
     (if offset < 1 \<and> segKnown (segments ! i) \<and> length (segBegin (segments ! i)) \<noteq> 0 \<and> i > 0
      then if segKv (segments ! i)
           then if offset + 1 = 1 then (1, i, segBegin (segments ! i))
                else reduceBackward segments (offset + 1) (i - 1) (segEnd (segments ! (i - 1)))
           else reduceBackward segments offset (i - 1) (segEnd (segments ! (i - 1)))
      else (offset, i, key))"

declare reduceBackward.simps [simp del]

function skipEmpty :: "selectorWriteSegment list \<Rightarrow> nat \<Rightarrow> bytes \<Rightarrow> bytes" where
  "skipEmpty segments i key =
     (if i < length segments \<and> segKnown (segments ! i) \<and> \<not> segKv (segments ! i) \<and> segEnd (segments ! i) < endKeyMarker
      then skipEmpty segments (i + 1) (segBegin (segments ! (i + 1)))
      else key)"
  by pat_completeness auto
termination
  by (relation "measure (\<lambda>(segments, i, key). length segments - i)") auto

declare skipEmpty.simps [simp del]

definition reduceSelectorKnown :: "KeySelector \<Rightarrow> selectorWriteSegment list \<Rightarrow> KeySelector \<times> int" where
  "reduceSelectorKnown sel segments =
     (let actualOffset = Offset sel
      in if length segments = 0 then (sel, actualOffset)
         else
           let key = Key sel;
               i = sort_search (length segments) (\<lambda>i. segEnd (segments ! i) > key)
           in if i = length segments \<and> Offset sel > 0 then (sel, actualOffset)
              else
                let i = (if i = length segments then i - 1 else i);
                    i = (if Offset sel \<le> 0 \<and> i > 0 \<and> segBegin (segments ! i) = key then i - 1 else i);
                    (offset, i, key) = reduceForward segments (Offset sel) i key;
                    (offset, i, key) = reduceBackward segments offset i key;
                    actualOffset = (if actualOffset \<noteq> 1 then offset else actualOffset)
                in if segKnown (segments ! i) \<and> offset < 1 then (FirstGreaterOrEqual [], actualOffset)
                   else if segKnown (segments ! i) \<and> offset > 1 then (FirstGreaterOrEqual endKeyMarker, actualOffset)
                   else (sel\<lparr>Key := skipEmpty segments i key, Offset := offset\<rparr>, actualOffset))"

definition reduceSelectorFromWrites :: "KeySelector \<Rightarrow> selectorWriteSegment list \<Rightarrow> KeySelector" where
  "reduceSelectorFromWrites sel segments = fst (reduceSelectorKnown sel segments)"

section \<open>Conflict spans\<close>

definition rywRangeConflictSpan ::
  "KeySelector \<Rightarrow> KeySelector \<Rightarrow> row list \<Rightarrow> bool \<Rightarrow> bool \<Rightarrow> bool \<Rightarrow> bool \<Rightarrow> bytes \<Rightarrow> bytes \<times> bytes" where
  "rywRangeConflictSpan begin end kvs hasMore readToBegin readThroughEnd reverse maxKey =
     (let bk = Key begin; ek = Key end;
          (rangeBegin, rangeEnd) =
            (if bk < ek
             then (if reverse \<and> Offset begin \<le> 1 \<and> hasMore then ek else bk,
                   if \<not> reverse \<and> Offset end > 0 \<and> hasMore then bk else ek)
             else (ek, bk));
          rangeBegin = (if readToBegin \<and> Offset begin \<le> 0 then [] else rangeBegin);
          rangeEnd = (if readThroughEnd \<and> Offset end > 0 then maxKey else rangeEnd)
      in if length kvs = 0 then (rangeBegin, rangeEnd)
         else
           let firstKey = fst (hd kvs); lastKey = fst (last kvs)
           in if \<not> reverse
              then (if Offset begin \<le> 0 \<and> firstKey < rangeBegin then firstKey else rangeBegin,
                    if rangeEnd \<le> lastKey then keyAfter lastKey else rangeEnd)
              else (if lastKey < rangeBegin then lastKey else rangeBegin,
                    if Offset end > 0 \<and> rangeEnd \<le> firstKey then keyAfter firstKey else rangeEnd))"

abbreviation allKeysEnd :: bytes where "allKeysEnd \<equiv> [0xFF, 0xFF]"

definition getRangeFinishedConflict ::
  "KeySelector \<Rightarrow> KeySelector \<Rightarrow> row list \<Rightarrow> bool \<Rightarrow> bool \<Rightarrow> bool \<Rightarrow> bool \<Rightarrow> bytes \<times> bytes" where
  "getRangeFinishedConflict begin end kvs hasMore readToBegin readThroughEnd reverse =
     (let bk = Key begin; ek = Key end; n = length kvs;
          rangeBegin =
            (if readToBegin then []
             else if ((\<not> reverse \<or> \<not> hasMore \<or> Offset begin > 1) \<and> Offset begin > 0) \<or> n = 0 then bk
             else if reverse then fst (last kvs) else fst (hd kvs));
          rangeBegin = (if Offset end > Offset begin \<and> ek < rangeBegin then ek else rangeBegin);
          rangeEnd =
            (if readThroughEnd then allKeysEnd
             else if ((reverse \<or> \<not> hasMore \<or> Offset end \<le> 0) \<and> Offset end \<le> 1) \<or> n = 0 then ek
             else if reverse then keyAfter (fst (hd kvs)) else keyAfter (fst (last kvs)));
          rangeEnd = (if Offset begin < Offset end \<and> bk > rangeEnd then bk else rangeEnd)
      in (rangeBegin, rangeEnd))"


section \<open>Unreadable data\<close>

text \<open>The walk over the segments from the scan origin, in the direction of the scan.\<close>

fun unreadableWalk ::
  "selectorWriteSegment list \<Rightarrow> KeySelector \<Rightarrow> bool \<Rightarrow> int \<Rightarrow> bytes set \<Rightarrow> bool \<Rightarrow> nat \<Rightarrow> nat \<Rightarrow> int \<Rightarrow> bool \<Rightarrow> int option" where
  "unreadableWalk [] far reverse lookahead present hasMore n seen past reached = None"
| "unreadableWalk (s # segments) far reverse lookahead present hasMore n seen past reached =
     (if isTrivialSelector far \<and> ((\<not> reverse \<and> segBegin s \<ge> Key far) \<or> (reverse \<and> segEnd s \<le> Key far)) then None
      else if reached \<and> past \<ge> lookahead then None
      else if segUnreadable s then Some 1036
      else if segKv s \<and> segBegin s \<in> present
      then if reached
           then unreadableWalk segments far reverse lookahead present hasMore n seen (past + 1) reached
           else unreadableWalk segments far reverse lookahead present hasMore n (seen + 1) past
                  (hasMore \<and> seen + 1 \<ge> n)
      else unreadableWalk segments far reverse lookahead present hasMore n seen past reached)"

definition reducedEmpty :: "KeySelector \<Rightarrow> KeySelector \<Rightarrow> int \<Rightarrow> int \<Rightarrow> bool" where
  "reducedEmpty b e ab ae \<longleftrightarrow>
     ab \<ge> ae \<and> Key b \<ge> Key e \<or>
     isTrivialSelector b \<and> Key b = endKeyMarker \<or>
     isTrivialSelector e \<and> length (Key e) = 0"

definition selectorUnreadableError ::
  "simTxn \<Rightarrow> row list \<Rightarrow> KeySelector \<Rightarrow> KeySelector \<Rightarrow> selectorWriteSegment list \<Rightarrow> row list \<Rightarrow> bool \<Rightarrow> bool \<Rightarrow> int option" where
  "selectorUnreadableError tx view begin end known kvs hasMore reverse =
     (if rywDisabled tx \<or> bypassUnreadable tx \<or> \<not> hasUnreadable tx then None
      else
        let (initialBegin, actualBegin) = reduceSelectorKnown begin known;
            (initialEnd, actualEnd) = reduceSelectorKnown end known
        in if reducedEmpty initialBegin initialEnd actualBegin actualEnd then None
           else
             let sel = (if reverse then initialBegin else initialEnd);
                 (lo, hi) = selectorReadSpan view sel
             in if Key initialBegin > Key initialEnd \<and> \<not> isTrivialSelector sel \<and> unreadableScanCap tx lo hi False \<noteq> None
                then Some 1036
                else
                  let segments = selectorSegments tx view True [];
                      (begin, actualBegin) = reduceSelectorKnown begin segments;
                      (end, actualEnd) = reduceSelectorKnown end segments
                  in if reducedEmpty begin end actualBegin actualEnd then None
                     else
                       let (origin, far) = (if reverse then (end, begin) else (begin, end));
                           lookahead = (if reverse then Offset begin - 1 else 1 - Offset end)
                       in if \<not> isTrivialSelector origin then Some 1036
                          else
                            let key = Key origin;
                                i = int (sort_search (length segments) (\<lambda>i. segEnd (segments ! i) > key));
                                i = (if reverse \<and> (i = int (length segments) \<or> segBegin (segments ! nat i) = key) then i - 1 else i)
                            in unreadableWalk (if reverse then rev (take (nat (i + 1)) segments) else drop (nat i) segments)
                                 far reverse lookahead (fst ` set view) hasMore (length kvs) 0 0 False)"

section \<open>One fetch\<close>

text \<open>The flags that widen the conflict of a fetch to the ends of the key space.\<close>

definition selectorReadFlags ::
  "simTxn \<Rightarrow> row list \<Rightarrow> KeySelector \<Rightarrow> KeySelector \<Rightarrow> KeySelector \<Rightarrow> KeySelector \<Rightarrow> row list \<Rightarrow> bool \<Rightarrow> bool \<Rightarrow> bool \<times> bool" where
  "selectorReadFlags tx view begin end reducedBegin reducedEnd kvs hasMore reverse =
     (let bIdx = resolveSelector view begin; eIdx = resolveSelector view end;
          (readToBegin, readThroughEnd) =
            (if Key reducedBegin \<le> Key reducedEnd
             then
               let readBegin = (if Offset reducedBegin > 1 then FirstGreaterOrEqual (Key reducedBegin) else reducedBegin);
                   readEnd = (if Offset reducedEnd < 1 then FirstGreaterOrEqual (Key reducedEnd) else reducedEnd);
                   known = selectorSegments tx view False
                     [\<lparr>rbegin = resolveRangeBound view readBegin, rend = resolveRangeBound view readEnd\<rparr>];
                   (rb, ab) = reduceSelectorKnown begin known;
                   (re, ae) = reduceSelectorKnown end known
               in if length kvs = 0 \<and> ab \<ge> ae \<and> Key rb \<ge> Key re then (False, False)
                  else (ab < 1 \<and> length (Key rb) = 0 \<or> ae < 1 \<and> length (Key re) = 0,
                        ab > 1 \<and> Key rb = endKeyMarker \<or> ae > 1 \<and> Key re = endKeyMarker)
             else
               let readToBegin = (bIdx < 0 \<or> eIdx < 0);
                   readThroughEnd = (bIdx > int (length view) \<or> eIdx > int (length view))
               in if reverse \<and> \<not> isTrivialSelector reducedBegin \<and> bIdx \<ge> int (length view) \<or>
                     \<not> reverse \<and> \<not> isTrivialSelector reducedEnd \<and> eIdx \<ge> int (length view)
                  then (readToBegin, True) else (readToBegin, readThroughEnd))
      in if reverse then (readToBegin \<and> \<not> hasMore, readThroughEnd)
         else (readToBegin, readThroughEnd \<and> \<not> hasMore))"

text \<open>
  The rows of a fetch and its conflict, after the end selector of a reverse read without the write map
  has been resolved.
\<close>

definition selectorFetchRows ::
  "simDB \<Rightarrow> simTxn \<Rightarrow> row list \<Rightarrow> selectorWriteSegment list \<Rightarrow> KeySelector \<Rightarrow> KeySelector \<Rightarrow> KeySelector \<Rightarrow> KeySelector \<Rightarrow>
     int \<Rightarrow> int \<Rightarrow> bool \<Rightarrow> bool \<Rightarrow> simTxn \<times> (int, row list \<times> bool) result" where
  "selectorFetchRows db tx view segments reducedBegin reducedEnd begin end limit byteTarget reverse snapshot =
     (let bIdx = resolveSelector view begin;
          b = resolveRangeBound view begin; e = resolveRangeBound view end;
          (tx, fetched) =
            (if b < e then fetchRange db tx b e limit byteTarget reverse else (tx, Inr ([], False, [], [])))
      in case fetched of
           Inl err \<Rightarrow> (tx, Inl err)
         | Inr (kvs, hasMore, _, _) \<Rightarrow>
             (case selectorUnreadableError tx view begin end segments kvs hasMore reverse of
                Some err \<Rightarrow> (tx, Inl err)
              | None \<Rightarrow>
                  if snapshot then (tx, Inr (kvs, hasMore))
                  else if rywDisabled tx
                  then let readToBegin = (length (Key begin) = 0 \<and> Offset begin < 1 \<or> bIdx < 0 \<and> (\<not> reverse \<or> \<not> hasMore));
                           (cb, ce) = getRangeFinishedConflict begin end kvs hasMore readToBegin False reverse
                       in (addFilteredReadConflict tx cb ce, Inr (kvs, hasMore))
                  else let (readToBegin, readThroughEnd) =
                             selectorReadFlags tx view begin end reducedBegin reducedEnd kvs hasMore reverse;
                           (cb, ce) = rywRangeConflictSpan begin end kvs hasMore readToBegin readThroughEnd reverse endKeyMarker
                       in (addFilteredReadConflict tx cb ce, Inr (kvs, hasMore))))"

definition selectorFetch ::
  "simDB \<Rightarrow> simTxn \<Rightarrow> KeySelector \<Rightarrow> KeySelector \<Rightarrow> int \<Rightarrow> int \<Rightarrow> bool \<Rightarrow> bool \<Rightarrow> simTxn \<times> (int, row list \<times> bool) result" where
  "selectorFetch db tx begin end limit byteTarget reverse snapshot =
     (if cancelled tx then (tx, Inl 1025)
      else
        let tx = ensureReadVersion db tx;
            begin = removeOrEqual begin; end = removeOrEqual end
        in if selectorsInverted begin end then (tx, Inr ([], False))
           else
             let view = buildView db tx;
                 segments = selectorWriteSegments tx view;
                 reducedBegin = reduceSelectorFromWrites begin segments;
                 reducedEnd = reduceSelectorFromWrites end segments
             in if rywDisabled tx \<and> reverse \<and> Offset end > 1
                then let key = resolveRangeBound view end;
                         tx = (if \<not> snapshot then addGetKeyConflictRange tx end key else tx);
                         end = FirstGreaterOrEqual key
                     in if selectorsInverted begin end then (tx, Inr ([], False))
                        else selectorFetchRows db tx view segments reducedBegin reducedEnd begin end limit byteTarget reverse snapshot
                else selectorFetchRows db tx view segments reducedBegin reducedEnd begin end limit byteTarget reverse snapshot)"

end
