(* ===== verification/SimRange.thy ===== *)
theory SimRange
  imports SimSelector
begin

text \<open>
  Range reads of the simulated transaction (\<^verbatim>\<open>pkg/simfdb/range_result.go\<close>, with the byte targets of
  \<^verbatim>\<open>pkg/fdbgo/fdb/modebytes.go\<close>): the first batch is fetched by the call, later ones by the iterator or by the
  loop that collects the whole result, and each batch takes its own read conflict.  The result and its
  iterator point to their transaction, which is an argument here; the trace log is left out.
\<close>

section \<open>Streaming modes\<close>

text \<open>The numbers of the modes are those of the Go type.\<close>

abbreviation StreamingModeWantAll :: int where "StreamingModeWantAll \<equiv> -1"
abbreviation StreamingModeIterator :: int where "StreamingModeIterator \<equiv> 0"
abbreviation StreamingModeExact :: int where "StreamingModeExact \<equiv> 1"
abbreviation StreamingModeSerial :: int where "StreamingModeSerial \<equiv> 5"

definition modeBytesTable :: "int list" where
  "modeBytesTable = [ByteLimitUnlimited, 256, 1000, 4096, 80000]"

definition iterationProgression :: "int list" where
  "iterationProgression = [4096, 6144, 9216, 13824, 20736, 31104, 46656, 69984, 80000, 120000]"

definition cModeIndex :: "int \<Rightarrow> int" where
  "cModeIndex mode = mode - 1"

definition modeTargetBytes :: "int \<Rightarrow> int \<Rightarrow> (int, int) result" where
  "modeTargetBytes mode iteration =
     (let mode = (if mode = StreamingModeWantAll then StreamingModeSerial else mode);
          maxIteration = int (length iterationProgression)
      in if mode = StreamingModeIterator
         then if iteration \<le> 0 then Inl 2000
              else let iteration = (if iteration > maxIteration then maxIteration else iteration)
                   in Inr (iterationProgression ! nat (iteration - 1))
         else let i = cModeIndex mode
              in if i < 0 \<or> i \<ge> int (length modeBytesTable) then Inl 2000 else Inr (modeBytesTable ! nat i))"

definition EffectiveRowLimit :: "int \<Rightarrow> int" where
  "EffectiveRowLimit limit = (if limit = 0 \<or> limit = -1 then 2147483647 else limit)"

section \<open>The first batch\<close>

abbreviation replyByteLimit :: int where "replyByteLimit \<equiv> 80000"

text \<open>\<open>fbErr\<close> is the error of the batch; a batch without selectors has \<open>selOn\<close> false.\<close>

record simFirstBatch =
  fbBegin :: bytes
  fbEnd :: bytes
  fbSel :: simSelectors
  fbLimit :: int
  fbBatch :: "row list"
  fbMore :: bool
  fbErr :: "int option"

definition noSelectors :: simSelectors where
  "noSelectors = \<lparr>selOn = False, selBegin = \<lparr>Key = [], OrEqual = False, Offset = 0\<rparr>,
     selEnd = \<lparr>Key = [], OrEqual = False, Offset = 0\<rparr>\<rparr>"

definition emptyFirst :: simFirstBatch where
  "emptyFirst = \<lparr>fbBegin = [], fbEnd = [], fbSel = noSelectors, fbLimit = 0, fbBatch = [], fbMore = False, fbErr = None\<rparr>"

definition addConflict :: "simTxn \<Rightarrow> RangeOptions \<Rightarrow> bytes \<Rightarrow> bytes \<Rightarrow> row list \<Rightarrow> bool \<Rightarrow> simTxn" where
  "addConflict tx opts begin end batch hasMore =
     (let (cb, ce) = rangeConflictExtent begin end batch hasMore (Reverse opts)
      in if cb < ce then addFilteredReadConflict tx cb ce else tx)"

definition issueFirstSelectors ::
  "simDB \<Rightarrow> simTxn \<Rightarrow> RangeOptions \<Rightarrow> bool \<Rightarrow> simFirstBatch \<Rightarrow> KeySelector \<Rightarrow> KeySelector \<Rightarrow> int \<Rightarrow> simTxn \<times> simFirstBatch" where
  "issueFirstSelectors db tx opts snapshot f begin end byteTarget =
     (if cancelled tx then (tx, f\<lparr>fbErr := Some 1025\<rparr>)
      else if Limit opts < -1 then (tx, f\<lparr>fbErr := Some 2012\<rparr>)
      else
        let limit = EffectiveRowLimit (Limit opts);
            f = f\<lparr>fbLimit := limit, fbSel := \<lparr>selOn = True, selBegin = begin, selEnd = end\<rparr>\<rparr>;
            want = min limit replyByteLimit
        in case selectorFetch db tx begin end want byteTarget (Reverse opts) snapshot of
             (tx, Inl err) \<Rightarrow> (tx, f\<lparr>fbErr := Some err\<rparr>)
           | (tx, Inr (batch, hasMore)) \<Rightarrow> (tx, f\<lparr>fbBatch := batch, fbMore := hasMore\<rparr>))"

definition issueFirst ::
  "simDB \<Rightarrow> simTxn \<Rightarrow> RangeOptions \<Rightarrow> bool \<Rightarrow> KeySelector \<Rightarrow> KeySelector \<Rightarrow> simTxn \<times> simFirstBatch" where
  "issueFirst db tx opts snapshot bks eks =
     (let f = emptyFirst
      in if Mode opts = StreamingModeExact \<and> (Limit opts = 0 \<or> Limit opts = -1) then (tx, f\<lparr>fbErr := Some 2210\<rparr>)
         else case modeTargetBytes (Mode opts) 1 of
           Inl err \<Rightarrow> (tx, f\<lparr>fbErr := Some err\<rparr>)
         | Inr byteTarget \<Rightarrow>
             if \<not> isTrivialSelector bks \<or> \<not> isTrivialSelector eks
             then issueFirstSelectors db tx opts snapshot f bks eks byteTarget
             else case resolveRangeForRead db tx bks eks of
               (tx, Inl err) \<Rightarrow> (tx, f\<lparr>fbErr := Some err\<rparr>)
             | (tx, Inr (begin, end)) \<Rightarrow>
                 let f = f\<lparr>fbBegin := begin, fbEnd := end\<rparr>
                 in if Limit opts < -1 then (tx, f\<lparr>fbErr := Some 2012\<rparr>)
                    else
                      let limit = EffectiveRowLimit (Limit opts);
                          f = f\<lparr>fbLimit := limit\<rparr>;
                          want = min limit replyByteLimit
                      in case fetchRange db tx begin end want byteTarget (Reverse opts) of
                           (tx, Inl err) \<Rightarrow> (tx, f\<lparr>fbErr := Some err\<rparr>)
                         | (tx, Inr (batch, hasMore, capBegin, capEnd)) \<Rightarrow>
                             (if \<not> snapshot then addConflict tx opts capBegin capEnd batch hasMore else tx,
                              f\<lparr>fbBatch := batch, fbMore := hasMore\<rparr>))"

definition takeFirst :: "simTxn \<Rightarrow> simFirstBatch \<Rightarrow> (int, row list) result" where
  "takeFirst tx f = (if cancelled tx then Inl 1025 else Inr (fbBatch f))"

section \<open>The whole result\<close>

function sliceLoop ::
  "simDB \<Rightarrow> simTxn \<Rightarrow> RangeOptions \<Rightarrow> bool \<Rightarrow> bytes \<Rightarrow> bytes \<Rightarrow> int \<Rightarrow> row list \<Rightarrow> bool \<Rightarrow> simTxn \<times> (int, row list) result" where
  "sliceLoop db tx opts snapshot begin end remaining kvs hasMore =
     (if hasMore \<and> remaining > 0 \<and> length kvs > 0
      then
        let lastKey = fst (last kvs);
            end = (if Reverse opts then lastKey else end);
            begin = (if Reverse opts then begin else keyAfter lastKey)
        in case fetchRange db tx begin end remaining ByteLimitUnlimited (Reverse opts) of
             (tx, Inl err) \<Rightarrow> (tx, Inl err)
           | (tx, Inr (rest, restMore, capBegin, capEnd)) \<Rightarrow>
               let tx = (if \<not> snapshot then addConflict tx opts capBegin capEnd rest restMore else tx)
               in if length rest = 0 then (tx, Inr kvs)
                  else sliceLoop db tx opts snapshot begin end (remaining - int (length rest)) (kvs @ rest) restMore
      else (tx, Inr kvs))"
  by pat_completeness auto
termination
  by (relation "measure (\<lambda>(db, tx, opts, snapshot, begin, end, remaining, kvs, hasMore). nat remaining)") auto

declare sliceLoop.simps [simp del]

function selectorSliceLoop ::
  "simDB \<Rightarrow> simTxn \<Rightarrow> RangeOptions \<Rightarrow> bool \<Rightarrow> simSelectors \<Rightarrow> int \<Rightarrow> row list \<Rightarrow> bool \<Rightarrow> simTxn \<times> (int, row list) result" where
  "selectorSliceLoop db tx opts snapshot sel remaining kvs hasMore =
     (if hasMore \<and> remaining > 0 \<and> length kvs > 0
      then
        let sel = advance sel (fst (last kvs)) (Reverse opts)
        in case selectorFetch db tx (selBegin sel) (selEnd sel) remaining ByteLimitUnlimited (Reverse opts) snapshot of
             (tx, Inl err) \<Rightarrow> (tx, Inl err)
           | (tx, Inr (rest, restMore)) \<Rightarrow>
               if length rest = 0 then (tx, Inr kvs)
               else selectorSliceLoop db tx opts snapshot sel (remaining - int (length rest)) (kvs @ rest) restMore
      else (tx, Inr kvs))"
  by pat_completeness auto
termination
  by (relation "measure (\<lambda>(db, tx, opts, snapshot, sel, remaining, kvs, hasMore). nat remaining)") auto

declare selectorSliceLoop.simps [simp del]

definition GetSliceWithError ::
  "simDB \<Rightarrow> simTxn \<Rightarrow> RangeOptions \<Rightarrow> bool \<Rightarrow> simFirstBatch \<Rightarrow> simTxn \<times> (int, row list) result" where
  "GetSliceWithError db tx opts snapshot f =
     (case fbErr f of
        Some err \<Rightarrow> (tx, Inl err)
      | None \<Rightarrow>
          (case takeFirst tx f of
             Inl err \<Rightarrow> (tx, Inl err)
           | Inr kvs \<Rightarrow>
               let remaining = fbLimit f - int (length kvs)
               in if selOn (fbSel f) then selectorSliceLoop db tx opts snapshot (fbSel f) remaining kvs (fbMore f)
                  else sliceLoop db tx opts snapshot (fbBegin f) (fbEnd f) remaining kvs (fbMore f)))"

text \<open>A range read that is collected as a whole.\<close>

definition getRangeSlice ::
  "simDB \<Rightarrow> simTxn \<Rightarrow> RangeOptions \<Rightarrow> bool \<Rightarrow> KeySelector \<Rightarrow> KeySelector \<Rightarrow> simTxn \<times> (int, row list) result" where
  "getRangeSlice db tx opts snapshot bks eks =
     (let (tx, f) = issueFirst db tx opts snapshot bks eks in GetSliceWithError db tx opts snapshot f)"

section \<open>The iterator\<close>

record rangeIter =
  itErr :: "int option"
  itBatch :: "row list"
  itIdx :: int
  itPos :: nat
  itRemaining :: int
  itIteration :: int
  itExhausted :: bool
  itScanBegin :: bytes
  itScanEnd :: bytes
  itSel :: simSelectors
  itFirst :: "simFirstBatch option"

definition Iterator :: "simFirstBatch \<Rightarrow> rangeIter" where
  "Iterator f =
     (let it = \<lparr>itErr = None, itBatch = [], itIdx = -1, itPos = 0, itRemaining = 0, itIteration = 0, itExhausted = False,
        itScanBegin = [], itScanEnd = [], itSel = noSelectors, itFirst = None\<rparr>
      in if fbErr f \<noteq> None then it\<lparr>itErr := fbErr f\<rparr>
         else it\<lparr>itRemaining := fbLimit f, itIteration := 1, itScanBegin := fbBegin f, itScanEnd := fbEnd f,
                itSel := fbSel f, itFirst := Some f\<rparr>)"

definition takeBatch :: "rangeIter \<Rightarrow> RangeOptions \<Rightarrow> row list \<Rightarrow> bool \<Rightarrow> rangeIter \<times> bool" where
  "takeBatch it opts batch hasMore =
     (if length batch = 0 then (it\<lparr>itExhausted := True\<rparr>, False)
      else
        let it = it\<lparr>itBatch := batch, itIdx := 0, itPos := 1, itRemaining := itRemaining it - int (length batch)\<rparr>;
            lastKey = fst (last batch);
            it = (if selOn (itSel it) then it\<lparr>itSel := advance (itSel it) lastKey (Reverse opts)\<rparr>
                  else if Reverse opts then it\<lparr>itScanEnd := lastKey\<rparr>
                  else it\<lparr>itScanBegin := keyAfter lastKey\<rparr>)
        in (if \<not> hasMore \<or> itRemaining it \<le> 0 then it\<lparr>itExhausted := True\<rparr> else it, True))"

definition failIter :: "rangeIter \<Rightarrow> int \<Rightarrow> rangeIter \<times> bool" where
  "failIter it err = (it\<lparr>itErr := Some err, itExhausted := True\<rparr>, False)"

definition fetchBatch ::
  "simDB \<Rightarrow> simTxn \<Rightarrow> RangeOptions \<Rightarrow> bool \<Rightarrow> rangeIter \<Rightarrow> simTxn \<times> rangeIter \<times> bool" where
  "fetchBatch db tx opts snapshot it =
     (case itFirst it of
        Some f \<Rightarrow>
          (let it = it\<lparr>itFirst := None, itIteration := itIteration it + 1\<rparr>
           in case takeFirst tx f of
                Inl err \<Rightarrow> (tx, failIter it err)
              | Inr kvs \<Rightarrow> (tx, takeBatch it opts kvs (fbMore f)))
      | None \<Rightarrow>
          (case modeTargetBytes (Mode opts) (itIteration it) of
             Inl err \<Rightarrow> (tx, failIter it err)
           | Inr byteTarget \<Rightarrow>
               let want = (if itRemaining it > replyByteLimit then replyByteLimit else itRemaining it);
                   it = it\<lparr>itIteration := itIteration it + 1\<rparr>
               in if want \<le> 0 then (tx, it\<lparr>itExhausted := True\<rparr>, False)
                  else if selOn (itSel it)
                  then case selectorFetch db tx (selBegin (itSel it)) (selEnd (itSel it)) want byteTarget (Reverse opts) snapshot of
                         (tx, Inl err) \<Rightarrow> (tx, failIter it err)
                       | (tx, Inr (batch, hasMore)) \<Rightarrow> (tx, takeBatch it opts batch hasMore)
                  else case fetchRange db tx (itScanBegin it) (itScanEnd it) want byteTarget (Reverse opts) of
                         (tx, Inl err) \<Rightarrow> (tx, failIter it err)
                       | (tx, Inr (batch, hasMore, capBegin, capEnd)) \<Rightarrow>
                           if length batch = 0
                           then (if \<not> snapshot then addConflict tx opts capBegin capEnd [] False else tx,
                                 it\<lparr>itExhausted := True\<rparr>, False)
                           else (if \<not> snapshot then addConflict tx opts capBegin capEnd batch hasMore else tx,
                                 takeBatch it opts batch hasMore)))"

definition Advance :: "simDB \<Rightarrow> simTxn \<Rightarrow> RangeOptions \<Rightarrow> bool \<Rightarrow> rangeIter \<Rightarrow> simTxn \<times> rangeIter \<times> bool" where
  "Advance db tx opts snapshot it =
     (if itErr it \<noteq> None then (tx, it, False)
      else if itPos it < length (itBatch it) then (tx, it\<lparr>itIdx := int (itPos it), itPos := itPos it + 1\<rparr>, True)
      else if itExhausted it \<or> itRemaining it \<le> 0 then (tx, it, False)
      else fetchBatch db tx opts snapshot it)"

text \<open>\<open>None\<close> is the zero \<^verbatim>\<open>KeyValue\<close>.\<close>

definition iterGet :: "rangeIter \<Rightarrow> (int, row option) result" where
  "iterGet it =
     (case itErr it of
        Some err \<Rightarrow> Inl err
      | None \<Rightarrow>
          if itIdx it < 0 \<or> itIdx it \<ge> int (length (itBatch it)) then Inr None
          else Inr (Some (itBatch it ! nat (itIdx it))))"


section \<open>Reads change nothing that reads depend on\<close>

definition sameView :: "simTxn \<Rightarrow> simTxn \<Rightarrow> bool" where
  "sameView tx' tx \<longleftrightarrow> readVersion tx' = readVersion tx \<and> rvSet tx' = rvSet tx \<and> buffer tx' = buffer tx \<and>
     rywDisabled tx' = rywDisabled tx \<and> unreadable tx' = unreadable tx \<and> unreadableRanges tx' = unreadableRanges tx \<and>
     bypassUnreadable tx' = bypassUnreadable tx \<and> cancelled tx' = cancelled tx"

lemma sameView_refl [simp]: "sameView tx tx"
  by (simp add: sameView_def)

lemma sameView_trans: "sameView a b \<Longrightarrow> sameView b c \<Longrightarrow> sameView a c"
  by (simp add: sameView_def)

lemma sameView_addReadConflict [simp]: "sameView (addReadConflict tx b e) tx"
  by (simp add: sameView_def addReadConflict_def)

lemma sameView_addReadConflicts:
  "sameView (foldl (\<lambda>tx r. addReadConflict tx (rbegin r) (rend r)) tx rs) tx"
proof (induction rs arbitrary: tx)
  case (Cons r rs)
  show ?case using sameView_trans [OF Cons.IH sameView_addReadConflict] by simp
qed simp

lemma sameView_addFilteredReadConflict [simp]: "sameView (addFilteredReadConflict tx b e) tx"
  by (simp add: addFilteredReadConflict_def sameView_addReadConflicts)

lemma sameView_rememberRead [simp]: "sameView (rememberRead tx b e) tx"
  by (simp add: rememberRead_def sameView_def)

lemma sameView_rememberRangeRead [simp]: "sameView (rememberRangeRead tx b e kvs hasMore reverse) tx"
  by (simp add: rememberRangeRead_def)

lemma sameView_addConflict [simp]: "sameView (addConflict tx opts b e kvs hasMore) tx"
  by (simp add: addConflict_def split: prod.splits)

lemma sameView_fetchRange:
  "fetchRange db tx b e limit byteTarget reverse = (tx', r) \<Longrightarrow> sameView tx' tx"
  by (auto simp: fetchRange_def Let_def split: if_splits prod.splits)

lemma buildView_sameView: "sameView tx' tx \<Longrightarrow> buildView db tx' = buildView db tx"
  by (simp add: sameView_def buildView_def Let_def)

definition readable :: "simTxn \<Rightarrow> bool" where
  "readable tx \<longleftrightarrow> \<not> cancelled tx \<and> (rywDisabled tx \<or> bypassUnreadable tx \<or> \<not> hasUnreadable tx)"

lemma readable_sameView: "sameView tx' tx \<Longrightarrow> readable tx' = readable tx"
  by (simp add: sameView_def readable_def hasUnreadable_def)

section \<open>A fetch returns a page\<close>

text \<open>The rows of a range in the order of the read.\<close>

definition rowsOf :: "simDB \<Rightarrow> simTxn \<Rightarrow> bool \<Rightarrow> bytes \<Rightarrow> bytes \<Rightarrow> row list" where
  "rowsOf db tx reverse b e = (if reverse then rev (viewIn db tx b e) else viewIn db tx b e)"

lemma rowsOf_sameView: "sameView tx' tx \<Longrightarrow> rowsOf db tx' reverse b e = rowsOf db tx reverse b e"
  by (simp add: rowsOf_def buildView_sameView)

lemma byteCutLoop_bounds: "i \<le> byteCutLoop batch acc t i \<and> byteCutLoop batch acc t i \<le> i + length batch"
  by (induction batch acc t i rule: byteCutLoop.induct) (auto simp: Let_def)

lemma serverByteCut_bounds:
  "serverByteCut batch t \<le> length batch" "batch \<noteq> [] \<Longrightarrow> 0 < serverByteCut batch t"
proof -
  show "serverByteCut batch t \<le> length batch"
    using byteCutLoop_bounds [of 0 batch 0 t] by (simp add: serverByteCut_def)
  show "0 < serverByteCut batch t" if "batch \<noteq> []"
  proof (cases batch)
    case (Cons kv batch')
    have "0 < byteCutLoop batch' acc t (Suc 0)" for acc
      using byteCutLoop_bounds [of "Suc 0" batch' acc t] by linarith
    then show ?thesis using Cons by (cases kv) (simp add: serverByteCut_def Let_def)
  qed (use that in simp)
qed

lemma fetchRange_page:
  assumes inv: "store_inv (store db) u" and rd: "readable tx" and lim: "0 < limit" and bt: "byteTarget = -1 \<or> 0 < byteTarget"
  obtains tx' c hasMore where
    "fetchRange db tx b e limit byteTarget reverse = (tx', Inr (take c (rowsOf db tx reverse b e), hasMore, b, e))"
    "sameView tx' tx" "int c \<le> limit" "c \<le> length (rowsOf db tx reverse b e)"
    "\<not> hasMore \<Longrightarrow> c = length (rowsOf db tx reverse b e)" "rowsOf db tx reverse b e \<noteq> [] \<Longrightarrow> 0 < c"
proof -
  let ?D = "rowsOf db tx reverse b e"
  define lim' where "lim' = (if byteTarget \<noteq> ByteLimitUnlimited
    then let maxRows = byteTarget div (1 + serverRowOverheadBytes) + 1 in if maxRows < limit then maxRows else limit
    else limit)"
  have lim': "0 < lim'" "lim' \<le> limit"
    using lim bt by (auto simp: lim'_def Let_def pos_imp_zdiv_nonneg_iff intro: add_nonneg_pos)
  define n where "n = (if lim' \<le> int (length ?D) then nat lim' else length ?D)"
  have rr: "rangeRows db tx b e lim' reverse = (take n ?D, lim' \<le> int (length ?D))"
    using rangeRows_spec [OF inv refl, of tx b e lim' reverse] lim' by (simp add: rowsOf_def n_def)
  define c where "c = serverByteCut (take n ?D) byteTarget"
  have c: "c \<le> n" "n \<le> length ?D" using serverByteCut_bounds(1) [of "take n ?D" byteTarget] lim' by (auto simp: c_def n_def)
  have cap: "unreadableScanCap tx b e reverse = None" and "\<not> cancelled tx"
    using rd by (auto simp: readable_def unreadableScanCap_def)
  define m where "m = (if c < length (take n ?D) then True else lim' \<le> int (length ?D))"
  have "fetchRange db tx b e limit byteTarget reverse =
      (rememberRangeRead tx b e (take c ?D) m reverse, Inr (take c ?D, m, b, e))"
    using cap \<open>\<not> cancelled tx\<close> rr c unfolding fetchRange_def Let_def lim'_def [unfolded Let_def, symmetric] m_def
    by (auto simp: c_def [symmetric] min_def)
  moreover have "int c \<le> limit" using c lim' by (auto simp: n_def split: if_splits)
  moreover have "c = length ?D" if "\<not> m" using that c by (auto simp: m_def n_def split: if_splits)
  moreover have "0 < c" if "?D \<noteq> []"
    using serverByteCut_bounds(2) [of "take n ?D" byteTarget] that lim' by (auto simp: c_def n_def split: if_splits)
  ultimately show ?thesis using that [of "rememberRangeRead tx b e (take c ?D) m reverse" c m] c by simp
qed


section \<open>The next batch\<close>

lemma sorted_filter_drop:
  fixes V :: "('k :: linorder \<times> 'v) list"
  assumes "sorted_wrt (<) (map fst V)" "0 < c" "c \<le> length V"
  shows "filter (\<lambda>x. fst (V ! (c - 1)) < fst x) V = drop c V"
    and "filter (\<lambda>x. fst x < fst (V ! (length V - c))) V = take (length V - c) V"
proof -
  have lt: "fst (V ! i) < fst (V ! j)" if "i < j" "j < length V" for i j
    using assms(1) that by (simp add: sorted_wrt_iff_nth_less)
  have split: "filter P V = filter P (take i V) @ filter P (drop i V)" for P i
    by (metis append_take_drop_id filter_append)
  have "fst (V ! (c - 1)) < fst x" if x: "x \<in> set (drop c V)" for x
  proof -
    obtain i where "x = V ! (c + i)" "c + i < length V" using x by (auto simp: in_set_conv_nth)
    then show ?thesis using lt [of "c - 1" "c + i"] assms(2) by simp
  qed
  moreover have "\<not> fst (V ! (c - 1)) < fst x" if x: "x \<in> set (take c V)" for x
  proof -
    obtain i where "x = V ! i" "i < c" using x by (auto simp: in_set_conv_nth)
    moreover from this have "i = c - 1 \<or> i < c - 1 \<and> c - 1 < length V" using assms(2,3) by linarith
    ultimately show ?thesis using lt [of i "c - 1"] by (auto dest: less_not_sym)
  qed
  ultimately show "filter (\<lambda>x. fst (V ! (c - 1)) < fst x) V = drop c V"
    by (subst split [of _ c]) (simp add: filter_empty_conv filter_id_conv)
  let ?n = "length V - c"
  have "fst x < fst (V ! ?n)" if x: "x \<in> set (take ?n V)" for x
  proof -
    obtain i where "x = V ! i" "i < ?n" using x by (auto simp: in_set_conv_nth)
    then show ?thesis using lt [of i ?n] assms(2,3) by simp
  qed
  moreover have "\<not> fst x < fst (V ! ?n)" if x: "x \<in> set (drop ?n V)" for x
  proof -
    obtain i where "x = V ! (?n + i)" "?n + i < length V" using x by (auto simp: in_set_conv_nth)
    then show ?thesis using lt [of ?n "?n + i"] by (cases "i = 0") (auto dest: less_not_sym)
  qed
  ultimately show "filter (\<lambda>x. fst x < fst (V ! ?n)) V = take ?n V"
    by (subst split [of _ ?n]) (simp add: filter_empty_conv filter_id_conv)
qed

lemma last_take: "0 < c \<Longrightarrow> c \<le> length xs \<Longrightarrow> last (take c xs) = xs ! (c - 1)"
  by (subst last_conv_nth) auto

lemma rowsOf_next:
  assumes inv: "store_inv (store db) u" and c: "0 < c" "c \<le> length (rowsOf db tx reverse b e)"
    and k: "k = fst (last (take c (rowsOf db tx reverse b e)))"
  shows "rowsOf db tx reverse (if reverse then b else keyAfter k) (if reverse then k else e) =
    drop c (rowsOf db tx reverse b e)"
proof -
  define V where "V = viewIn db tx b e"
  have sorted: "sorted_wrt (<) (map fst V)" unfolding V_def using inv by (rule sorted_viewIn)
  have len: "c \<le> length V" using c(2) by (simp add: rowsOf_def V_def split: if_splits)
  have mem: "b \<le> fst x \<and> fst x < e" if "x \<in> set V" for x using that by (auto simp: V_def)
  show ?thesis
  proof (cases reverse)
    case False
    then have k: "k = fst (V ! (c - 1))"
      using k c len by (simp add: rowsOf_def V_def last_take)
    then have "b \<le> k" using mem len c by simp
    then have "viewIn db tx (keyAfter k) e = filter (\<lambda>x. k < fst x) V"
      unfolding V_def by (auto simp: keyAfter_le_iff intro!: filter_cong)
    also have "\<dots> = drop c V" unfolding k using sorted_filter_drop(1) [OF sorted c(1) len] .
    finally show ?thesis using False by (simp add: rowsOf_def V_def)
  next
    case True
    then have k: "k = fst (V ! (length V - c))"
      using k c len by (simp add: rowsOf_def V_def last_take rev_nth)
    then have "k < e" using mem len c by simp
    then have "viewIn db tx b k = filter (\<lambda>x. fst x < k) V"
      unfolding V_def by (auto intro!: filter_cong dest: less_trans)
    also have "\<dots> = take (length V - c) V" unfolding k using sorted_filter_drop(2) [OF sorted c(1) len] .
    finally show ?thesis using True len by (simp add: rowsOf_def V_def [symmetric] drop_rev)
  qed
qed

section \<open>Collecting the whole result\<close>

lemma sliceLoop_rows:
  assumes "store_inv (store db) u" and "readable tx" and "kvs \<noteq> []"
    and "W = rowsOf db tx (Reverse opts) (if Reverse opts then b else keyAfter (fst (last kvs)))
      (if Reverse opts then fst (last kvs) else e)"
    and "\<not> hasMore \<longrightarrow> W = []"
  shows "\<exists>tx'. sliceLoop db tx opts snapshot b e remaining kvs hasMore = (tx', Inr (kvs @ take (nat remaining) W)) \<and>
    sameView tx' tx"
  using assms
proof (induction "nat remaining" arbitrary: tx b e remaining kvs hasMore W rule: less_induct)
  case less
  let ?b = "if Reverse opts then b else keyAfter (fst (last kvs))"
    and ?e = "if Reverse opts then fst (last kvs) else e"
  show ?case
  proof (cases "hasMore \<and> remaining > 0 \<and> length kvs > 0")
    case False
    then have "take (nat remaining) W = []" using less.prems(3,5) by auto
    then show ?thesis using trans [OF sliceLoop.simps if_not_P [OF False]] by (intro exI [of _ tx]) simp
  next
    case True
    obtain tx1 c m where f: "fetchRange db tx ?b ?e remaining ByteLimitUnlimited (Reverse opts) = (tx1, Inr (take c W, m, ?b, ?e))"
      and same: "sameView tx1 tx" and c: "int c \<le> remaining" "c \<le> length W" "\<not> m \<Longrightarrow> c = length W" "W \<noteq> [] \<Longrightarrow> 0 < c"
      using fetchRange_page [OF less.prems(1,2), of remaining ByteLimitUnlimited ?b ?e "Reverse opts"] True less.prems(4) by auto
    define tx2 where "tx2 = (if \<not> snapshot then addConflict tx1 opts ?b ?e (take c W) m else tx1)"
    have same2: "sameView tx2 tx" unfolding tx2_def using same sameView_trans [OF sameView_addConflict same] by simp
    show ?thesis
    proof (cases "take c W = []")
      case empty: True
      then have "W = []" using c by auto
      then show ?thesis using True f empty same2
        by (intro exI [of _ tx2]) (simp add: sliceLoop.simps [of db tx opts snapshot b e] Let_def tx2_def)
    next
      case False
      have step: "sliceLoop db tx opts snapshot b e remaining kvs hasMore =
          sliceLoop db tx2 opts snapshot ?b ?e (remaining - int (length (take c W))) (kvs @ take c W) m"
        using True f False by (simp add: sliceLoop.simps [of db tx opts snapshot b e] Let_def tx2_def)
      have "0 < c" "take c W \<noteq> []" using False by auto
      then have l: "last (kvs @ take c W) = last (take c W)" by (simp add: last_append)
      have next_: "drop c W = rowsOf db tx2 (Reverse opts)
          (if Reverse opts then ?b else keyAfter (fst (last (kvs @ take c W))))
          (if Reverse opts then fst (last (kvs @ take c W)) else ?e)"
        unfolding l rowsOf_sameView [OF same2]
        by (rule rowsOf_next [OF less.prems(1) \<open>0 < c\<close>, of tx "Reverse opts" ?b ?e, folded less.prems(4),
          OF c(2) refl, symmetric])
      have "\<exists>tx'. sliceLoop db tx2 opts snapshot ?b ?e (remaining - int (length (take c W))) (kvs @ take c W) m =
          (tx', Inr ((kvs @ take c W) @ take (nat (remaining - int (length (take c W)))) (drop c W))) \<and> sameView tx' tx2"
        using less.hyps [OF _ less.prems(1) _ _ next_] True \<open>0 < c\<close> c readable_sameView [OF same2] less.prems(2,3) False
        by (auto simp: min_def split: if_splits)
      then obtain tx' where IH: "sliceLoop db tx2 opts snapshot ?b ?e (remaining - int (length (take c W))) (kvs @ take c W) m =
          (tx', Inr ((kvs @ take c W) @ take (nat (remaining - int (length (take c W)))) (drop c W)))" "sameView tx' tx2"
        by blast
      have "nat (remaining - int (length (take c W))) = nat remaining - c" using c by auto
      moreover have "take c W @ take (nat remaining - c) (drop c W) = take (nat remaining) W"
        using c(1) take_add [of c "nat remaining - c" W] True by simp
      ultimately have "(kvs @ take c W) @ take (nat (remaining - int (length (take c W)))) (drop c W) = kvs @ take (nat remaining) W"
        by simp
      then show ?thesis unfolding step IH(1) using sameView_trans [OF IH(2) same2] by (intro exI [of _ tx']) simp
    qed
  qed
qed


section \<open>The call\<close>

lemma modeTargetBytes_pos:
  assumes "modeTargetBytes mode i = Inr bt"
  shows "bt = -1 \<or> 0 < bt"
proof -
  have "bt \<in> set modeBytesTable \<union> set iterationProgression"
  proof (cases "mode = StreamingModeIterator")
    case True
    then have "bt = iterationProgression ! nat ((if i > int (length iterationProgression) then int (length iterationProgression) else i) - 1)" "0 < i"
      using assms by (auto simp: modeTargetBytes_def Let_def split: if_splits)
    moreover from this have "nat ((if i > int (length iterationProgression) then int (length iterationProgression) else i) - 1) < length iterationProgression"
      by (auto simp: iterationProgression_def)
    ultimately have "bt \<in> set iterationProgression" using nth_mem by metis
    then show ?thesis ..
  next
    case False
    define j where "j = cModeIndex (if mode = StreamingModeWantAll then StreamingModeSerial else mode)"
    have "bt = modeBytesTable ! nat j" "nat j < length modeBytesTable"
      using assms False unfolding j_def by (auto simp: modeTargetBytes_def Let_def split: if_splits)
    then show ?thesis by auto
  qed
  then show ?thesis by (auto simp: modeBytesTable_def iterationProgression_def)
qed

lemma modeTargetBytes_iteration:
  "modeTargetBytes mode 1 = Inr x \<Longrightarrow> 1 \<le> i \<Longrightarrow> \<exists>bt. modeTargetBytes mode i = Inr bt"
  by (auto simp: modeTargetBytes_def Let_def split: if_splits)

text \<open>The options a range read accepts.\<close>

definition validOptions :: "RangeOptions \<Rightarrow> bool" where
  "validOptions opts \<longleftrightarrow> (\<exists>bt. modeTargetBytes (Mode opts) 1 = Inr bt) \<and> -1 \<le> Limit opts \<and>
     \<not> (Mode opts = StreamingModeExact \<and> (Limit opts = 0 \<or> Limit opts = -1))"

lemma validOptions_code [code]:
  "validOptions opts \<longleftrightarrow> (case modeTargetBytes (Mode opts) 1 of Inl err \<Rightarrow> False | Inr bt \<Rightarrow> True) \<and> -1 \<le> Limit opts \<and>
     \<not> (Mode opts = StreamingModeExact \<and> (Limit opts = 0 \<or> Limit opts = -1))"
  by (auto simp: validOptions_def split: sum.splits)

lemma EffectiveRowLimit_pos: "-1 \<le> limit \<Longrightarrow> 0 < EffectiveRowLimit limit"
  by (auto simp: EffectiveRowLimit_def)

lemma rowsOf_collapse: "e < b \<Longrightarrow> rowsOf db tx reverse b e = rowsOf db tx reverse [] []"
  using viewIn_empty [of e b db tx] viewIn_empty [of "[]" "[]" db tx] by (simp add: rowsOf_def)

text \<open>The first batch of a read between two keys; an inverted range is collapsed to an empty one.\<close>

lemma issueFirst_exact:
  assumes v: "validOptions opts" and c: "\<not> cancelled tx" and bt: "modeTargetBytes (Mode opts) 1 = Inr bt"
    and f: "fetchRange db (ensureReadVersion db tx) (if e < b then [] else b) (if e < b then [] else e)
      (min (EffectiveRowLimit (Limit opts)) replyByteLimit) bt (Reverse opts) = (tx1, Inr (batch, m, cb, ce))"
  shows "issueFirst db tx opts snapshot (FirstGreaterOrEqual b) (FirstGreaterOrEqual e) =
    (if \<not> snapshot then addConflict tx1 opts cb ce batch m else tx1,
     emptyFirst\<lparr>fbBegin := (if e < b then [] else b), fbEnd := (if e < b then [] else e),
       fbLimit := EffectiveRowLimit (Limit opts), fbBatch := batch, fbMore := m\<rparr>)"
proof -
  have "resolveRangeForRead db tx (FirstGreaterOrEqual b) (FirstGreaterOrEqual e) =
      (ensureReadVersion db tx, Inr (if e < b then [] else b, if e < b then [] else e))"
    using c by (simp add: resolveRangeForRead_def resolveRangeBound_def isTrivialSelector_def FirstGreaterOrEqual_def Let_def)
  then show ?thesis
    using bt v f by (simp add: validOptions_def issueFirst_def Let_def isTrivialSelector_def FirstGreaterOrEqual_def emptyFirst_def)
qed

lemma issueFirst_page:
  assumes inv: "store_inv (store db) u" and v: "validOptions opts" and rd: "readable (ensureReadVersion db tx)"
    and D: "D = rowsOf db (ensureReadVersion db tx) (Reverse opts) b e"
  obtains tx' c f where
    "issueFirst db tx opts snapshot (FirstGreaterOrEqual b) (FirstGreaterOrEqual e) = (tx', f)"
    "sameView tx' (ensureReadVersion db tx)" "fbErr f = None" "fbBatch f = take c D" "\<not> selOn (fbSel f)"
    "fbLimit f = EffectiveRowLimit (Limit opts)" "int c \<le> fbLimit f" "c \<le> length D"
    "\<not> fbMore f \<Longrightarrow> c = length D" "D \<noteq> [] \<Longrightarrow> 0 < c"
    "D = rowsOf db (ensureReadVersion db tx) (Reverse opts) (fbBegin f) (fbEnd f)"
proof -
  let ?tx = "ensureReadVersion db tx" and ?L = "EffectiveRowLimit (Limit opts)"
  obtain bt where bt: "modeTargetBytes (Mode opts) 1 = Inr bt" and lim: "-1 \<le> Limit opts"
    using v by (auto simp: validOptions_def)
  define b' e' where "b' = (if e < b then [] else b)" and "e' = (if e < b then [] else e)"
  have D': "D = rowsOf db ?tx (Reverse opts) b' e'" using D rowsOf_collapse by (auto simp: b'_def e'_def)
  have c0: "\<not> cancelled tx" using rd by (simp add: readable_def ensureReadVersion_def split: if_splits)
  have want: "0 < min ?L replyByteLimit" using EffectiveRowLimit_pos [OF lim] by simp
  obtain tx1 c m where f: "fetchRange db ?tx b' e' (min ?L replyByteLimit) bt (Reverse opts) = (tx1, Inr (take c D, m, b', e'))"
    and same: "sameView tx1 ?tx" and c: "int c \<le> min ?L replyByteLimit" "c \<le> length D" "\<not> m \<Longrightarrow> c = length D" "D \<noteq> [] \<Longrightarrow> 0 < c"
    using fetchRange_page [OF inv rd want modeTargetBytes_pos [OF bt], of b' e' "Reverse opts"] D' by metis
  let ?f = "emptyFirst\<lparr>fbBegin := b', fbEnd := e', fbLimit := ?L, fbBatch := take c D, fbMore := m\<rparr>"
  let ?tx' = "if \<not> snapshot then addConflict tx1 opts b' e' (take c D) m else tx1"
  have "issueFirst db tx opts snapshot (FirstGreaterOrEqual b) (FirstGreaterOrEqual e) = (?tx', ?f)"
    using issueFirst_exact [OF v c0 bt f [unfolded b'_def e'_def], of snapshot] unfolding b'_def e'_def .
  moreover have "sameView ?tx' ?tx" using same sameView_trans [OF sameView_addConflict same] by simp
  ultimately show ?thesis
    using that [of ?tx' ?f c] c D' by (simp add: emptyFirst_def noSelectors_def)
qed

lemma getRangeSlice_spec:
  assumes inv: "store_inv (store db) u" and v: "validOptions opts" and rd: "readable (ensureReadVersion db tx)"
    and D: "D = rowsOf db (ensureReadVersion db tx) (Reverse opts) b e"
  shows "\<exists>tx'. getRangeSlice db tx opts snapshot (FirstGreaterOrEqual b) (FirstGreaterOrEqual e) =
      (tx', Inr (take (nat (EffectiveRowLimit (Limit opts))) D)) \<and> sameView tx' (ensureReadVersion db tx)"
proof -
  let ?tx = "ensureReadVersion db tx"
  obtain tx' c f where f: "issueFirst db tx opts snapshot (FirstGreaterOrEqual b) (FirstGreaterOrEqual e) = (tx', f)"
    and same: "sameView tx' ?tx" and fb: "fbErr f = None" "fbBatch f = take c D" "\<not> selOn (fbSel f)"
    "fbLimit f = EffectiveRowLimit (Limit opts)"
    and c: "int c \<le> fbLimit f" "c \<le> length D" "\<not> fbMore f \<Longrightarrow> c = length D" "D \<noteq> [] \<Longrightarrow> 0 < c"
    and D': "D = rowsOf db ?tx (Reverse opts) (fbBegin f) (fbEnd f)"
    using issueFirst_page [OF inv v rd D, of snapshot] by metis
  have rd': "readable tx'" using rd readable_sameView [OF same] by simp
  let ?rem = "fbLimit f - int (length (take c D))"
  have eq: "getRangeSlice db tx opts snapshot (FirstGreaterOrEqual b) (FirstGreaterOrEqual e) =
      sliceLoop db tx' opts snapshot (fbBegin f) (fbEnd f) ?rem (take c D) (fbMore f)"
    using f fb rd' by (simp add: getRangeSlice_def GetSliceWithError_def takeFirst_def readable_def)
  show ?thesis
  proof (cases "D = []")
    case True
    then have "sliceLoop db tx' opts snapshot (fbBegin f) (fbEnd f) ?rem (take c D) (fbMore f) = (tx', Inr [])"
      by (simp add: sliceLoop.simps)
    then show ?thesis using eq True same by simp
  next
    case False
    then have "0 < c" "take c D \<noteq> []" using c by auto
    let ?W = "rowsOf db tx' (Reverse opts) (if Reverse opts then fbBegin f else keyAfter (fst (last (take c D))))
      (if Reverse opts then fst (last (take c D)) else fbEnd f)"
    have W: "?W = drop c D"
      unfolding rowsOf_sameView [OF same]
      by (rule rowsOf_next [OF inv \<open>0 < c\<close>, of ?tx "Reverse opts" "fbBegin f" "fbEnd f", folded D', OF c(2) refl])
    have "\<not> fbMore f \<longrightarrow> ?W = []" unfolding W using c(3) by simp
    from sliceLoop_rows [OF inv rd' \<open>take c D \<noteq> []\<close> refl this, of snapshot ?rem]
    obtain tx2 where loop: "sliceLoop db tx' opts snapshot (fbBegin f) (fbEnd f) ?rem (take c D) (fbMore f) =
        (tx2, Inr (take c D @ take (nat ?rem) (drop c D)))" "sameView tx2 tx'"
      unfolding W by blast
    have rem: "nat ?rem = nat (fbLimit f) - c" using c by simp
    have "take c D @ take (nat ?rem) (drop c D) = take (c + (nat (fbLimit f) - c)) D"
      unfolding rem by (rule take_add [symmetric])
    also have "c + (nat (fbLimit f) - c) = nat (fbLimit f)" using c(1) by simp
    finally have "take c D @ take (nat ?rem) (drop c D) = take (nat (fbLimit f)) D" .
    then show ?thesis using eq loop(1) sameView_trans [OF loop(2) same] fb(4) by simp
  qed
qed


section \<open>Iterating\<close>

text \<open>The rows an iterator still has to return.\<close>

definition scanRows :: "simDB \<Rightarrow> simTxn \<Rightarrow> RangeOptions \<Rightarrow> rangeIter \<Rightarrow> row list" where
  "scanRows db tx opts it = rowsOf db tx (Reverse opts) (itScanBegin it) (itScanEnd it)"

definition upcoming :: "simDB \<Rightarrow> simTxn \<Rightarrow> RangeOptions \<Rightarrow> rangeIter \<Rightarrow> row list" where
  "upcoming db tx opts it =
     drop (itPos it) (itBatch it) @
     (if itExhausted it then [] else take (nat (itRemaining it)) (scanRows db tx opts it))"

definition iter_inv :: "simDB \<Rightarrow> simTxn \<Rightarrow> RangeOptions \<Rightarrow> rangeIter \<Rightarrow> bool" where
  "iter_inv db tx opts it \<longleftrightarrow> itErr it = None \<and> \<not> selOn (itSel it) \<and> 1 \<le> itIteration it \<and> itPos it \<le> length (itBatch it) \<and>
     (\<forall>f. itFirst it = Some f \<longrightarrow> itBatch it = [] \<and> \<not> itExhausted it \<and> 0 < itRemaining it \<and>
        (\<exists>c \<le> length (scanRows db tx opts it). fbBatch f = take c (scanRows db tx opts it) \<and> int c \<le> itRemaining it \<and>
           (\<not> fbMore f \<longrightarrow> c = length (scanRows db tx opts it)) \<and> (scanRows db tx opts it \<noteq> [] \<longrightarrow> 0 < c)))"

lemma upcoming_sameView: "sameView tx' tx \<Longrightarrow> upcoming db tx' opts it = upcoming db tx opts it"
  by (simp add: upcoming_def scanRows_def rowsOf_sameView)

lemma takeBatch_spec:
  assumes inv: "store_inv (store db) u" and it: "itErr it = None" "\<not> selOn (itSel it)" "itFirst it = None" "1 \<le> itIteration it"
      "\<not> itExhausted it"
    and W: "W = scanRows db tx opts it" and c: "0 < c" "c \<le> length W" "int c \<le> itRemaining it" "\<not> hasMore \<Longrightarrow> c = length W"
  obtains it' where "takeBatch it opts (take c W) hasMore = (it', True)" "iter_inv db tx opts it'"
    "iterGet it' = Inr (Some (hd W))" "upcoming db tx opts it' = tl (take (nat (itRemaining it)) W)"
proof -
  let ?k = "fst (last (take c W))" and ?rem = "itRemaining it - int (length (take c W))"
  let ?it = "it\<lparr>itBatch := take c W, itIdx := 0, itPos := 1, itRemaining := ?rem\<rparr>"
  let ?it1 = "if Reverse opts then ?it\<lparr>itScanEnd := ?k\<rparr> else ?it\<lparr>itScanBegin := keyAfter ?k\<rparr>"
  define ex where "ex \<longleftrightarrow> \<not> hasMore \<or> ?rem \<le> 0"
  let ?it2 = "if ex then ?it1\<lparr>itExhausted := True\<rparr> else ?it1"
  have len: "length (take c W) = c" using c by simp
  have t: "takeBatch it opts (take c W) hasMore = (?it2, True)"
    using c it(2) unfolding takeBatch_def Let_def ex_def by auto
  have next_: "rowsOf db tx (Reverse opts) (if Reverse opts then itScanBegin it else keyAfter ?k)
      (if Reverse opts then ?k else itScanEnd it) = drop c W"
    by (rule rowsOf_next [OF inv c(1), of tx "Reverse opts" "itScanBegin it" "itScanEnd it",
      folded scanRows_def W, OF c(2) refl])
  then have scan: "scanRows db tx opts ?it2 = drop c W"
    by (cases "Reverse opts") (simp_all add: scanRows_def)
  have "iter_inv db tx opts ?it2" using it c by (auto simp: iter_inv_def)
  moreover have "iterGet ?it2 = Inr (Some (hd W))"
    using it c by (cases W) (auto simp: iterGet_def)
  moreover have "upcoming db tx opts ?it2 = tl (take (nat (itRemaining it)) W)"
  proof -
    have "(if itExhausted ?it2 then [] else take (nat (itRemaining ?it2)) (scanRows db tx opts ?it2)) = take (nat ?rem) (drop c W)"
    proof (cases ex)
      case True
      then have "c = length W \<or> ?rem \<le> 0" using c(4) unfolding ex_def by blast
      then have "take (nat ?rem) (drop c W) = []" by auto
      moreover have "itExhausted ?it2" using True by simp
      ultimately show ?thesis by simp
    next
      case False
      then have "itExhausted ?it2 \<Longrightarrow> itExhausted it" "itRemaining ?it2 = ?rem" by (auto split: if_splits)
      then show ?thesis using scan it(5) by auto
    qed
    moreover have "drop (itPos ?it2) (itBatch ?it2) = tl (take c W)" by (simp add: drop_Suc)
    ultimately have "upcoming db tx opts ?it2 = tl (take c W) @ take (nat ?rem) (drop c W)"
      unfolding upcoming_def by (simp only:)
    also have "\<dots> = tl (take c W @ take (nat ?rem) (drop c W))"
      by (rule tl_append2 [symmetric]) (use c in auto)
    also have "take c W @ take (nat ?rem) (drop c W) = take (nat (itRemaining it)) W"
      using take_add [of c "nat ?rem" W] c len by (simp add: nat_diff_distrib)
    finally show ?thesis .
  qed
  ultimately show ?thesis using t that by blast
qed

lemma fetchBatch_page:
  assumes inv: "store_inv (store db) u" and v: "validOptions opts" and rd: "readable tx" and it: "iter_inv db tx opts it"
    and at: "itPos it = length (itBatch it)" "\<not> itExhausted it" "0 < itRemaining it" and W: "W = scanRows db tx opts it"
  obtains tx' c m where
    "fetchBatch db tx opts snapshot it =
       (tx', takeBatch (it\<lparr>itFirst := None, itIteration := itIteration it + 1\<rparr>) opts (take c W) m)"
    "sameView tx' tx" "c \<le> length W" "int c \<le> itRemaining it" "\<not> m \<Longrightarrow> c = length W" "W \<noteq> [] \<Longrightarrow> 0 < c"
proof (cases "itFirst it")
  case (Some f)
  then obtain c where c: "c \<le> length W" "fbBatch f = take c W" "int c \<le> itRemaining it"
      "\<not> fbMore f \<longrightarrow> c = length W" "W \<noteq> [] \<longrightarrow> 0 < c"
    using it W unfolding iter_inv_def by blast
  have "fetchBatch db tx opts snapshot it =
      (tx, takeBatch (it\<lparr>itFirst := None, itIteration := itIteration it + 1\<rparr>) opts (take c W) (fbMore f))"
    using Some rd c by (simp add: fetchBatch_def takeFirst_def readable_def)
  then show ?thesis using that c by simp
next
  case None
  let ?it = "it\<lparr>itFirst := None, itIteration := itIteration it + 1\<rparr>"
  have it': "it\<lparr>itIteration := itIteration it + 1\<rparr> = ?it" using None by (cases it) simp
  have n: "1 \<le> itIteration it" and s: "\<not> selOn (itSel it)" using it by (auto simp: iter_inv_def)
  obtain bt where bt: "modeTargetBytes (Mode opts) (itIteration it) = Inr bt"
    using modeTargetBytes_iteration [OF _ n] v unfolding validOptions_def by blast
  let ?want = "if itRemaining it > replyByteLimit then replyByteLimit else itRemaining it"
  have want: "0 < ?want" using at by simp
  obtain tx1 c m where f: "fetchRange db tx (itScanBegin it) (itScanEnd it) ?want bt (Reverse opts) =
      (tx1, Inr (take c W, m, itScanBegin it, itScanEnd it))"
    and same: "sameView tx1 tx" and c: "int c \<le> ?want" "c \<le> length W" "\<not> m \<Longrightarrow> c = length W" "W \<noteq> [] \<Longrightarrow> 0 < c"
    using fetchRange_page [OF inv rd want modeTargetBytes_pos [OF bt], of "itScanBegin it" "itScanEnd it" "Reverse opts"] W
    unfolding scanRows_def by metis
  let ?tx' = "if \<not> snapshot then addConflict tx1 opts (itScanBegin it) (itScanEnd it) (take c W) (if take c W = [] then False else m) else tx1"
  have "fetchBatch db tx opts snapshot it = (?tx', takeBatch ?it opts (take c W) m)"
    using None bt s f want by (simp add: fetchBatch_def it' takeBatch_def Let_def)
  moreover have "sameView ?tx' tx" using same sameView_trans [OF sameView_addConflict same] by simp
  ultimately show ?thesis using that c by (auto split: if_splits)
qed

lemma fetchBatch_spec:
  assumes inv: "store_inv (store db) u" and v: "validOptions opts" and rd: "readable tx" and it: "iter_inv db tx opts it"
    and at: "itPos it = length (itBatch it)" "\<not> itExhausted it" "0 < itRemaining it"
  obtains tx' it' ok where "fetchBatch db tx opts snapshot it = (tx', it', ok)" "sameView tx' tx"
    "ok \<longleftrightarrow> upcoming db tx opts it \<noteq> []"
    "ok \<Longrightarrow> iter_inv db tx opts it' \<and> iterGet it' = Inr (Some (hd (upcoming db tx opts it))) \<and>
       upcoming db tx opts it' = tl (upcoming db tx opts it)"
proof -
  let ?it = "it\<lparr>itFirst := None, itIteration := itIteration it + 1\<rparr>" and ?W = "scanRows db tx opts it"
  have W: "scanRows db tx opts ?it = ?W" by (simp add: scanRows_def)
  have up: "upcoming db tx opts it = take (nat (itRemaining it)) ?W" using at by (simp add: upcoming_def)
  have sane: "itErr ?it = None" "\<not> selOn (itSel ?it)" "itFirst ?it = None" "1 \<le> itIteration ?it" "\<not> itExhausted ?it"
    using it at by (auto simp: iter_inv_def)
  obtain tx' c m where fetch: "fetchBatch db tx opts snapshot it = (tx', takeBatch ?it opts (take c ?W) m)"
    and same: "sameView tx' tx" and c: "c \<le> length ?W" "int c \<le> itRemaining it" "\<not> m \<Longrightarrow> c = length ?W" "?W \<noteq> [] \<Longrightarrow> 0 < c"
    using fetchBatch_page [OF inv v rd it at] by metis
  show ?thesis
  proof (cases "?W = []")
    case True
    then have "takeBatch ?it opts (take c ?W) m = (?it\<lparr>itExhausted := True\<rparr>, False)" by (simp add: takeBatch_def)
    then show ?thesis using that [of tx' "?it\<lparr>itExhausted := True\<rparr>" False] fetch same up True by simp
  next
    case False
    obtain it' where "takeBatch ?it opts (take c ?W) m = (it', True)" "iter_inv db tx opts it'"
      "iterGet it' = Inr (Some (hd ?W))" "upcoming db tx opts it' = tl (take (nat (itRemaining it)) ?W)"
      using takeBatch_spec [OF inv sane W [symmetric] c(4) [OF False] c(1), of m] c(2,3) by auto
    moreover have "take (nat (itRemaining it)) ?W \<noteq> []" "hd (take (nat (itRemaining it)) ?W) = hd ?W"
      using False at by (auto simp: hd_take)
    ultimately show ?thesis using that [of tx' it' True] fetch same up by simp
  qed
qed


lemma iter_inv_sameView: "sameView tx' tx \<Longrightarrow> iter_inv db tx' opts it = iter_inv db tx opts it"
  by (simp add: iter_inv_def scanRows_def rowsOf_sameView)

lemma Advance_spec:
  assumes inv: "store_inv (store db) u" and v: "validOptions opts" and rd: "readable tx" and it: "iter_inv db tx opts it"
  obtains tx' it' ok where "Advance db tx opts snapshot it = (tx', it', ok)" "sameView tx' tx"
    "ok \<longleftrightarrow> upcoming db tx opts it \<noteq> []"
    "ok \<Longrightarrow> iter_inv db tx' opts it' \<and> iterGet it' = Inr (Some (hd (upcoming db tx opts it))) \<and>
       upcoming db tx' opts it' = tl (upcoming db tx opts it)"
proof -
  have e: "itErr it = None" "itPos it \<le> length (itBatch it)" using it by (auto simp: iter_inv_def)
  consider (row) "itPos it < length (itBatch it)" | (over) "itPos it = length (itBatch it)" "itExhausted it \<or> itRemaining it \<le> 0"
    | (fetch) "itPos it = length (itBatch it)" "\<not> itExhausted it" "0 < itRemaining it"
    using e by linarith
  then show ?thesis
  proof cases
    case row
    let ?it = "it\<lparr>itIdx := int (itPos it), itPos := itPos it + 1\<rparr>"
    have "iter_inv db tx opts ?it" using it row by (auto simp: iter_inv_def scanRows_def)
    moreover have "iterGet ?it = Inr (Some (hd (upcoming db tx opts it)))"
      using row e by (simp add: iterGet_def upcoming_def hd_drop_conv_nth)
    moreover have "upcoming db tx opts ?it = tl (upcoming db tx opts it)"
      using row by (simp add: upcoming_def scanRows_def drop_Suc tl_drop)
    moreover have "upcoming db tx opts it \<noteq> []" using row by (simp add: upcoming_def)
    ultimately show ?thesis using that [of tx ?it True] row e by (simp add: Advance_def)
  next
    case over
    then have "upcoming db tx opts it = []" by (auto simp: upcoming_def)
    then show ?thesis using that [of tx it False] over e by (auto simp: Advance_def)
  next
    case fetch
    then have "Advance db tx opts snapshot it = fetchBatch db tx opts snapshot it" using e by (simp add: Advance_def)
    moreover obtain tx' it' ok where f: "fetchBatch db tx opts snapshot it = (tx', it', ok)" "sameView tx' tx"
      "ok \<longleftrightarrow> upcoming db tx opts it \<noteq> []"
      "ok \<Longrightarrow> iter_inv db tx opts it' \<and> iterGet it' = Inr (Some (hd (upcoming db tx opts it))) \<and>
         upcoming db tx opts it' = tl (upcoming db tx opts it)"
      using fetchBatch_spec [OF inv v rd it fetch, where snapshot = snapshot] by blast
    ultimately have "Advance db tx opts snapshot it = (tx', it', ok)" by simp
    then show ?thesis
      by (rule that [OF _ f(2,3)]) (use f(4) in \<open>simp add: iter_inv_sameView [OF f(2)] upcoming_sameView [OF f(2)]\<close>)
  qed
qed

text \<open>
  The loop of a client, \<^verbatim>\<open>for it.Advance() { kv, err := it.Get() ... }\<close>, bounded by the number of
  rows it is willing to take.
\<close>

fun iterRows :: "nat \<Rightarrow> simDB \<Rightarrow> simTxn \<Rightarrow> RangeOptions \<Rightarrow> bool \<Rightarrow> rangeIter \<Rightarrow> (int, row list) result" where
  "iterRows 0 db tx opts snapshot it = Inr []"
| "iterRows (Suc n) db tx opts snapshot it =
     (case Advance db tx opts snapshot it of
        (tx, it, False) \<Rightarrow> (case itErr it of Some err \<Rightarrow> Inl err | None \<Rightarrow> Inr [])
      | (tx, it, True) \<Rightarrow>
          (case iterGet it of
             Inl err \<Rightarrow> Inl err
           | Inr None \<Rightarrow> Inr []
           | Inr (Some kv) \<Rightarrow> map_sum id (Cons kv) (iterRows n db tx opts snapshot it)))"

lemma Advance_end:
  assumes "iter_inv db tx opts it" and "validOptions opts" and "readable tx" and "store_inv (store db) u"
    and "Advance db tx opts snapshot it = (tx', it', False)"
  shows "itErr it' = None"
proof -
  have e: "itErr it = None" using assms by (simp add: iter_inv_def)
  show ?thesis
  proof (cases "itPos it < length (itBatch it) \<or> itExhausted it \<or> itRemaining it \<le> 0")
    case True
    then show ?thesis using assms(5) e by (auto simp: Advance_def split: if_splits)
  next
    case False
    then have at: "itPos it = length (itBatch it)" "\<not> itExhausted it" "0 < itRemaining it"
      using assms(1) by (auto simp: iter_inv_def)
    with assms(5) e have "fetchBatch db tx opts snapshot it = (tx', it', False)" by (simp add: Advance_def)
    moreover obtain c m where "fetchBatch db tx opts snapshot it =
       (tx', takeBatch (it\<lparr>itFirst := None, itIteration := itIteration it + 1\<rparr>) opts (take c (scanRows db tx opts it)) m)"
      by (rule fetchBatch_page [OF assms(4,2,3,1) at refl, of snapshot]) (use calculation in simp)
    ultimately have "takeBatch (it\<lparr>itFirst := None, itIteration := itIteration it + 1\<rparr>) opts (take c (scanRows db tx opts it)) m =
      (it', False)" by simp
    then show ?thesis using e by (auto simp: takeBatch_def Let_def split: if_splits)
  qed
qed

lemma iterRows_spec:
  assumes "store_inv (store db) u" and "validOptions opts" and "readable tx" and "iter_inv db tx opts it"
  shows "iterRows n db tx opts snapshot it = Inr (take n (upcoming db tx opts it))"
  using assms(3,4)
proof (induction n arbitrary: tx it)
  case (Suc n)
  obtain tx' it' ok where a: "Advance db tx opts snapshot it = (tx', it', ok)" "sameView tx' tx"
    "ok \<longleftrightarrow> upcoming db tx opts it \<noteq> []"
    "ok \<Longrightarrow> iter_inv db tx' opts it' \<and> iterGet it' = Inr (Some (hd (upcoming db tx opts it))) \<and>
       upcoming db tx' opts it' = tl (upcoming db tx opts it)"
    using Advance_spec [OF assms(1,2) Suc.prems, where snapshot = snapshot] by blast
  show ?case
  proof (cases ok)
    case True
    moreover have "readable tx'" using Suc.prems(1) readable_sameView [OF a(2)] by simp
    ultimately have "iterRows n db tx' opts snapshot it' = Inr (take n (tl (upcoming db tx opts it)))"
      using Suc.IH a(4) by metis
    with True a show ?thesis by (cases "upcoming db tx opts it") simp_all
  next
    case False
    with a have "itErr it' = None" using Advance_end [OF Suc.prems(2) assms(2) Suc.prems(1) assms(1)] by simp
    with False a show ?thesis by simp
  qed
qed simp

lemma Iterator_inv:
  assumes inv: "store_inv (store db) u" and v: "validOptions opts" and rd: "readable (ensureReadVersion db tx)"
    and i: "issueFirst db tx opts snapshot (FirstGreaterOrEqual b) (FirstGreaterOrEqual e) = (tx', f)"
  shows "readable tx' \<and> iter_inv db tx' opts (Iterator f) \<and> upcoming db tx' opts (Iterator f) =
     take (nat (EffectiveRowLimit (Limit opts))) (rowsOf db (ensureReadVersion db tx) (Reverse opts) b e)"
proof -
  let ?tx = "ensureReadVersion db tx" and ?L = "EffectiveRowLimit (Limit opts)"
  define D where "D = rowsOf db ?tx (Reverse opts) b e"
  obtain tx1 c f1 where i1: "issueFirst db tx opts snapshot (FirstGreaterOrEqual b) (FirstGreaterOrEqual e) = (tx1, f1)"
    and same1: "sameView tx1 ?tx" and f1: "fbErr f1 = None" "fbBatch f1 = take c D" "\<not> selOn (fbSel f1)" "fbLimit f1 = ?L"
    and c1: "int c \<le> fbLimit f1" "c \<le> length D" "\<not> fbMore f1 \<Longrightarrow> c = length D" "D \<noteq> [] \<Longrightarrow> 0 < c"
    and D1: "D = rowsOf db ?tx (Reverse opts) (fbBegin f1) (fbEnd f1)"
    using issueFirst_page [OF inv v rd D_def, of snapshot] by metis
  have "tx1 = tx'" "f1 = f" using i i1 by simp_all
  note same = same1 [unfolded this] and f = f1 [unfolded this] and c = c1 [unfolded this] and D = D1 [unfolded this]
  have scan: "scanRows db tx' opts (Iterator f) = D"
    using f(1) by (simp add: scanRows_def rowsOf_sameView [OF same] Iterator_def D [symmetric])
  have it: "itBatch (Iterator f) = []" "\<not> itExhausted (Iterator f)" "itRemaining (Iterator f) = ?L" "itErr (Iterator f) = None"
      "itFirst (Iterator f) = Some f" "itIteration (Iterator f) = 1" "itPos (Iterator f) = 0" "\<not> selOn (itSel (Iterator f))"
    using f by (simp_all add: Iterator_def)
  have "0 < ?L" using v EffectiveRowLimit_pos by (simp add: validOptions_def)
  then have "iter_inv db tx' opts (Iterator f)"
    unfolding iter_inv_def scan using it f c by auto
  moreover have "upcoming db tx' opts (Iterator f) = take (nat ?L) D"
    unfolding upcoming_def scan using it by simp
  ultimately show ?thesis using rd readable_sameView [OF same] by (simp add: D_def)
qed

section \<open>Properties\<close>

text \<open>
  (C9) Reading a range to the end, whatever the streaming mode, the byte budget of a reply and the paging
  of pending writes, returns exactly the rows of the transaction's view of that range in the order asked
  for, up to the row limit; the loop over replies always ends, and the reading leaves the view as it was.
\<close>

theorem getRangeSlice_rows:
  assumes "store_inv (store db) u" and "validOptions opts" and "readable (ensureReadVersion db tx)"
    and "R = buildViewRange db (ensureReadVersion db tx) b e"
  shows "\<exists>tx'. getRangeSlice db tx opts snapshot (FirstGreaterOrEqual b) (FirstGreaterOrEqual e) =
      (tx', Inr (take (nat (EffectiveRowLimit (Limit opts))) (if Reverse opts then rev R else R))) \<and>
      buildView db tx' = buildView db (ensureReadVersion db tx)"
proof -
  have R: "(if Reverse opts then rev R else R) = rowsOf db (ensureReadVersion db tx) (Reverse opts) b e"
    using assms(4) by (simp add: rowsOf_def buildViewRange_eq [OF assms(1)])
  show ?thesis
    using getRangeSlice_spec [OF assms(1-3) R, of snapshot] buildView_sameView by blast
qed

theorem getRangeSlice_rows_witness:
  "snd (getRangeSlice exampleDB exampleTxn \<lparr>Limit = 2, Mode = StreamingModeIterator, Reverse = True\<rparr> False
     (FirstGreaterOrEqual []) (FirstGreaterOrEqual [9])) = Inr [([4], Some []), ([3], Some [5])]"
proof -
  have R: "buildViewRange exampleDB (ensureReadVersion exampleDB exampleTxn) [] [9] =
    [([1], Some [8]), ([3], Some [5]), ([4], Some [])]" by code_simp
  have "validOptions \<lparr>Limit = 2, Mode = StreamingModeIterator, Reverse = True\<rparr>"
    by (simp add: validOptions_def modeTargetBytes_def Let_def)
  moreover have "readable (ensureReadVersion exampleDB exampleTxn)" by code_simp
  ultimately show ?thesis
    using getRangeSlice_rows [OF exampleDB_inv _ _ R [symmetric], of "\<lparr>Limit = 2, Mode = StreamingModeIterator, Reverse = True\<rparr>" False]
    by (auto simp: EffectiveRowLimit_def)
qed

text \<open>
  (C19) Stepping through a range with an iterator gives the same rows as collecting it in one call: the
  first \<open>n\<close> calls of Advance and Get return the first \<open>n\<close> rows, and once they are used up Advance
  returns false without an error.
\<close>

theorem iterator_slice:
  assumes "store_inv (store db) u" and "validOptions opts" and "readable (ensureReadVersion db tx)"
    and "issueFirst db tx opts snapshot (FirstGreaterOrEqual b) (FirstGreaterOrEqual e) = (tx', f)"
  shows "\<exists>kvs. snd (getRangeSlice db tx opts snapshot (FirstGreaterOrEqual b) (FirstGreaterOrEqual e)) = Inr kvs \<and>
    iterRows n db tx' opts snapshot (Iterator f) = Inr (take n kvs)"
  using getRangeSlice_spec [OF assms(1-3) refl, of snapshot b e] Iterator_inv [OF assms]
    iterRows_spec [OF assms(1,2), of tx' "Iterator f" n snapshot] by auto

theorem iterator_slice_witness:
  "\<exists>tx' f. issueFirst exampleDB exampleTxn \<lparr>Limit = 0, Mode = StreamingModeIterator, Reverse = False\<rparr> True
      (FirstGreaterOrEqual [2]) (FirstGreaterOrEqual [9]) = (tx', f) \<and>
    iterRows 7 exampleDB tx' \<lparr>Limit = 0, Mode = StreamingModeIterator, Reverse = False\<rparr> True (Iterator f) =
      Inr [([3], Some [5]), ([4], Some [])]"
proof -
  let ?o = "\<lparr>Limit = 0, Mode = StreamingModeIterator, Reverse = False\<rparr>"
  obtain tx' f where i: "issueFirst exampleDB exampleTxn ?o True (FirstGreaterOrEqual [2]) (FirstGreaterOrEqual [9]) = (tx', f)"
    by (cases "issueFirst exampleDB exampleTxn ?o True (FirstGreaterOrEqual [2]) (FirstGreaterOrEqual [9])")
  have "validOptions ?o" by (simp add: validOptions_def modeTargetBytes_def Let_def)
  moreover have "readable (ensureReadVersion exampleDB exampleTxn)" by code_simp
  moreover have "snd (getRangeSlice exampleDB exampleTxn ?o True (FirstGreaterOrEqual [2]) (FirstGreaterOrEqual [9])) =
    Inr [([3], Some [5]), ([4], Some [])]" by code_simp
  ultimately show ?thesis using iterator_slice [OF exampleDB_inv _ _ i, of 7] i by simp
qed

end
