(* ===== verification/KVTransaction.thy ===== *)
theory KVTransaction
  imports Keys
begin

text \<open>
  The interface through which the record layer uses a database: the operations of \<^verbatim>\<open>ReadTransaction\<close>
  and \<^verbatim>\<open>WritableTransaction\<close> (\<^verbatim>\<open>pkg/fdbgo/fdb/interfaces.go\<close>) that the components of this
  development call, as a record of functions on a transaction, and the contract of these operations as
  a locale.  The contract speaks about the view of the transaction, the value of every key as the
  transaction reads it.
\<close>

section \<open>Operations\<close>

text \<open>
  A read takes the flag of the snapshot view.  Where a Go method returns an error the operation returns
  an error code; the value of a row is a byte string, for the database holds no nil values.  A key with a
  pending versionstamped write cannot be read, so the contract below says nothing about these writes.
\<close>

type_synonym kv = "bytes \<times> bytes"

record 'tx writableTransaction =
  opGet :: "'tx \<Rightarrow> bytes \<Rightarrow> bool \<Rightarrow> 'tx \<times> (int, bytes option) result"
  opGetRange :: "'tx \<Rightarrow> bytes \<Rightarrow> bytes \<Rightarrow> RangeOptions \<Rightarrow> bool \<Rightarrow> 'tx \<times> (int, kv list) result"
  opSet :: "'tx \<Rightarrow> bytes \<Rightarrow> bytes \<Rightarrow> 'tx"
  opClear :: "'tx \<Rightarrow> bytes \<Rightarrow> 'tx"
  opClearRange :: "'tx \<Rightarrow> bytes \<Rightarrow> bytes \<Rightarrow> 'tx"
  opAddReadConflictRange :: "'tx \<Rightarrow> bytes \<Rightarrow> bytes \<Rightarrow> 'tx \<times> int option"
  opAddReadConflictKey :: "'tx \<Rightarrow> bytes \<Rightarrow> 'tx \<times> int option"
  opAddWriteConflictRange :: "'tx \<Rightarrow> bytes \<Rightarrow> bytes \<Rightarrow> 'tx \<times> int option"
  opSetVersionstampedKey :: "'tx \<Rightarrow> bytes \<Rightarrow> bytes option \<Rightarrow> 'tx"
  opSetVersionstampedValue :: "'tx \<Rightarrow> bytes \<Rightarrow> bytes option \<Rightarrow> 'tx"

section \<open>Contract\<close>

text \<open>The rows of a range: the keys of the range in order, each with its value in the view.\<close>

definition rowsIn :: "(bytes \<Rightarrow> bytes option) \<Rightarrow> bytes \<Rightarrow> bytes \<Rightarrow> kv list \<Rightarrow> bool" where
  "rowsIn V b e R \<longleftrightarrow> sorted_wrt (<) (map fst R) \<and>
     (\<forall>k. map_of R k = (if b \<le> k \<and> k < e then V k else None))"

text \<open>A read without a row limit ends after \<open>2\<^sup>3\<^sup>1 - 1\<close> rows (\<^verbatim>\<open>EffectiveRowLimit\<close>).\<close>

definition maxRows :: nat where
  "maxRows = 2147483647"

definition rowLimit :: "int \<Rightarrow> kv list \<Rightarrow> kv list" where
  "rowLimit limit R = take (if limit = 0 then maxRows else nat limit) R"

lemma rowsIn_set:
  assumes "rowsIn V b e R"
  shows "(k, v) \<in> set R \<longleftrightarrow> b \<le> k \<and> k < e \<and> V k = Some v"
proof -
  have "distinct (map fst R)" using assms by (simp add: rowsIn_def strict_sorted_iff)
  then have "(k, v) \<in> set R \<longleftrightarrow> map_of R k = Some v" by simp
  moreover have "map_of R k = (if b \<le> k \<and> k < e then V k else None)" using assms by (simp add: rowsIn_def)
  ultimately show ?thesis by (auto split: if_splits)
qed

lemma rowsIn_length:
  assumes "rowsIn V b e R" and "finite (dom V)"
  shows "length R \<le> card (dom V)"
proof -
  have "distinct (map fst R)" using assms(1) by (simp add: rowsIn_def strict_sorted_iff)
  then have "length R = card (fst ` set R)" by (metis distinct_card length_map list.set_map)
  also have "\<dots> \<le> card (dom V)"
    using assms by (intro card_mono) (auto simp: rowsIn_set [OF assms(1)])
  finally show ?thesis .
qed

locale kv_transaction =
  fixes ops :: "'tx writableTransaction"
    and ready :: "'tx \<Rightarrow> bool"
    and view :: "'tx \<Rightarrow> bytes \<Rightarrow> bytes option"
  assumes finite_view: "ready tx \<Longrightarrow> finite (dom (view tx))"
    and get_view: "ready tx \<Longrightarrow>
      \<exists>tx'. opGet ops tx k snapshot = (tx', Inr (view tx k)) \<and> ready tx' \<and> view tx' = view tx"
    and range_view: "ready tx \<Longrightarrow> 0 \<le> Limit opts \<Longrightarrow> Mode opts = 0 \<or> Mode opts = -1 \<Longrightarrow>
      \<exists>tx' R. opGetRange ops tx b e opts snapshot =
          (tx', Inr (rowLimit (Limit opts) (if Reverse opts then rev R else R))) \<and>
        ready tx' \<and> view tx' = view tx \<and> rowsIn (view tx) b e R"
    and set_view: "ready tx \<Longrightarrow> ready (opSet ops tx k v) \<and> view (opSet ops tx k v) = (view tx)(k := Some v)"
    and clear_view: "ready tx \<Longrightarrow> ready (opClear ops tx k) \<and> view (opClear ops tx k) = (view tx)(k := None)"
    and clearRange_view: "ready tx \<Longrightarrow> ready (opClearRange ops tx b e) \<and>
      view (opClearRange ops tx b e) = (\<lambda>k. if b \<le> k \<and> k < e then None else view tx k)"
    and readConflict_view: "ready tx \<Longrightarrow> b \<le> e \<Longrightarrow>
      \<exists>tx'. opAddReadConflictRange ops tx b e = (tx', None) \<and> ready tx' \<and> view tx' = view tx"
    and readConflictKey_view: "ready tx \<Longrightarrow>
      \<exists>tx'. opAddReadConflictKey ops tx k = (tx', None) \<and> ready tx' \<and> view tx' = view tx"
    and writeConflict_view: "ready tx \<Longrightarrow> b \<le> e \<Longrightarrow>
      \<exists>tx'. opAddWriteConflictRange ops tx b e = (tx', None) \<and> ready tx' \<and> view tx' = view tx"

begin

text \<open>A read without a limit, as long as the view has at most \<open>2\<^sup>3\<^sup>1 - 1\<close> keys.\<close>

lemma range_all:
  assumes "ready tx" and "card (dom (view tx)) \<le> maxRows" and "Mode opts = 0 \<or> Mode opts = -1"
    and "Limit opts = 0" and "\<not> Reverse opts"
  shows "\<exists>tx' R. opGetRange ops tx b e opts snapshot = (tx', Inr R) \<and>
    ready tx' \<and> view tx' = view tx \<and> rowsIn (view tx) b e R"
  using range_view [OF assms(1) _ assms(3), of b e snapshot] assms rowsIn_length finite_view [OF assms(1)]
  by (fastforce simp: rowLimit_def)

text \<open>The last row of a range.\<close>

lemma range_last:
  assumes "ready tx" and "Mode opts = 0 \<or> Mode opts = -1" and "Limit opts = 1" and "Reverse opts"
  shows "\<exists>tx' r. opGetRange ops tx b e opts snapshot = (tx', Inr r) \<and> ready tx' \<and> view tx' = view tx \<and>
    (case r of
       [] \<Rightarrow> \<forall>k. b \<le> k \<and> k < e \<longrightarrow> view tx k = None
     | (k, v) # r' \<Rightarrow> r' = [] \<and> b \<le> k \<and> k < e \<and> view tx k = Some v \<and>
         (\<forall>k'. k < k' \<and> k' < e \<longrightarrow> view tx k' = None))"
proof -
  obtain tx' R where r: "opGetRange ops tx b e opts snapshot = (tx', Inr (take 1 (rev R)))"
      "ready tx'" "view tx' = view tx" and R: "rowsIn (view tx) b e R"
    using range_view [OF assms(1) _ assms(2), of b e snapshot] assms(3,4) by (auto simp: rowLimit_def)
  have "case take 1 (rev R) of
       [] \<Rightarrow> \<forall>k. b \<le> k \<and> k < e \<longrightarrow> view tx k = None
     | (k, v) # r' \<Rightarrow> r' = [] \<and> b \<le> k \<and> k < e \<and> view tx k = Some v \<and>
         (\<forall>k'. k < k' \<and> k' < e \<longrightarrow> view tx k' = None)"
  proof (cases R rule: rev_cases)
    case Nil
    with R show ?thesis by (auto simp: rowsIn_def) metis
  next
    case (snoc Q x)
    obtain k v where x: "x = (k, v)" by (cases x)
    have kv: "b \<le> k" "k < e" "view tx k = Some v" using rowsIn_set [OF R, of k v] snoc x by simp_all
    have "view tx k' = None" if "k < k'" "k' < e" for k'
    proof (rule ccontr)
      assume "view tx k' \<noteq> None"
      then obtain v' where "view tx k' = Some v'" by auto
      moreover have "b \<le> k'" using kv(1) that(1) by simp
      ultimately have "(k', v') \<in> set R" using that(2) by (simp add: rowsIn_set [OF R])
      moreover have "\<forall>y \<in> set Q. fst y < k" using R snoc x by (auto simp: rowsIn_def sorted_wrt_append)
      ultimately show False using that(1) snoc x by auto
    qed
    with kv snoc x show ?thesis by simp
  qed
  with r show ?thesis by blast
qed

end

end
