(* ===== verification/SimKV.thy ===== *)
theory SimKV
  imports SimRange KVTransaction
begin

text \<open>
  The simulated transaction as an implementation of the interface of \<^theory_text>\<open>KVTransaction\<close>: the operations
  of \<^verbatim>\<open>simTxn\<close> in the shape of the interface, and the proof that they keep its contract.
\<close>

section \<open>The operations\<close>

text \<open>The rows of the simulated store as the interface gives them.\<close>

definition kvOf :: "row \<Rightarrow> kv" where
  "kvOf r = (fst r, presentBytes (snd r))"

definition simOps :: "simDB \<Rightarrow> simTxn writableTransaction" where
  "simOps db =
     \<lparr>opGet = get db,
      opGetRange = (\<lambda>tx b e opts snapshot.
        map_prod id (map_sum id (map kvOf))
          (getRangeSlice db tx opts snapshot (FirstGreaterOrEqual b) (FirstGreaterOrEqual e))),
      opSet = (\<lambda>tx k v. txnSet tx k (Some v)),
      opClear = txnClear,
      opClearRange = txnClearRange,
      opAddReadConflictRange = AddReadConflictRange,
      opAddReadConflictKey = (\<lambda>tx k. (AddReadConflictKey tx k, None)),
      opAddWriteConflictRange = AddWriteConflictRange,
      opSetVersionstampedKey = SetVersionstampedKey,
      opSetVersionstampedValue = SetVersionstampedValue\<rparr>"

text \<open>
  A transaction in ordinary use: open, reading its own writes, without pending versionstamped writes and
  without a pending write of a nil value.
\<close>

definition presentMutation :: "mutation \<Rightarrow> bool" where
  "presentMutation m \<longleftrightarrow>
     mkind m \<in> {mutClear, mutClearRange, mutAtomic} \<or> mvalue m \<noteq> None"

definition simReady :: "simDB \<Rightarrow> simTxn \<Rightarrow> bool" where
  "simReady db tx \<longleftrightarrow> (\<exists>u. store_inv (store db) u) \<and> \<not> cancelled tx \<and> \<not> rywDisabled tx \<and>
     \<not> hasUnreadable tx \<and> list_all presentMutation (buffer tx)"

definition simView :: "simDB \<Rightarrow> simTxn \<Rightarrow> bytes \<Rightarrow> bytes option" where
  "simView db tx k = resolveKey db (ensureReadVersion db tx) k"

section \<open>The contract\<close>

lemma viewStep_present:
  assumes "presentMutation m" and "cur \<noteq> Some None"
  shows "viewStep k cur m \<noteq> Some None"
  using assms applyAtomic_presence [of "mop m" "Option.bind cur id" "presentBytes (mvalue m)"]
  by (cases "mkind m") (auto simp: viewStep_def presentMutation_def Let_def split: prod.splits)

lemma viewOf_present:
  assumes "list_all presentMutation (buffer tx)"
  shows "viewOf db tx k \<noteq> Some None"
proof -
  have "cur \<noteq> Some None \<Longrightarrow> list_all presentMutation ms \<Longrightarrow> foldl (viewStep k) cur ms \<noteq> Some None" for cur ms
    by (induction ms arbitrary: cur) (simp_all add: viewStep_present)
  with assms show ?thesis by (simp add: viewOf_def Let_def)
qed

lemma simView_viewOf:
  assumes "simReady db tx"
  shows "viewOf db (ensureReadVersion db tx) k = map_option Some (simView db tx k)"
proof -
  have "list_all presentMutation (buffer (ensureReadVersion db tx))"
    using assms by (simp add: simReady_def ensureReadVersion_def)
  from viewOf_present [OF this, of db k] show ?thesis
    unfolding simView_def viewOf_resolveKey [symmetric] by (cases "viewOf db (ensureReadVersion db tx) k") auto
qed

lemma simReady_readable: "simReady db tx \<Longrightarrow> readable (ensureReadVersion db tx)"
  by (simp add: simReady_def readable_def ensureReadVersion_def hasUnreadable_def)

text \<open>What leaves the view alone.\<close>

lemma sim_sameView:
  assumes "simReady db tx" and "sameView tx' (ensureReadVersion db tx)"
  shows "simReady db tx' \<and> simView db tx' = simView db tx"
proof -
  have "rvSet (ensureReadVersion db tx)" by (simp add: ensureReadVersion_def)
  with assms(2) have "ensureReadVersion db tx' = tx'" by (simp add: sameView_def ensureReadVersion_def)
  then have "simView db tx' = simView db tx"
    using assms(2) by (simp add: simView_def resolveKey_def snapshotValue_def sameView_def fun_eq_iff Let_def)
  moreover have "simReady db tx'"
    using assms by (simp add: simReady_def sameView_def hasUnreadable_def ensureReadVersion_def split: if_splits)
  ultimately show ?thesis by simp
qed

lemma sim_sameView':
  assumes "simReady db tx" and "sameView tx' tx"
  shows "simReady db tx' \<and> simView db tx' = simView db tx"
  using assms
  by (simp add: simReady_def sameView_def hasUnreadable_def simView_def resolveKey_def snapshotValue_def
    ensureReadVersion_def fun_eq_iff Let_def)

lemma sameView_filteredKey [simp]: "sameView (addFilteredReadConflictKey tx k) tx"
  by (simp add: addFilteredReadConflictKey_def)

lemma sim_get:
  assumes "simReady db tx"
  shows "\<exists>tx'. get db tx k snapshot = (tx', Inr (simView db tx k)) \<and> simReady db tx' \<and> simView db tx' = simView db tx"
proof -
  let ?tx = "ensureReadVersion db tx"
  let ?t = "if \<not> snapshot then addFilteredReadConflictKey ?tx k else ?tx"
  have "\<not> isUnreadable ?tx k"
    using assms by (simp add: simReady_def isUnreadable_def hasUnreadable_def ensureReadVersion_def inUnreadableRange_def
      rangesHold_def sort_search_def)
  moreover have s: "sameView ?t ?tx" by simp
  moreover have "resolveKey db ?t k = simView db tx k"
    using s by (simp add: simView_def resolveKey_def snapshotValue_def sameView_def Let_def)
  moreover have "sameView (rememberRead ?t k (keyAfter k)) ?tx"
    using sameView_trans [OF sameView_rememberRead s] .
  ultimately show ?thesis using sim_sameView [OF assms] assms
    by (auto simp: get_def Let_def simReady_def)
qed

lemma sim_rows:
  assumes "simReady db tx"
  shows "rowsIn (simView db tx) b e (map kvOf (viewIn db (ensureReadVersion db tx) b e))"
proof -
  let ?tx = "ensureReadVersion db tx"
  obtain u where inv: "store_inv (store db) u" using assms by (auto simp: simReady_def)
  have s: "map fst (map kvOf (viewIn db ?tx b e)) = map fst (viewIn db ?tx b e)"
    by (simp add: kvOf_def comp_def)
  have "map_of (map kvOf (viewIn db ?tx b e)) k = map_option presentBytes (map_of (viewIn db ?tx b e) k)" for k
    unfolding kvOf_def using map_of_map [of presentBytes "viewIn db ?tx b e"]
    by (simp add: case_prod_beta' comp_def)
  moreover have "map_of (viewIn db ?tx b e) k = (if b \<le> k \<and> k < e then viewOf db ?tx k else None)" for k
    using map_of_filter_key [of "\<lambda>k. b \<le> k \<and> k < e" "buildView db ?tx" k] buildView_spec(2) [OF inv, of ?tx k] by simp
  ultimately show ?thesis unfolding rowsIn_def s using sorted_viewIn [OF inv, where tx = ?tx and b = b and e = e]
    by (simp add: simView_viewOf [OF assms] option.map_comp comp_def presentBytes_def option.map_ident)
qed

lemma sim_range:
  assumes "simReady db tx" and "0 \<le> Limit opts" and "Mode opts = 0 \<or> Mode opts = -1"
  shows "\<exists>tx' R. opGetRange (simOps db) tx b e opts snapshot =
      (tx', Inr (rowLimit (Limit opts) (if Reverse opts then rev R else R))) \<and>
    simReady db tx' \<and> simView db tx' = simView db tx \<and> rowsIn (simView db tx) b e R"
proof -
  let ?tx = "ensureReadVersion db tx"
  obtain u where inv: "store_inv (store db) u" using assms by (auto simp: simReady_def)
  have "validOptions opts"
    using assms(2,3) by (auto simp: validOptions_def modeTargetBytes_def cModeIndex_def modeBytesTable_def Let_def)
  from getRangeSlice_spec [OF inv this simReady_readable [OF assms(1)] refl, of snapshot b e]
  obtain tx' where t: "getRangeSlice db tx opts snapshot (FirstGreaterOrEqual b) (FirstGreaterOrEqual e) =
      (tx', Inr (take (nat (EffectiveRowLimit (Limit opts))) (rowsOf db ?tx (Reverse opts) b e)))"
    and same: "sameView tx' ?tx" by blast
  have "map kvOf (take (nat (EffectiveRowLimit (Limit opts))) (rowsOf db ?tx (Reverse opts) b e)) =
      rowLimit (Limit opts) (if Reverse opts then rev (map kvOf (viewIn db ?tx b e)) else map kvOf (viewIn db ?tx b e))"
    using assms(2) by (simp add: rowLimit_def EffectiveRowLimit_def rowsOf_def take_map rev_map maxRows_def)
  then show ?thesis using t sim_rows [OF assms(1), of b e] sim_sameView [OF assms(1) same]
    by (fastforce simp: simOps_def)
qed

text \<open>What adds one mutation to the buffer.\<close>

definition appends :: "simTxn \<Rightarrow> simTxn \<Rightarrow> mutation \<Rightarrow> bool" where
  "appends tx' tx m \<longleftrightarrow> buffer tx' = buffer tx @ [m] \<and> readVersion tx' = readVersion tx \<and> rvSet tx' = rvSet tx \<and>
     rywDisabled tx' = rywDisabled tx \<and> cancelled tx' = cancelled tx \<and> (hasUnreadable tx' \<longrightarrow> hasUnreadable tx)"

lemma sim_appends:
  assumes "simReady db tx" and "appends tx' tx m" and "presentMutation m"
  shows "simReady db tx' \<and> simView db tx' = (\<lambda>k. replayStep k (simView db tx k) m)"
proof -
  have "simReady db tx'" using assms by (auto simp: simReady_def appends_def)
  moreover have "simView db tx' k = replayStep k (simView db tx k) m" for k
    using assms by (simp add: simView_def resolveKey_def snapshotValue_def ensureReadVersion_def Let_def appends_def
      simReady_def)
  ultimately show ?thesis by blast
qed

lemma appends_enqueue:
  "\<exists>w. appends (enqueue tx m) tx (m\<lparr>mnoWriteConflict := w\<rparr>)"
  by (intro exI [of _ "nextWriteNoConflict tx"])
    (simp add: appends_def enqueue_def Let_def addWriteConflict_def hasUnreadable_def)

lemma appends_weaken:
  assumes "appends tx' tx1 m" and "buffer tx1 = buffer tx" and "readVersion tx1 = readVersion tx" and "rvSet tx1 = rvSet tx"
    and "rywDisabled tx1 = rywDisabled tx" and "cancelled tx1 = cancelled tx" and "hasUnreadable tx1 \<longrightarrow> hasUnreadable tx"
  shows "appends tx' tx m"
  using assms by (simp add: appends_def)

lemma subtractRange_Nil [simp]: "subtractRange [] b e = []"
  by (simp add: subtractRange_def)

lemma sim_set:
  "simReady db tx \<Longrightarrow> simReady db (txnSet tx k (Some v)) \<and>
     simView db (txnSet tx k (Some v)) = (simView db tx)(k := Some v)"
  using appends_enqueue [of tx "mutationOf mutSet k [] (presentVal (Some v))"]
    sim_appends [of db tx "txnSet tx k (Some v)"]
  by (auto simp: txnSet_def mutationOf_def presentMutation_def replayStep_def presentVal_def presentBytes_def fun_eq_iff)

lemma sim_clear:
  assumes "simReady db tx"
  shows "simReady db (txnClear tx k) \<and> simView db (txnClear tx k) = (simView db tx)(k := None)"
proof -
  obtain w where "appends (txnClear tx k) (clearUnreadable tx k) ((mutationOf mutClear k [] None)\<lparr>mnoWriteConflict := w\<rparr>)"
    unfolding txnClear_def using appends_enqueue by blast
  then have "appends (txnClear tx k) tx ((mutationOf mutClear k [] None)\<lparr>mnoWriteConflict := w\<rparr>)"
    by (rule appends_weaken) (auto simp: clearUnreadable_def subtractUnreadableRange_def hasUnreadable_def)
  from sim_appends [OF assms this] show ?thesis
    by (auto simp: mutationOf_def presentMutation_def replayStep_def fun_eq_iff)
qed

lemma sim_clearRange:
  assumes "simReady db tx"
  shows "simReady db (txnClearRange tx b e) \<and>
    simView db (txnClearRange tx b e) = (\<lambda>k. if b \<le> k \<and> k < e then None else simView db tx k)"
proof -
  obtain w where "appends (txnClearRange tx b e) (clearUnreadableRange tx b e)
      ((mutationOf mutClearRange b e None)\<lparr>mnoWriteConflict := w\<rparr>)"
    unfolding txnClearRange_def using appends_enqueue by blast
  then have "appends (txnClearRange tx b e) tx ((mutationOf mutClearRange b e None)\<lparr>mnoWriteConflict := w\<rparr>)"
    by (rule appends_weaken) (use assms in \<open>auto simp: clearUnreadableRange_def subtractUnreadableRange_def hasUnreadable_def simReady_def\<close>)
  from sim_appends [OF assms this] show ?thesis
    by (auto simp: mutationOf_def presentMutation_def replayStep_def fun_eq_iff)
qed

lemma sameView_conflictRange:
  assumes "b \<le> e"
  shows "\<exists>tx'. AddReadConflictRange tx b e = (tx', None) \<and> sameView tx' tx"
    and "\<exists>tx'. AddWriteConflictRange tx b e = (tx', None) \<and> sameView tx' tx"
proof -
  have w: "sameView (addWriteConflict tx c d) tx" for c d by (simp add: sameView_def addWriteConflict_def)
  have "\<exists>r. clampConflictRange b e = Inr r"
    using assms by (auto simp: clampConflictRange_def Let_def)
  then obtain r where r: "clampConflictRange b e = Inr r" by blast
  show "\<exists>tx'. AddReadConflictRange tx b e = (tx', None) \<and> sameView tx' tx"
    by (cases r) (auto simp: AddReadConflictRange_def r split: prod.splits)
  show "\<exists>tx'. AddWriteConflictRange tx b e = (tx', None) \<and> sameView tx' tx"
    by (cases r) (auto simp: AddWriteConflictRange_def r w split: prod.splits)
qed

lemma sim_readConflict:
  assumes "simReady db tx" and "b \<le> e"
  shows "\<exists>tx'. AddReadConflictRange tx b e = (tx', None) \<and> simReady db tx' \<and> simView db tx' = simView db tx"
  using sameView_conflictRange(1) [OF assms(2)] sim_sameView' [OF assms(1)] by blast

lemma sim_writeConflict:
  assumes "simReady db tx" and "b \<le> e"
  shows "\<exists>tx'. AddWriteConflictRange tx b e = (tx', None) \<and> simReady db tx' \<and> simView db tx' = simView db tx"
  using sameView_conflictRange(2) [OF assms(2)] sim_sameView' [OF assms(1)] by blast

lemma sim_readConflictKey:
  "simReady db tx \<Longrightarrow> simReady db (AddReadConflictKey tx k) \<and> simView db (AddReadConflictKey tx k) = simView db tx"
  using sim_sameView' [of db tx "addFilteredReadConflictKey tx k"] by (simp add: AddReadConflictKey_def)

lemma sim_finite:
  assumes "simReady db tx"
  shows "dom (simView db tx) = fst ` set (buildView db (ensureReadVersion db tx))"
proof -
  obtain u where inv: "store_inv (store db) u" using assms by (auto simp: simReady_def)
  have "simView db tx k \<noteq> None \<longleftrightarrow> map_of (buildView db (ensureReadVersion db tx)) k \<noteq> None" for k
    using simView_viewOf [OF assms, of k] by (simp add: buildView_spec(2) [OF inv])
  then show ?thesis by (auto simp: map_of_eq_None_iff dom_def)
qed

interpretation sim: kv_transaction "simOps db" "simReady db" "simView db" for db
proof
  fix tx k v b e snapshot and opts :: RangeOptions
  show "simReady db tx \<Longrightarrow> finite (dom (simView db tx))" by (simp add: sim_finite)
  show "simReady db tx \<Longrightarrow> 0 \<le> Limit opts \<Longrightarrow> Mode opts = 0 \<or> Mode opts = -1 \<Longrightarrow>
      \<exists>tx' R. opGetRange (simOps db) tx b e opts snapshot =
          (tx', Inr (rowLimit (Limit opts) (if Reverse opts then rev R else R))) \<and>
        simReady db tx' \<and> simView db tx' = simView db tx \<and> rowsIn (simView db tx) b e R"
    by (rule sim_range)
qed (simp_all add: simOps_def sim_get sim_set sim_clear sim_clearRange sim_readConflict sim_writeConflict
  sim_readConflictKey)

text \<open>The number of keys of a view, and the empty database.\<close>

lemma simReady_new: "simReady (newSimDB None) newTxn"
  by (auto simp: simReady_def newSimDB_def newTxn_def store_inv_def hasUnreadable_def)

lemma simView_new: "simView (newSimDB None) newTxn = (\<lambda>k. None)"
  by (simp add: fun_eq_iff simView_def resolveKey_def snapshotValue_def newSimDB_def newTxn_def
    ensureReadVersion_def valueAt_def search_def sort_search_def)

lemma card_simView:
  "simReady db tx \<Longrightarrow> length (buildView db (ensureReadVersion db tx)) \<le> n \<Longrightarrow> card (dom (simView db tx)) \<le> n"
  using card_length [of "map fst (buildView db (ensureReadVersion db tx))"] by (simp add: sim_finite)

lemma example_small: "length (buildView (newSimDB None) (ensureReadVersion (newSimDB None) newTxn)) \<le> maxRows"
  by (simp add: buildView_def newSimDB_def newTxn_def ensureReadVersion_def sortedView_def)

end
