(* ===== verification/TupleEncode.thy ===== *)
theory TupleEncode
  imports Prelude
begin

text \<open>
  The packing half of the tuple layer, \<^verbatim>\<open>src/pkg/fdbgo/fdb/tuple/tuple.go\<close>: the tuple element
  types, the \<^verbatim>\<open>packer\<close> with its buffer and versionstamp position, one definition per encoder, and
  the packing entry points.  A Go panic is the left summand of the result.  Floats are their IEEE
  bit patterns, because the code only ever handles those bits.
\<close>

section \<open>Elements\<close>

record versionstamp =
  TransactionVersion :: bytes
  UserVersion :: "16 word"

text \<open>
  The dynamic types a \<^verbatim>\<open>TupleElement\<close> may have.  \<open>EBigInt\<close> is \<^verbatim>\<open>*big.Int\<close> and
  \<^verbatim>\<open>big.Int\<close>; \<open>EKey\<close> is any other \<^verbatim>\<open>fdb.KeyConvertible\<close>, by the key it converts to.
\<close>

datatype tuple_element =
    ENil
  | EBytes bytes
  | EString bytes
  | ETuple "tuple_element list"
  | EInt "64 word"
  | EInt64 "64 word"
  | EUint "64 word"
  | EUint64 "64 word"
  | EBigInt int
  | EFloat32 "32 word"
  | EFloat64 "64 word"
  | EBool bool
  | EUUID bytes
  | EVersionstamp versionstamp
  | EKey bytes

type_synonym tuple = "tuple_element list"

text \<open>Go arrays have a fixed length: 16 bytes in a UUID, 10 in a transaction version.\<close>

fun element_wf :: "tuple_element \<Rightarrow> bool" where
  "element_wf (ETuple t) = (\<forall>e \<in> set t. element_wf e)"
| "element_wf (EUUID u) = (length u = 16)"
| "element_wf (EVersionstamp v) = (length (TransactionVersion v) = 10)"
| "element_wf _ = True"

definition tuple_wf :: "tuple \<Rightarrow> bool" where
  "tuple_wf t \<longleftrightarrow> (\<forall>e \<in> set t. element_wf e)"

lemma tuple_wf_simps [simp]:
  "tuple_wf []" "tuple_wf (e # t) \<longleftrightarrow> element_wf e \<and> tuple_wf t"
  "tuple_wf (s @ t) \<longleftrightarrow> tuple_wf s \<and> tuple_wf t"
  by (auto simp: tuple_wf_def)

definition incompleteTransactionVersion :: bytes where
  "incompleteTransactionVersion = replicate 10 0xFF"

definition IncompleteVersionstamp :: "16 word \<Rightarrow> versionstamp" where
  "IncompleteVersionstamp userVersion =
     \<lparr>TransactionVersion = incompleteTransactionVersion, UserVersion = userVersion\<rparr>"

definition versionstampBytes :: "versionstamp \<Rightarrow> bytes" where
  "versionstampBytes v = TransactionVersion v @ be_bytes 2 (unat (UserVersion v))"

section \<open>Type codes\<close>

abbreviation nilCode :: byte where "nilCode \<equiv> 0x00"
abbreviation bytesCode :: byte where "bytesCode \<equiv> 0x01"
abbreviation stringCode :: byte where "stringCode \<equiv> 0x02"
abbreviation nestedCode :: byte where "nestedCode \<equiv> 0x05"
abbreviation negIntStart :: byte where "negIntStart \<equiv> 0x0b"
abbreviation intZeroCode :: byte where "intZeroCode \<equiv> 0x14"
abbreviation posIntEnd :: byte where "posIntEnd \<equiv> 0x1d"
abbreviation floatCode :: byte where "floatCode \<equiv> 0x20"
abbreviation doubleCode :: byte where "doubleCode \<equiv> 0x21"
abbreviation falseCode :: byte where "falseCode \<equiv> 0x26"
abbreviation trueCode :: byte where "trueCode \<equiv> 0x27"
abbreviation uuidCode :: byte where "uuidCode \<equiv> 0x30"
abbreviation versionstampCode :: byte where "versionstampCode \<equiv> 0x33"

section \<open>The packer\<close>

record packer =
  versionstampPos :: "32 word"
  buf :: bytes

datatype pack_panic = MagnitudeTooLarge | MultipleIncomplete | IncompleteInVanillaPack

definition newPacker :: packer where
  "newPacker = \<lparr>versionstampPos = -1, buf = []\<rparr>"

definition putByte :: "packer \<Rightarrow> byte \<Rightarrow> packer" where
  "putByte p b = p\<lparr>buf := buf p @ [b]\<rparr>"

definition putBytes :: "packer \<Rightarrow> bytes \<Rightarrow> packer" where
  "putBytes p b = p\<lparr>buf := buf p @ b\<rparr>"

text \<open>\<^verbatim>\<open>bytes.IndexByte\<close>; its result \<open>-1\<close> is \<open>None\<close>.\<close>

fun indexByte :: "bytes \<Rightarrow> byte \<Rightarrow> nat option" where
  "indexByte [] c = None"
| "indexByte (b # bs) c = (if b = c then Some 0 else map_option Suc (indexByte bs c))"

function putBytesNil :: "packer \<Rightarrow> bytes \<Rightarrow> nat option \<Rightarrow> packer" where
  "putBytesNil p b None = putBytes p b"
| "putBytesNil p b (Some i) =
     (let p = putBytes p (take (i + 1) b);
          p = putByte p 0xFF;
          b = drop (i + 1) b
      in putBytesNil p b (indexByte b 0x00))"
  by pat_completeness auto
termination
proof (relation "measure (\<lambda>(p, b, i). case i of None \<Rightarrow> 0 | Some _ \<Rightarrow> length b + 1)")
  fix p :: packer and b :: bytes and i pa pb and c :: bytes
  assume "c = drop (i + 1) b"
  then show "((pb, c, indexByte c 0), p, b, Some i)
      \<in> measure (\<lambda>(p, b, i). case i of None \<Rightarrow> 0 | Some _ \<Rightarrow> length b + 1)"
    by (cases b) (auto split: option.splits)
qed simp

definition encodeBytes :: "packer \<Rightarrow> byte \<Rightarrow> bytes \<Rightarrow> packer" where
  "encodeBytes p code b =
     (let p = putByte p code;
          p = (case indexByte b 0x00 of
                 Some i \<Rightarrow> putBytesNil p b (Some i)
               | None \<Rightarrow> putBytes p b)
      in putByte p 0x00)"

definition sizeLimits :: "64 word list" where
  "sizeLimits = [0, 0xFF, 0xFFFF, 0xFFFFFF, 0xFFFFFFFF, 0xFFFFFFFFFF, 0xFFFFFFFFFFFF,
     0xFFFFFFFFFFFFFF, 0xFFFFFFFFFFFFFFFF]"

text \<open>
  The loop of \<^verbatim>\<open>bisectLeft\<close> runs up the limits; the last one is the largest \<^verbatim>\<open>uint64\<close>, so the
  index never leaves the table.
\<close>

fun bisectLeftLoop :: "64 word list \<Rightarrow> 64 word \<Rightarrow> nat \<Rightarrow> nat" where
  "bisectLeftLoop [] u n = n"
| "bisectLeftLoop (l # ls) u n = (if l < u then bisectLeftLoop ls u (n + 1) else n)"

definition bisectLeft :: "64 word \<Rightarrow> nat" where
  "bisectLeft u = bisectLeftLoop sizeLimits u 0"

definition encodeUint :: "packer \<Rightarrow> 64 word \<Rightarrow> packer" where
  "encodeUint p i =
     (if i = 0 then putByte p intZeroCode
      else let n = bisectLeft i;
               p = putByte p (intZeroCode + of_nat n);
               scratch = be_bytes 8 (unat i)
           in putBytes p (drop (8 - n) scratch))"

definition encodeInt :: "packer \<Rightarrow> 64 word \<Rightarrow> packer" where
  "encodeInt p i =
     (if 0 \<le> sint i then encodeUint p i
      else let n = bisectLeft (- i);
               p = putByte p (intZeroCode - of_nat n);
               offsetEncoded = sizeLimits ! n + i;
               scratch = be_bytes 8 (unat offsetEncoded)
           in putBytes p (drop (8 - n) scratch))"

text \<open>\<^verbatim>\<open>big.Int.Bytes\<close>: the absolute value, big-endian, without leading zeros.\<close>

fun big_bytes :: "nat \<Rightarrow> bytes" where
  "big_bytes x = (if x = 0 then [] else big_bytes (x div 256) @ [of_nat x])"

declare big_bytes.simps [simp del]

definition encodeBigInt :: "packer \<Rightarrow> int \<Rightarrow> (pack_panic, packer) result" where
  "encodeBigInt p i =
     (let len = length (big_bytes (nat \<bar>i\<bar>))
      in if len > 0xff then Inl MagnitudeTooLarge
         else if 0 \<le> i
         then let intBytes = big_bytes (nat i);
                  p = (if len > 8
                       then putByte (putByte p posIntEnd) (of_nat (length intBytes))
                       else putByte p (intZeroCode + of_nat len))
              in Inr (putBytes p intBytes)
         else let transformed = i + (2 ^ (len * 8) - 1);
                  intBytes = big_bytes (nat \<bar>transformed\<bar>);
                  p = (if len > 8
                       then putByte (putByte p negIntStart) (of_nat len XOR 0xff)
                       else putByte p (intZeroCode - of_nat len));
                  p = putBytes p (replicate (len - length intBytes) 0x00)
              in Inr (putBytes p intBytes))"

definition adjustFloatBytes :: "bytes \<Rightarrow> bool \<Rightarrow> bytes" where
  "adjustFloatBytes b encode =
     (if (encode \<and> b ! 0 AND 0x80 \<noteq> 0) \<or> (\<not> encode \<and> b ! 0 AND 0x80 = 0)
      then map (\<lambda>x. x XOR 0xff) b
      else b[0 := b ! 0 XOR 0x80])"

definition encodeFloat :: "packer \<Rightarrow> 32 word \<Rightarrow> packer" where
  "encodeFloat p f =
     putBytes (putByte p floatCode) (adjustFloatBytes (be_bytes 4 (unat f)) True)"

definition encodeDouble :: "packer \<Rightarrow> 64 word \<Rightarrow> packer" where
  "encodeDouble p d =
     putBytes (putByte p doubleCode) (adjustFloatBytes (be_bytes 8 (unat d)) True)"

definition encodeUUID :: "packer \<Rightarrow> bytes \<Rightarrow> packer" where
  "encodeUUID p u = putBytes (putByte p uuidCode) u"

definition encodeVersionstamp :: "packer \<Rightarrow> versionstamp \<Rightarrow> (pack_panic, packer) result" where
  "encodeVersionstamp p v =
     (let p = putByte p versionstampCode
      in if TransactionVersion v = incompleteTransactionVersion
         then if versionstampPos p \<noteq> -1 then Inl MultipleIncomplete
              else Inr (putBytes (p\<lparr>versionstampPos := of_nat (length (buf p))\<rparr>) (versionstampBytes v))
         else Inr (putBytes p (versionstampBytes v)))"

text \<open>
  The body of the type switch (\<open>encodeCase\<close>), the loop over the elements (\<open>encodeElems\<close>) and
  \<^verbatim>\<open>encodeTuple\<close> itself.
\<close>

fun encodeTuple :: "packer \<Rightarrow> tuple \<Rightarrow> bool \<Rightarrow> bool \<Rightarrow> (pack_panic, packer) result"
  and encodeElems :: "packer \<Rightarrow> tuple \<Rightarrow> bool \<Rightarrow> bool \<Rightarrow> (pack_panic, packer) result"
  and encodeCase :: "packer \<Rightarrow> tuple_element \<Rightarrow> bool \<Rightarrow> bool \<Rightarrow> (pack_panic, packer) result"
where
  "encodeTuple p t nested versionstamps =
     (let p = (if nested then putByte p nestedCode else p)
      in case encodeElems p t nested versionstamps of
           Inl e \<Rightarrow> Inl e
         | Inr p \<Rightarrow> Inr (if nested then putByte p 0x00 else p))"
| "encodeElems p [] nested versionstamps = Inr p"
| "encodeElems p (e # es) nested versionstamps =
     (case encodeCase p e nested versionstamps of
        Inl err \<Rightarrow> Inl err
      | Inr p \<Rightarrow> encodeElems p es nested versionstamps)"
| "encodeCase p (ETuple t) nested versionstamps = encodeTuple p t True versionstamps"
| "encodeCase p ENil nested versionstamps =
     Inr (if nested then putByte (putByte p nilCode) 0xff else putByte p nilCode)"
| "encodeCase p (EInt i) nested versionstamps = Inr (encodeInt p i)"
| "encodeCase p (EInt64 i) nested versionstamps = Inr (encodeInt p i)"
| "encodeCase p (EUint u) nested versionstamps = Inr (encodeUint p u)"
| "encodeCase p (EUint64 u) nested versionstamps = Inr (encodeUint p u)"
| "encodeCase p (EBigInt i) nested versionstamps = encodeBigInt p i"
| "encodeCase p (EBytes b) nested versionstamps = Inr (encodeBytes p bytesCode b)"
| "encodeCase p (EKey k) nested versionstamps = Inr (encodeBytes p bytesCode k)"
| "encodeCase p (EString s) nested versionstamps = Inr (encodeBytes p stringCode s)"
| "encodeCase p (EFloat32 f) nested versionstamps = Inr (encodeFloat p f)"
| "encodeCase p (EFloat64 d) nested versionstamps = Inr (encodeDouble p d)"
| "encodeCase p (EBool b) nested versionstamps = Inr (putByte p (if b then trueCode else falseCode))"
| "encodeCase p (EUUID u) nested versionstamps = Inr (encodeUUID p u)"
| "encodeCase p (EVersionstamp v) nested versionstamps =
     (if \<not> versionstamps \<and> TransactionVersion v = incompleteTransactionVersion
      then Inl IncompleteInVanillaPack
      else encodeVersionstamp p v)"

text \<open>\<^verbatim>\<open>encodeElement\<close>, the same switch for one element outside any tuple.\<close>

fun encodeElement :: "packer \<Rightarrow> tuple_element \<Rightarrow> (pack_panic, packer) result" where
  "encodeElement p (ETuple t) = encodeTuple p t True False"
| "encodeElement p ENil = Inr (putByte p nilCode)"
| "encodeElement p (EInt i) = Inr (encodeInt p i)"
| "encodeElement p (EInt64 i) = Inr (encodeInt p i)"
| "encodeElement p (EUint u) = Inr (encodeUint p u)"
| "encodeElement p (EUint64 u) = Inr (encodeUint p u)"
| "encodeElement p (EBigInt i) = encodeBigInt p i"
| "encodeElement p (EBytes b) = Inr (encodeBytes p bytesCode b)"
| "encodeElement p (EKey k) = Inr (encodeBytes p bytesCode k)"
| "encodeElement p (EString s) = Inr (encodeBytes p stringCode s)"
| "encodeElement p (EFloat32 f) = Inr (encodeFloat p f)"
| "encodeElement p (EFloat64 d) = Inr (encodeDouble p d)"
| "encodeElement p (EBool b) = Inr (putByte p (if b then trueCode else falseCode))"
| "encodeElement p (EUUID u) = Inr (encodeUUID p u)"
| "encodeElement p (EVersionstamp v) =
     (if TransactionVersion v = incompleteTransactionVersion
      then Inl IncompleteInVanillaPack
      else encodeVersionstamp p v)"

section \<open>Packing entry points\<close>

definition Pack :: "tuple \<Rightarrow> (pack_panic, bytes) result" where
  "Pack t = (case encodeTuple newPacker t False False of Inl e \<Rightarrow> Inl e | Inr p \<Rightarrow> Inr (buf p))"

text \<open>
  The pooled variants take the packer \<^verbatim>\<open>packerPool.Get\<close> hands out, in whatever state its last
  user left it, and reset it first.
\<close>

definition resetPacker :: "packer \<Rightarrow> packer" where
  "resetPacker p = p\<lparr>versionstampPos := -1, buf := []\<rparr>"

definition PackWithPrefix :: "packer \<Rightarrow> tuple \<Rightarrow> bytes \<Rightarrow> (pack_panic, bytes) result" where
  "PackWithPrefix pooled t prefix =
     (case encodeTuple (resetPacker pooled) t False False of
        Inl e \<Rightarrow> Inl e
      | Inr p \<Rightarrow> Inr (prefix @ buf p))"

fun encodeTuples :: "packer \<Rightarrow> tuple list \<Rightarrow> (pack_panic, packer) result" where
  "encodeTuples p [] = Inr p"
| "encodeTuples p (t # ts) =
     (case encodeTuple p t False False of Inl e \<Rightarrow> Inl e | Inr p \<Rightarrow> encodeTuples p ts)"

definition PackConcatWithPrefix :: "packer \<Rightarrow> bytes \<Rightarrow> tuple list \<Rightarrow> (pack_panic, bytes) result" where
  "PackConcatWithPrefix pooled prefix tuples =
     (case encodeTuples (resetPacker pooled) tuples of
        Inl e \<Rightarrow> Inl e
      | Inr p \<Rightarrow> Inr (prefix @ buf p))"

definition Pack1WithPrefix :: "packer \<Rightarrow> bytes \<Rightarrow> tuple_element \<Rightarrow> (pack_panic, bytes) result" where
  "Pack1WithPrefix pooled prefix elem =
     (case encodeElement (resetPacker pooled) elem of
        Inl e \<Rightarrow> Inl e
      | Inr p \<Rightarrow> Inr (prefix @ buf p))"

definition Pack1ConcatWithPrefix ::
  "packer \<Rightarrow> bytes \<Rightarrow> tuple_element \<Rightarrow> tuple \<Rightarrow> (pack_panic, bytes) result" where
  "Pack1ConcatWithPrefix pooled prefix elem suffix =
     (case encodeElement (resetPacker pooled) elem of
        Inl e \<Rightarrow> Inl e
      | Inr p \<Rightarrow>
          (case encodeTuple p suffix False False of
             Inl e \<Rightarrow> Inl e
           | Inr p \<Rightarrow> Inr (prefix @ buf p)))"

text \<open>
  \<^verbatim>\<open>Packer.AppendInto\<close>: the caller's buffer extended by the prefix and the packed bytes, and the
  slice it returns.  The capacity growth only decides whether the buffer is reallocated.
\<close>

definition AppendInto :: "packer \<Rightarrow> bytes \<Rightarrow> bytes \<Rightarrow> bytes \<times> bytes" where
  "AppendInto pk b prefix =
     (let start = length b;
          needed = start + length prefix + length (buf pk);
          b = b @ prefix @ buf pk
      in (b, take (needed - start) (drop start b)))"

fun countIncompleteVersionstamps :: "tuple \<Rightarrow> nat" where
  "countIncompleteVersionstamps [] = 0"
| "countIncompleteVersionstamps (EVersionstamp v # es) =
     (if TransactionVersion v = incompleteTransactionVersion then 1 else 0)
     + countIncompleteVersionstamps es"
| "countIncompleteVersionstamps (ETuple t # es) =
     countIncompleteVersionstamps t + countIncompleteVersionstamps es"
| "countIncompleteVersionstamps (_ # es) = countIncompleteVersionstamps es"

datatype pack_failure =
    Panic pack_panic
  | ErrMultipleIncomplete
  | ErrNoIncomplete
  | ErrApiVersionUnset
  | ErrPositionTooLarge

definition HasIncompleteVersionstamp :: "tuple \<Rightarrow> bool \<times> pack_failure option" where
  "HasIncompleteVersionstamp t =
     (let incompleteCount = countIncompleteVersionstamps t
      in (incompleteCount \<ge> 1, if incompleteCount > 1 then Some ErrMultipleIncomplete else None))"

text \<open>The selected API version is process state outside this package, \<open>None\<close> while unset.\<close>

definition PackWithVersionstamp ::
  "int option \<Rightarrow> tuple \<Rightarrow> bytes \<Rightarrow> (pack_failure, bytes) result" where
  "PackWithVersionstamp apiVersion t prefix =
     (case HasIncompleteVersionstamp t of (hasVersionstamp, err) \<Rightarrow>
        (case err of
           Some e \<Rightarrow> Inl e
         | None \<Rightarrow>
             (case apiVersion of
                None \<Rightarrow> Inl ErrApiVersionUnset
              | Some api \<Rightarrow>
                  if \<not> hasVersionstamp then Inl ErrNoIncomplete
                  else case encodeTuple (putBytes newPacker prefix) t False True of
                         Inl e \<Rightarrow> Inl (Panic e)
                       | Inr p \<Rightarrow>
                           if api < 520
                           then if sint (versionstampPos p) > 65535 then Inl ErrPositionTooLarge
                                else Inr (buf p @ le_bytes 2 (unat (versionstampPos p)))
                           else Inr (buf p @ le_bytes 4 (unat (versionstampPos p))))))"

definition FDBRangeKeys :: "tuple \<Rightarrow> (pack_panic, bytes \<times> bytes) result" where
  "FDBRangeKeys t =
     (case Pack t of Inl e \<Rightarrow> Inl e | Inr p \<Rightarrow> Inr (p @ [0x00], p @ [0xFF]))"

end
