(* ===== verification/TupleCode.thy ===== *)
theory TupleCode
  imports TupleEncode
begin

text \<open>
  The format the packer writes, as a function from elements to bytes, and the lemmas that the
  encoders of \<open>TupleEncode\<close> append exactly that format to the buffer: an integer's code depends on
  its value alone whatever Go type carries it, byte strings are escaped, a nested tuple is
  bracketed.  The decoder, the comparison and the subspace theories rest on these lemmas.
\<close>

section \<open>Escaped byte strings\<close>

definition escape :: "bytes \<Rightarrow> bytes" where
  "escape b = concat (map (\<lambda>x. if x = 0 then [0, 0xFF] else [x]) b)"

lemma escape_simps [simp]:
  "escape [] = []" "escape (x # b) = (if x = 0 then [0, 0xFF] else [x]) @ escape b"
  "escape (a @ b) = escape a @ escape b"
  by (simp_all add: escape_def)

lemma escape_no_zero: "0 \<notin> set b \<Longrightarrow> escape b = b"
  by (induction b) auto

lemma indexByte_Some:
  "indexByte b c = Some i \<Longrightarrow> i < length b \<and> b ! i = c \<and> c \<notin> set (take i b)"
  by (induction b arbitrary: i) (auto split: if_splits)

lemma indexByte_None [simp]: "indexByte b c = None \<longleftrightarrow> c \<notin> set b"
  by (induction b) auto

lemma putBytesNil_escape: "indexByte b 0 = i \<Longrightarrow> putBytesNil p b i = putBytes p (escape b)"
proof (induction p b i rule: putBytesNil.induct)
  case (1 p b)
  then show ?case by (simp add: escape_no_zero)
next
  case (2 p b i)
  from 2(2) have i: "i < length b" "b ! i = 0" "0 \<notin> set (take i b)"
    using indexByte_Some by blast+
  have tk: "take (i + 1) b = take i b @ [0]" using i by (simp add: take_Suc_conv_app_nth)
  have "escape b = escape (take (i + 1) b @ drop (i + 1) b)" by simp
  also have "\<dots> = take (i + 1) b @ [0xFF] @ escape (drop (i + 1) b)"
    unfolding escape_simps(3) tk using i(3) by (simp add: escape_no_zero)
  finally have "escape b = take (i + 1) b @ [0xFF] @ escape (drop (i + 1) b)" .
  with 2(1) show ?case by (simp add: putBytes_def putByte_def Let_def)
qed

lemma encodeBytes_code: "encodeBytes p code b = putBytes p (code # escape b @ [0])"
  by (auto simp: encodeBytes_def putBytesNil_escape putBytes_def putByte_def Let_def escape_no_zero
    simp del: putBytesNil.simps split: option.splits)

section \<open>Integers\<close>

definition nbytes :: "nat \<Rightarrow> nat" where
  "nbytes x = length (big_bytes x)"

lemma nbytes_rec: "nbytes x = (if x = 0 then 0 else Suc (nbytes (x div 256)))"
  unfolding nbytes_def by (subst big_bytes.simps) simp

lemma nbytes_0 [simp]: "nbytes 0 = 0" and nbytes_pos [simp]: "x > 0 \<Longrightarrow> nbytes x > 0"
  by (simp_all add: nbytes_rec [of x] nbytes_rec [of 0])

lemma nbytes_le_iff: "nbytes x \<le> n \<longleftrightarrow> x < 256 ^ n"
proof (induction n arbitrary: x)
  case 0
  show ?case by (cases "x = 0") auto
next
  case (Suc n)
  have "x < 256 ^ Suc n \<longleftrightarrow> x div 256 < 256 ^ n"
    by (metis div_less_iff_less_mult mult.commute power_Suc zero_less_numeral)
  with Suc [of "x div 256"] show ?case by (auto simp: nbytes_rec [of x])
qed

lemma nbytes_lt: "x < 256 ^ nbytes x"
  using nbytes_le_iff [of x "nbytes x"] by simp

lemma nbytes_ge: "x > 0 \<Longrightarrow> 256 ^ (nbytes x - 1) \<le> x"
  using nbytes_le_iff [of x "nbytes x - 1"] nbytes_pos [of x] by linarith

lemma nbytes_eqI: "256 ^ k \<le> x \<Longrightarrow> x < 256 ^ Suc k \<Longrightarrow> nbytes x = Suc k"
  using nbytes_le_iff [of x k] nbytes_le_iff [of x "Suc k"] by linarith

lemma big_bytes_be: "big_bytes x = be_bytes (nbytes x) x"
proof (induction x rule: big_bytes.induct)
  case (1 x)
  show ?case
  proof (cases "x = 0")
    case False
    then show ?thesis using 1
      by (subst big_bytes.simps) (simp add: nbytes_rec [of x] be_bytes_Suc)
  qed (simp add: big_bytes.simps)
qed

lemma be_bytes_pad: "x < 256 ^ n \<Longrightarrow> be_bytes n x = replicate (n - nbytes x) 0 @ big_bytes x"
proof -
  assume x: "x < 256 ^ n"
  then have "nbytes x \<le> n" by (simp add: nbytes_le_iff)
  then have "length (replicate (n - nbytes x) 0 @ big_bytes x) = n" by (simp add: nbytes_def)
  moreover have "be_val (replicate (n - nbytes x) 0 @ big_bytes x) = x"
    by (simp add: big_bytes_be be_val_be_bytes nbytes_lt)
  ultimately show ?thesis using be_bytes_be_val [of "replicate (n - nbytes x) 0 @ big_bytes x"] by metis
qed

lemma bisectLeft_nbytes: "bisectLeft u = nbytes (unat u)"
proof -
  have "nbytes (unat u) \<le> 8" using unsigned_less [of u, where ?'a = nat] by (simp add: nbytes_le_iff)
  moreover have lim: "sizeLimits ! k < u \<longleftrightarrow> k < nbytes (unat u)" if "k < 9" for k
  proof -
    from that consider "k = 0" | "k = 1" | "k = 2" | "k = 3" | "k = 4" | "k = 5" | "k = 6"
      | "k = 7" | "k = 8" by linarith
    then have "unat (sizeLimits ! k) = 256 ^ k - 1"
      by cases (simp_all add: sizeLimits_def)
    moreover have "(256 :: nat) ^ k > 0" by simp
    ultimately have "sizeLimits ! k < u \<longleftrightarrow> 256 ^ k \<le> unat u"
      unfolding word_less_nat_alt by linarith
    then show ?thesis using nbytes_le_iff [of "unat u" k] by linarith
  qed
  have loop: "bisectLeftLoop (drop k sizeLimits) u k = nbytes (unat u)"
    if "k \<le> 9" "k \<le> nbytes (unat u)" "nbytes (unat u) \<le> 8" for k
    using that
  proof (induction "9 - k" arbitrary: k)
    case 0
    then show ?case by simp
  next
    case (Suc d)
    then have k: "k < 9" by simp
    then have "drop k sizeLimits = sizeLimits ! k # drop (Suc k) sizeLimits"
      by (intro Cons_nth_drop_Suc [symmetric]) (simp add: sizeLimits_def)
    with Suc lim [OF k] show ?case by auto
  qed
  ultimately show ?thesis using loop [of 0] by (simp add: bisectLeft_def)
qed

text \<open>The code of an integer, by value.\<close>

definition int_code :: "int \<Rightarrow> bytes" where
  "int_code i =
     (let n = nbytes (nat \<bar>i\<bar>)
      in if 0 \<le> i
         then (if n > 8 then [posIntEnd, of_nat n] else [intZeroCode + of_nat n]) @ be_bytes n (nat i)
         else (if n > 8 then [negIntStart, of_nat n XOR 0xff] else [intZeroCode - of_nat n])
              @ be_bytes n (nat (i + (256 ^ n - 1))))"

lemma nbytes_word64: "nbytes (unat (u :: 64 word)) \<le> 8"
  using unsigned_less [of u, where ?'a = nat] by (simp add: nbytes_le_iff)

lemma encodeUint_code: "encodeUint p u = putBytes p (int_code (uint u))"
proof (cases "u = 0")
  case True
  then show ?thesis by (simp add: encodeUint_def int_code_def putBytes_def putByte_def)
next
  case False
  have n: "nbytes (unat u) \<le> 8" by (rule nbytes_word64)
  then show ?thesis using False
    by (simp add: encodeUint_def int_code_def putBytes_def putByte_def Let_def bisectLeft_nbytes
      drop_be_bytes)
qed

lemma neg_code_bounds:
  assumes "i < 0" and "n = nbytes (nat \<bar>i\<bar>)"
  shows "0 \<le> i + (256 ^ n - 1)" and "i + (256 ^ n - 1) < 256 ^ n"
proof -
  have "nat \<bar>i\<bar> < 256 ^ n" unfolding assms(2) by (rule nbytes_lt)
  then have "int (nat \<bar>i\<bar>) < int (256 ^ n)" by (simp only: of_nat_less_iff)
  with assms(1) show "0 \<le> i + (256 ^ n - 1)" by simp
  from assms(1) show "i + (256 ^ n - 1) < 256 ^ n" by simp
qed

lemma sizeLimits_nth: "n \<le> 8 \<Longrightarrow> sizeLimits ! n = word_of_int (256 ^ n - 1)"
proof -
  assume "n \<le> 8"
  then consider "n = 0" | "n = 1" | "n = 2" | "n = 3" | "n = 4" | "n = 5" | "n = 6"
    | "n = 7" | "n = 8" by linarith
  then show ?thesis by cases (simp_all add: sizeLimits_def)
qed

lemma encodeInt_code: "encodeInt p i = putBytes p (int_code (sint i))"
proof (cases "0 \<le> sint i")
  case True
  then show ?thesis by (simp add: encodeInt_def encodeUint_code uint_nonneg_sint)
next
  case False
  then have neg: "sint i < 0" by simp
  define n where "n = nbytes (nat (- sint i))"
  have abs: "nat (- sint i) = unat (- i)" using unat_minus_sint [OF neg] by (metis nat_int)
  have n8: "n \<le> 8" unfolding n_def abs by (rule nbytes_word64)
  let ?x = "sint i + (256 ^ n - 1)"
  have "n = nbytes (nat \<bar>sint i\<bar>)" using neg by (simp add: n_def)
  note x = neg_code_bounds [OF neg this]
  have "(256 :: int) ^ n \<le> 256 ^ 8" using n8 by (intro power_increasing) auto
  then have "?x < 2 ^ 64" using x(2) by simp
  moreover have "sizeLimits ! n + i = word_of_int ?x"
    using n8 by (simp add: sizeLimits_nth)
  ultimately have "unat (sizeLimits ! n + i) = nat ?x"
    using uint_of_int64 [OF x(1)] by (metis nat_uint_eq)
  then show ?thesis using False n8
    by (simp add: encodeInt_def int_code_def putBytes_def putByte_def Let_def bisectLeft_nbytes
      drop_be_bytes abs [symmetric] n_def [symmetric])
qed

definition magnitude_ok :: "int \<Rightarrow> bool" where
  "magnitude_ok i \<longleftrightarrow> nbytes (nat \<bar>i\<bar>) \<le> 255"

lemma encodeBigInt_code:
  "encodeBigInt p i =
     (if magnitude_ok i then Inr (putBytes p (int_code i)) else Inl MagnitudeTooLarge)"
proof (cases "magnitude_ok i")
  case False
  then show ?thesis by (simp add: encodeBigInt_def magnitude_ok_def nbytes_def)
next
  case ok: True
  show ?thesis
  proof (cases "0 \<le> i")
    case True
    with ok show ?thesis
      by (simp add: encodeBigInt_def magnitude_ok_def int_code_def putBytes_def putByte_def Let_def
        big_bytes_be)
  next
    case False
    define n where "n = nbytes (nat (- i))"
    from False have neg: "i < 0" by simp
    then have "n = nbytes (nat \<bar>i\<bar>)" by (simp add: n_def)
    note x = neg_code_bounds [OF neg this]
    let ?x = "nat (i + (256 ^ n - 1))"
    have p256: "(2 :: int) ^ (n * 8) = 256 ^ n" by (simp add: power_mult mult.commute [of n])
    have "int ?x < int (256 ^ n)" using x by simp
    then have "?x < 256 ^ n" by (simp only: of_nat_less_iff)
    then have "be_bytes n ?x = replicate (n - nbytes ?x) 0 @ big_bytes ?x" by (rule be_bytes_pad)
    moreover have "nat \<bar>i + (256 ^ n - 1)\<bar> = ?x" using x(1) by simp
    ultimately show ?thesis using ok False
      by (simp add: encodeBigInt_def magnitude_ok_def int_code_def putBytes_def putByte_def Let_def
        n_def [symmetric] nbytes_def [symmetric] p256)
  qed
qed

section \<open>Elements and tuples\<close>

definition float_code :: "32 word \<Rightarrow> bytes" where
  "float_code f = adjustFloatBytes (be_bytes 4 (unat f)) True"

definition double_code :: "64 word \<Rightarrow> bytes" where
  "double_code d = adjustFloatBytes (be_bytes 8 (unat d)) True"

fun elem_code :: "bool \<Rightarrow> tuple_element \<Rightarrow> bytes" where
  "elem_code nested ENil = (if nested then [nilCode, 0xFF] else [nilCode])"
| "elem_code nested (EBytes b) = bytesCode # escape b @ [0]"
| "elem_code nested (EKey b) = bytesCode # escape b @ [0]"
| "elem_code nested (EString b) = stringCode # escape b @ [0]"
| "elem_code nested (ETuple t) = nestedCode # concat (map (elem_code True) t) @ [0]"
| "elem_code nested (EInt i) = int_code (sint i)"
| "elem_code nested (EInt64 i) = int_code (sint i)"
| "elem_code nested (EUint i) = int_code (uint i)"
| "elem_code nested (EUint64 i) = int_code (uint i)"
| "elem_code nested (EBigInt i) = int_code i"
| "elem_code nested (EFloat32 f) = floatCode # float_code f"
| "elem_code nested (EFloat64 d) = doubleCode # double_code d"
| "elem_code nested (EBool b) = [if b then trueCode else falseCode]"
| "elem_code nested (EUUID u) = uuidCode # u"
| "elem_code nested (EVersionstamp v) = versionstampCode # versionstampBytes v"

definition tuple_code :: "bool \<Rightarrow> tuple \<Rightarrow> bytes" where
  "tuple_code nested t = concat (map (elem_code nested) t)"

lemma tuple_code_simps [simp]:
  "tuple_code nested [] = []" "tuple_code nested (e # t) = elem_code nested e @ tuple_code nested t"
  "tuple_code nested (s @ t) = tuple_code nested s @ tuple_code nested t"
  by (simp_all add: tuple_code_def)

lemma elem_code_tuple: "elem_code nested (ETuple t) = nestedCode # tuple_code True t @ [0]"
  by (simp add: tuple_code_def)

text \<open>Elements a vanilla pack accepts: integers of at most 255 bytes, complete versionstamps.\<close>

fun elem_packable :: "tuple_element \<Rightarrow> bool" where
  "elem_packable (ETuple t) = (\<forall>e \<in> set t. elem_packable e)"
| "elem_packable (EBigInt i) = magnitude_ok i"
| "elem_packable (EVersionstamp v) = (TransactionVersion v \<noteq> incompleteTransactionVersion)"
| "elem_packable _ = True"

definition packable :: "tuple \<Rightarrow> bool" where
  "packable t \<longleftrightarrow> (\<forall>e \<in> set t. elem_packable e)"

lemma packable_simps [simp]:
  "packable []" "packable (e # t) \<longleftrightarrow> elem_packable e \<and> packable t"
  "packable (s @ t) \<longleftrightarrow> packable s \<and> packable t"
  by (auto simp: packable_def)

lemma putBytes_simps [simp]:
  "putBytes (putBytes p a) b = putBytes p (a @ b)" "putByte p x = putBytes p [x]"
  "putBytes p [] = p" "buf (putBytes p b) = buf p @ b"
  "versionstampPos (putBytes p b) = versionstampPos p"
  by (simp_all add: putBytes_def putByte_def)

lemma encode_packable:
  "packable t \<Longrightarrow> encodeTuple p t nested False =
     Inr (putBytes p (if nested then nestedCode # tuple_code True t @ [0] else tuple_code False t))"
  "packable t \<Longrightarrow> encodeElems p t nested False = Inr (putBytes p (tuple_code nested t))"
  "elem_packable e \<Longrightarrow> encodeCase p e nested False = Inr (putBytes p (elem_code nested e))"
proof (induction p t nested "False" and p t nested "False" and p e nested "False"
    rule: encodeTuple_encodeElems_encodeCase.induct)
qed (auto simp: encodeInt_code encodeUint_code encodeBytes_code encodeBigInt_code encodeFloat_def
  encodeDouble_def encodeUUID_def encodeVersionstamp_def float_code_def double_code_def packable_def
  elem_code_tuple simp del: elem_code.simps(5))

lemma encode_unpackable:
  "\<not> packable t \<Longrightarrow> \<exists>e. encodeTuple p t nested False = Inl e"
  "\<not> packable t \<Longrightarrow> \<exists>e. encodeElems p t nested False = Inl e"
  "\<not> elem_packable e \<Longrightarrow> \<exists>err. encodeCase p e nested False = Inl err"
proof (induction p t nested "False" and p t nested "False" and p e nested "False"
    rule: encodeTuple_encodeElems_encodeCase.induct)
  case (1 p t nested)
  then show ?case by (cases nested) (auto simp: Let_def split: sum.splits)
next
  case (3 p e es nested)
  show ?case
  proof (cases "elem_packable e")
    case True
    with 3 show ?thesis by (simp add: encode_packable)
  next
    case False
    with 3 show ?thesis by (auto split: sum.splits)
  qed
qed (auto simp: packable_def encodeBigInt_code)

lemma encodeElement_case: "encodeElement p e = encodeCase p e False False"
  by (cases e) simp_all

text \<open>Packing is the format function on the packable tuples, and a panic on every other tuple.\<close>

lemma Pack_code: "Pack t = Inr b \<longleftrightarrow> packable t \<and> b = tuple_code False t"
proof (cases "packable t")
  case True
  then show ?thesis by (auto simp: Pack_def encode_packable newPacker_def)
next
  case False
  then obtain e where "encodeTuple newPacker t False False = Inl e" using encode_unpackable(1) by blast
  with False show ?thesis by (simp add: Pack_def)
qed

lemma Pack_packable: "packable t \<Longrightarrow> Pack t = Inr (tuple_code False t)"
  by (simp add: Pack_code)

lemma Pack_unpackable: "\<not> packable t \<Longrightarrow> \<exists>e. Pack t = Inl e"
  using encode_unpackable(1) [of t newPacker False] by (auto simp: Pack_def)

section \<open>Pooled packers and prefixes\<close>

lemma buf_resetPacker [simp]: "buf (resetPacker p) = []"
  by (simp add: resetPacker_def)

lemma encodeTuples_code:
  "\<forall>t \<in> set ts. packable t \<Longrightarrow>
     encodeTuples p ts = Inr (putBytes p (concat (map (tuple_code False) ts)))"
  by (induction ts arbitrary: p) (auto simp: encode_packable simp del: encodeTuple.simps)

lemma PackWithPrefix_code:
  "packable t \<Longrightarrow> PackWithPrefix pooled t pre = Inr (pre @ tuple_code False t)"
  by (simp add: PackWithPrefix_def encode_packable del: encodeTuple.simps)

lemma PackConcatWithPrefix_code:
  "\<forall>t \<in> set ts. packable t \<Longrightarrow>
     PackConcatWithPrefix pooled pre ts = Inr (pre @ tuple_code False (concat ts))"
proof -
  have "concat (map (tuple_code False) ts) = tuple_code False (concat ts)"
    by (induction ts) auto
  then show "\<forall>t \<in> set ts. packable t \<Longrightarrow> ?thesis"
    by (simp add: PackConcatWithPrefix_def encodeTuples_code)
qed

lemma Pack1ConcatWithPrefix_code:
  "elem_packable e \<Longrightarrow> packable t \<Longrightarrow>
     Pack1ConcatWithPrefix pooled pre e t = Inr (pre @ tuple_code False (e # t))"
  by (simp add: Pack1ConcatWithPrefix_def encodeElement_case encode_packable
    del: encodeTuple.simps encodeCase.simps)

lemma Pack1WithPrefix_code:
  "elem_packable e \<Longrightarrow> Pack1WithPrefix pooled pre e = Inr (pre @ tuple_code False [e])"
  by (simp add: Pack1WithPrefix_def encodeElement_case encode_packable
    del: encodeTuple.simps encodeCase.simps)

end
