(* ===== verification/TupleDecode.thy ===== *)
theory TupleDecode
  imports TupleCode
begin

text \<open>
  The unpacking half of the tuple layer (\<^verbatim>\<open>src/pkg/fdbgo/fdb/tuple/tuple.go\<close>): one definition per
  decoder, the loop of \<^verbatim>\<open>decodeTuple\<close> over the positions of the input, and \<^verbatim>\<open>Unpack\<close>.  A decoder
  takes the slice that starts at its type code and returns the element with the number of bytes it
  consumed.  The lemmas show that unpacking undoes packing, up to the integer and key types the
  decoder normalises to.
\<close>

section \<open>Decoders\<close>

datatype decode_error =
    NoTerminator nat
  | InsufficientInt nat
  | InsufficientBigInt nat
  | InsufficientFloat nat
  | InsufficientDouble nat
  | InsufficientUUID nat
  | InsufficientVersionstamp nat
  | UnknownTypecode byte

text \<open>The result \<open>-1\<close> of \<^verbatim>\<open>findTerminator\<close> is \<open>None\<close>.\<close>

function findTerminatorLoop :: "bytes \<Rightarrow> nat \<Rightarrow> nat option" where
  "findTerminatorLoop bp len =
     (case indexByte bp 0x00 of
        None \<Rightarrow> None
      | Some idx \<Rightarrow>
          if idx + 1 = length bp \<or> bp ! (idx + 1) \<noteq> 0xFF then Some (len + idx)
          else findTerminatorLoop (drop (idx + 2) bp) (len + idx + 2))"
  by pat_completeness auto
termination
  by (relation "measure (\<lambda>(bp, len). length bp)") (auto dest: indexByte_Some)

declare findTerminatorLoop.simps [simp del]

definition findTerminator :: "bytes \<Rightarrow> nat option" where
  "findTerminator b = findTerminatorLoop b 0"

text \<open>\<^verbatim>\<open>bytes.Replace(b, {0x00, 0xFF}, {0x00}, -1)\<close>\<close>

fun replaceEscapes :: "bytes \<Rightarrow> bytes" where
  "replaceEscapes (x # y # bs) =
     (if x = 0x00 \<and> y = 0xFF then 0x00 # replaceEscapes bs else x # replaceEscapes (y # bs))"
| "replaceEscapes bs = bs"

definition decodeBytes :: "bytes \<Rightarrow> (bytes \<times> nat) option" where
  "decodeBytes b =
     (case findTerminator (drop 1 b) of
        None \<Rightarrow> None
      | Some idx \<Rightarrow> Some (replaceEscapes (take idx (drop 1 b)), idx + 2))"

definition decodeInt :: "bytes \<Rightarrow> (tuple_element \<times> nat) option" where
  "decodeInt b =
     (if b ! 0 = intZeroCode then Some (EInt64 0, 1)
      else let d = int (unat (b ! 0)) - 0x14;
               neg = d < 0;
               n = nat \<bar>d\<bar>
           in if n + 1 > length b then None
              else let bp = replicate (8 - n) 0 @ take n (drop 1 b);
                       ret = of_nat (be_val bp) :: 64 word
                   in if neg then Some (EInt64 (ret - sizeLimits ! n), n + 1)
                      else if sint ret > 0 then Some (EInt64 ret, n + 1)
                      else Some (EUint64 ret, n + 1))"

definition minInt64 :: int where
  "minInt64 = - (2 ^ 63)"

definition decodeBigInt :: "bytes \<Rightarrow> (tuple_element \<times> nat) option" where
  "decodeBigInt b =
     (if (b ! 0 = negIntStart \<or> b ! 0 = posIntEnd) \<and> length b < 2 then None
      else let big = b ! 0 = negIntStart \<or> b ! 0 = posIntEnd;
               len = (if big then (if b ! 0 = negIntStart then unat (b ! 1 XOR 0xff) else unat (b ! 1))
                      else 8);
               offset = (if big then 2 else 1)
           in if len + offset > length b then None
              else let v = int (be_val (take len (drop offset b)));
                       v = (if b ! 0 < intZeroCode then v - (2 ^ (len * 8) - 1) else v)
                   in if v = minInt64 then Some (EInt64 (word_of_int v), len + offset)
                      else Some (EBigInt v, len + offset))"

definition decodeFloat :: "bytes \<Rightarrow> tuple_element \<times> nat" where
  "decodeFloat b = (EFloat32 (of_nat (be_val (adjustFloatBytes (take 4 (drop 1 b)) False))), 5)"

definition decodeDouble :: "bytes \<Rightarrow> tuple_element \<times> nat" where
  "decodeDouble b = (EFloat64 (of_nat (be_val (adjustFloatBytes (take 8 (drop 1 b)) False))), 9)"

definition decodeUUID :: "bytes \<Rightarrow> tuple_element \<times> nat" where
  "decodeUUID b = (EUUID (take 16 (drop 1 b)), 17)"

definition decodeVersionstamp :: "bytes \<Rightarrow> tuple_element \<times> nat" where
  "decodeVersionstamp b =
     (EVersionstamp \<lparr>TransactionVersion = take 10 (drop 1 b),
                     UserVersion = of_nat (be_val (take 2 (drop 11 b)))\<rparr>, 13)"

text \<open>
  The cases of the switch in \<^verbatim>\<open>decodeTuple\<close> other than nil and nested tuples, on the slice that
  starts at position \<open>i\<close>.
\<close>

definition decodeScalar :: "bytes \<Rightarrow> nat \<Rightarrow> (decode_error, tuple_element \<times> nat) result" where
  "decodeScalar b i =
     (let c = b ! i; s = drop i b
      in if c = bytesCode then
           (case decodeBytes s of None \<Rightarrow> Inl (NoTerminator i) | Some (el, off) \<Rightarrow> Inr (EBytes el, off))
         else if c = stringCode then
           (case decodeBytes s of None \<Rightarrow> Inl (NoTerminator i) | Some (el, off) \<Rightarrow> Inr (EString el, off))
         else if negIntStart + 1 < c \<and> c < posIntEnd then
           (case decodeInt s of None \<Rightarrow> Inl (InsufficientInt i) | Some r \<Rightarrow> Inr r)
         else if negIntStart + 1 = c \<and> i + 1 < length b \<and> b ! (i + 1) AND 0x80 \<noteq> 0 then
           (case decodeInt s of None \<Rightarrow> Inl (InsufficientInt i) | Some r \<Rightarrow> Inr r)
         else if negIntStart \<le> c \<and> c \<le> posIntEnd then
           (case decodeBigInt s of None \<Rightarrow> Inl (InsufficientBigInt i) | Some r \<Rightarrow> Inr r)
         else if c = floatCode then
           (if i + 5 > length b then Inl (InsufficientFloat i) else Inr (decodeFloat s))
         else if c = doubleCode then
           (if i + 9 > length b then Inl (InsufficientDouble i) else Inr (decodeDouble s))
         else if c = trueCode then Inr (EBool True, 1)
         else if c = falseCode then Inr (EBool False, 1)
         else if c = uuidCode then
           (if i + 17 > length b then Inl (InsufficientUUID i) else Inr (decodeUUID s))
         else if c = versionstampCode then
           (if i + 13 > length b then Inl (InsufficientVersionstamp i) else Inr (decodeVersionstamp s))
         else Inl (UnknownTypecode c))"

lemma decodeScalar_consumes: "decodeScalar b i = Inr (e, off) \<Longrightarrow> off > 0"
  by (auto simp: decodeScalar_def decodeBytes_def decodeInt_def decodeBigInt_def decodeFloat_def
    decodeDouble_def decodeUUID_def decodeVersionstamp_def Let_def
    split: if_splits option.splits)

text \<open>
  The loop of \<^verbatim>\<open>decodeTuple\<close>: \<open>i\<close> is the position and \<open>t\<close> the elements read so far.  The result
  is the tuple and the number of bytes consumed.
\<close>

function decodeTupleLoop :: "bytes \<Rightarrow> bool \<Rightarrow> nat \<Rightarrow> tuple \<Rightarrow> (decode_error, tuple \<times> nat) result" where
  "decodeTupleLoop b nested i t =
     (if i < length b then
        if b ! i = nilCode then
          (if \<not> nested then decodeTupleLoop b nested (i + 1) (t @ [ENil])
           else if i + 1 < length b \<and> b ! (i + 1) = 0xff then decodeTupleLoop b nested (i + 2) (t @ [ENil])
           else Inr (t, i + 1))
        else if b ! i = nestedCode then
          (case decodeTupleLoop (drop (i + 1) b) True 0 [] of
             Inl e \<Rightarrow> Inl e
           | Inr (el, off) \<Rightarrow> decodeTupleLoop b nested (i + (off + 1)) (t @ [ETuple el]))
        else
          (case decodeScalar b i of
             Inl e \<Rightarrow> Inl e
           | Inr (el, off) \<Rightarrow> decodeTupleLoop b nested (i + off) (t @ [el]))
      else Inr (t, i))"
  by pat_completeness auto
termination
  by (relation "measure (\<lambda>(b, nested, i, t). length b - i)") (auto dest: decodeScalar_consumes)

declare decodeTupleLoop.simps [simp del]

definition decodeTuple :: "bytes \<Rightarrow> bool \<Rightarrow> (decode_error, tuple \<times> nat) result" where
  "decodeTuple b nested = decodeTupleLoop b nested 0 []"

definition Unpack :: "bytes \<Rightarrow> (decode_error, tuple) result" where
  "Unpack b = map_sum id fst (decodeTuple b False)"

section \<open>Decoding what the packer wrote\<close>

text \<open>What may follow an element: nothing, or a byte other than the escape marker.\<close>

definition ok_rest :: "bytes \<Rightarrow> bool" where
  "ok_rest r \<longleftrightarrow> r = [] \<or> hd r \<noteq> 0xFF"

lemma ok_rest_simps [simp]: "ok_rest []" "ok_rest (x # r) \<longleftrightarrow> x \<noteq> 0xFF"
  by (simp_all add: ok_rest_def)

subsection \<open>Byte strings\<close>

lemma findTerminatorLoop_skip:
  "x \<noteq> 0 \<Longrightarrow> findTerminatorLoop (x # bs) len = findTerminatorLoop bs (len + 1)"
  by (cases "indexByte bs 0")
    (simp_all add: findTerminatorLoop.simps [of "x # bs"] findTerminatorLoop.simps [of bs]
      del: indexByte_None)

lemma findTerminatorLoop_escaped:
  "findTerminatorLoop (0 # 0xFF # bs) len = findTerminatorLoop bs (len + 2)"
  by (subst findTerminatorLoop.simps) simp

lemma findTerminatorLoop_end: "ok_rest r \<Longrightarrow> findTerminatorLoop (0 # r) len = Some len"
  by (subst findTerminatorLoop.simps) (cases r; simp)

lemma findTerminatorLoop_escape:
  "ok_rest r \<Longrightarrow> findTerminatorLoop (escape b @ 0 # r) len = Some (len + length (escape b))"
  by (induction b arbitrary: len)
    (auto simp: findTerminatorLoop_skip findTerminatorLoop_escaped findTerminatorLoop_end)

lemma replaceEscapes_escape [simp]: "replaceEscapes (escape b) = b"
proof (induction b)
  case (Cons x b)
  then show ?case by (cases "escape b") auto
qed simp

lemma decodeBytes_escape:
  "ok_rest r \<Longrightarrow> decodeBytes (c # escape b @ 0 # r) = Some (b, length (escape b) + 2)"
  by (simp add: decodeBytes_def findTerminator_def findTerminatorLoop_escape)

subsection \<open>Floats\<close>

lemma and_sign_bit: "(x :: byte) AND 0x80 = 0 \<longleftrightarrow> \<not> bit x 7"
  using and_exp_eq_0_iff_not_bit [of x 7] by simp

lemma bit_flip [simp]: "bit ((x :: byte) XOR 0xff) 7 \<longleftrightarrow> \<not> bit x 7" "bit ((x :: byte) XOR 0x80) 7 \<longleftrightarrow> \<not> bit x 7"
  by (simp_all add: bit_xor_iff)

lemma xor_xor_same [simp]: "((x :: byte) XOR y) XOR y = x"
  by (simp add: xor.assoc)

lemma adjustFloatBytes_inverse:
  "b \<noteq> [] \<Longrightarrow> adjustFloatBytes (adjustFloatBytes b True) False = b"
  by (cases b) (auto simp: adjustFloatBytes_def and_sign_bit o_def)

lemma length_adjustFloatBytes [simp]: "length (adjustFloatBytes b e) = length b"
  by (simp add: adjustFloatBytes_def)

lemma length_float_code [simp]: "length (float_code f) = 4" "length (double_code d) = 8"
  by (simp_all add: float_code_def double_code_def)

lemma decodeFloat_code: "decodeFloat (c # float_code f @ r) = (EFloat32 f, 5)"
proof -
  have "be_bytes 4 (unat f) \<noteq> []" by (metis length_be_bytes list.size(3) zero_neq_numeral)
  moreover have "unat f < 256 ^ 4" using unsigned_less [of f, where ?'a = nat] by simp
  ultimately show ?thesis
    by (simp add: decodeFloat_def float_code_def adjustFloatBytes_inverse be_val_be_bytes)
qed

lemma decodeDouble_code: "decodeDouble (c # double_code d @ r) = (EFloat64 d, 9)"
proof -
  have "be_bytes 8 (unat d) \<noteq> []" by (metis length_be_bytes list.size(3) zero_neq_numeral)
  moreover have "unat d < 256 ^ 8" using unsigned_less [of d, where ?'a = nat] by simp
  ultimately show ?thesis
    by (simp add: decodeDouble_def double_code_def adjustFloatBytes_inverse be_val_be_bytes)
qed

subsection \<open>Integers\<close>

text \<open>The Go type an integer comes back as depends on its value only.\<close>

definition int_elem :: "int \<Rightarrow> tuple_element" where
  "int_elem v =
     (if - (2 ^ 63) \<le> v \<and> v < 2 ^ 63 then EInt64 (word_of_int v)
      else if 0 \<le> v \<and> v < 2 ^ 64 then EUint64 (word_of_int v)
      else EBigInt v)"

lemma le_8_cases:
  "(n :: nat) \<le> 8 \<Longrightarrow>
     n = 0 \<or> n = 1 \<or> n = 2 \<or> n = 3 \<or> n = 4 \<or> n = 5 \<or> n = 6 \<or> n = 7 \<or> n = 8"
  by linarith

lemma byte_pos_code: "n \<le> 8 \<Longrightarrow> unat (intZeroCode + of_nat n :: byte) = 20 + n"
  by (drule le_8_cases, elim disjE) simp_all

lemma byte_neg_code: "n \<le> 8 \<Longrightarrow> unat (intZeroCode - of_nat n :: byte) = 20 - n"
  by (drule le_8_cases, elim disjE) simp_all

lemma be_val_pad: "x < 256 ^ n \<Longrightarrow> be_val (replicate k 0 @ be_bytes n x) = x"
  by (simp add: be_val_be_bytes)

lemma sint_int64_high:
  assumes "2 ^ 63 \<le> i" and "i < 2 ^ 64"
  shows "sint (word_of_int i :: 64 word) = i - 2 ^ 64"
proof -
  have "(word_of_int (i - 2 ^ 64) :: 64 word) = word_of_int i"
    unfolding word_of_int_eq_iff take_bit_eq_mod by simp
  moreover have "sint (word_of_int (i - 2 ^ 64) :: 64 word) = i - 2 ^ 64"
    using assms by (intro sint_of_int64) simp_all
  ultimately show ?thesis by (simp only:)
qed

lemma decodeInt_pos:
  assumes "0 < i" and "i < 2 ^ 64" and n: "n = nbytes (nat i)"
  shows "decodeInt ((intZeroCode + of_nat n) # be_bytes n (nat i) @ r) = Some (int_elem i, n + 1)"
proof -
  have "nat i < 256 ^ 8" using assms(2) by simp
  then have n8: "n \<le> 8" unfolding n nbytes_le_iff .
  have n0: "0 < n" using assms(1) n by simp
  have "unat (intZeroCode + of_nat n :: byte) \<noteq> unat intZeroCode"
    unfolding byte_pos_code [OF n8] using n0 by simp
  then have ne: "(intZeroCode + of_nat n :: byte) \<noteq> intZeroCode" by metis
  have v: "be_val (replicate (8 - n) 0 @ be_bytes n (nat i)) = nat i"
    unfolding n by (rule be_val_pad) (rule nbytes_lt)
  have w: "(of_nat (nat i) :: 64 word) = word_of_int i" using assms(1) by simp
  show ?thesis
  proof (cases "i < 2 ^ 63")
    case True
    then have "sint (word_of_int i :: 64 word) = i" using assms(1) by (intro sint_of_int64) auto
    with ne v w n0 n8 assms(1) True show ?thesis
      by (simp add: decodeInt_def byte_pos_code Let_def int_elem_def)
  next
    case False
    have "sint (word_of_int i :: 64 word) = i - 2 ^ 64"
      using False assms(2) by (simp add: sint_int64_high)
    with ne v w n0 n8 assms(1,2) False show ?thesis
      by (simp add: decodeInt_def byte_pos_code Let_def int_elem_def)
  qed
qed

lemma decodeInt_neg_word:
  assumes "i < 0" and n: "n = nbytes (nat (- i))" and n8: "n \<le> 8"
  shows "decodeInt ((intZeroCode - of_nat n) # be_bytes n (nat (i + (256 ^ n - 1))) @ r)
    = Some (EInt64 (word_of_int i), n + 1)"
proof -
  have n0: "0 < n" using assms(1) n by simp
  have "unat (intZeroCode - of_nat n :: byte) \<noteq> unat intZeroCode"
    unfolding byte_neg_code [OF n8] using n0 n8 by simp
  then have ne: "(intZeroCode - of_nat n :: byte) \<noteq> intZeroCode" by metis
  let ?x = "i + (256 ^ n - 1)"
  have "n = nbytes (nat \<bar>i\<bar>)" using assms(1) n by simp
  note x = neg_code_bounds [OF assms(1) this]
  have "int (nat ?x) < int (256 ^ n)" using x by simp
  then have v: "be_val (replicate (8 - n) 0 @ be_bytes n (nat ?x)) = nat ?x"
    by (intro be_val_pad) (simp only: of_nat_less_iff)
  have "(of_nat (nat ?x) :: 64 word) = word_of_int ?x" using x(1) by simp
  then have "(of_nat (nat ?x) :: 64 word) - sizeLimits ! n = word_of_int i"
    by (simp add: sizeLimits_nth [OF n8])
  with ne v n0 n8 assms(1) show ?thesis
    by (simp add: decodeInt_def byte_neg_code Let_def)
qed

lemma decodeInt_neg:
  assumes "i < 0" and "n = nbytes (nat (- i))" and "n \<le> 8" and "- (2 ^ 63) < i"
  shows "decodeInt ((intZeroCode - of_nat n) # be_bytes n (nat (i + (256 ^ n - 1))) @ r)
    = Some (int_elem i, n + 1)"
  using decodeInt_neg_word [OF assms(1-3)] assms(1,4) by (simp add: int_elem_def)

lemma decodeBigInt_eight:
  assumes "i \<le> - (2 ^ 63)" and "8 = nbytes (nat (- i))"
  shows "decodeBigInt ((negIntStart + 1) # be_bytes 8 (nat (i + (256 ^ 8 - 1))) @ r)
    = Some (int_elem i, 9)"
proof -
  have "8 = nbytes (nat \<bar>i\<bar>)" and neg: "i < 0" using assms by simp_all
  note x = neg_code_bounds [OF neg this(1)]
  then have "be_val (be_bytes 8 (nat (i + (256 ^ 8 - 1)))) = nat (i + (256 ^ 8 - 1))"
    by (simp add: be_val_be_bytes)
  with x assms(1) show ?thesis
    by (simp add: decodeBigInt_def Let_def int_elem_def minInt64_def)
qed

lemma decodeBigInt_pos:
  assumes "0 < i" and n: "n = nbytes (nat i)" and "8 < n" and "n \<le> 255"
  shows "decodeBigInt (posIntEnd # of_nat n # be_bytes n (nat i) @ r) = Some (int_elem i, n + 2)"
proof -
  have "\<not> nat i < 256 ^ 8" using assms(3) unfolding n nbytes_le_iff [symmetric] by simp
  then have big: "2 ^ 64 \<le> i" using assms(1) by simp
  have "be_val (be_bytes n (nat i)) = nat i" unfolding n by (simp add: be_val_be_bytes nbytes_lt)
  with assms big show ?thesis
    by (simp add: decodeBigInt_def Let_def int_elem_def minInt64_def unat_of_nat)
qed

lemma decodeBigInt_neg:
  assumes "i < 0" and n: "n = nbytes (nat (- i))" and "8 < n" and "n \<le> 255"
  shows "decodeBigInt (negIntStart # (of_nat n XOR 0xff) # be_bytes n (nat (i + (256 ^ n - 1))) @ r)
    = Some (int_elem i, n + 2)"
proof -
  have "\<not> nat (- i) < 256 ^ 8" using assms(3) unfolding n nbytes_le_iff [symmetric] by simp
  then have big: "i \<le> - (2 ^ 64)" using assms(1) by simp
  have "n = nbytes (nat \<bar>i\<bar>)" using assms(1) n by simp
  note x = neg_code_bounds [OF assms(1) this]
  have p256: "(2 :: int) ^ (n * 8) = 256 ^ n" by (simp add: power_mult mult.commute [of n])
  have "int (nat (i + (256 ^ n - 1))) < int (256 ^ n)" using x by simp
  then have "be_val (be_bytes n (nat (i + (256 ^ n - 1)))) = nat (i + (256 ^ n - 1))"
    unfolding of_nat_less_iff by (simp add: be_val_be_bytes)
  moreover have "unat (of_nat n :: byte) = n" using assms(4) by (simp add: unat_of_nat)
  ultimately show ?thesis using x big
    by (simp add: decodeBigInt_def Let_def int_elem_def minInt64_def p256)
qed

text \<open>The switch of \<^verbatim>\<open>decodeTuple\<close> sends every integer code to the decoder that inverts it.\<close>

lemma code_range:
  "n \<le> 8 \<Longrightarrow> 0 < n \<Longrightarrow> negIntStart + 1 < (intZeroCode + of_nat n :: byte) \<and>
     (intZeroCode + of_nat n :: byte) < posIntEnd"
  "n \<le> 7 \<Longrightarrow> negIntStart + 1 < (intZeroCode - of_nat n :: byte) \<and>
     (intZeroCode - of_nat n :: byte) < posIntEnd"
  by (simp_all add: word_less_nat_alt byte_pos_code byte_neg_code) linarith

lemma bit7_iff: "bit (w :: byte) 7 \<longleftrightarrow> 128 \<le> unat w"
proof -
  have "bit w 7 \<longleftrightarrow> bit (unat w) 7" by (simp add: bit_unsigned_iff)
  also have "\<dots> \<longleftrightarrow> odd (unat w div 128)" by (simp add: bit_iff_odd)
  also have "unat w div 128 = (if 128 \<le> unat w then 1 else 0)"
    using unat_byte_lt [of w] by (simp add: div_nat_eqI)
  finally show ?thesis by simp
qed

lemma top_bit_be_bytes:
  assumes "x < 256 ^ 8"
  shows "be_bytes 8 x ! 0 AND 0x80 \<noteq> 0 \<longleftrightarrow> 2 ^ 63 \<le> x"
proof -
  have "be_bytes 8 x ! 0 = of_nat (x div 256 ^ 7)"
    using be_bytes_Cons [of 7 x] by simp
  moreover have lt: "x div 256 ^ 7 < 256" using assms by (simp add: less_mult_imp_div_less)
  ultimately have "unat (be_bytes 8 x ! 0) = x div 256 ^ 7" by (simp add: unat_of_nat)
  moreover have "128 \<le> x div 256 ^ 7 \<longleftrightarrow> 2 ^ 63 \<le> x"
    by (simp add: less_eq_div_iff_mult_less_eq)
  ultimately show ?thesis by (simp add: and_sign_bit bit7_iff)
qed

lemma decodeScalar_small:
  assumes "negIntStart + 1 < c" and "c < posIntEnd"
  shows "decodeScalar (pre @ c # s) (length pre) =
    (case decodeInt (c # s) of None \<Rightarrow> Inl (InsufficientInt (length pre)) | Some r \<Rightarrow> Inr r)"
proof -
  have "c \<noteq> bytesCode" "c \<noteq> stringCode" using assms by auto
  with assms show ?thesis by (simp add: decodeScalar_def Let_def)
qed

lemma decodeScalar_eight:
  "decodeScalar (pre @ (negIntStart + 1) # s @ r) (length pre) =
     (if s @ r \<noteq> [] \<and> (s @ r) ! 0 AND 0x80 \<noteq> 0
      then case decodeInt ((negIntStart + 1) # s @ r) of
             None \<Rightarrow> Inl (InsufficientInt (length pre)) | Some r \<Rightarrow> Inr r
      else case decodeBigInt ((negIntStart + 1) # s @ r) of
             None \<Rightarrow> Inl (InsufficientBigInt (length pre)) | Some r \<Rightarrow> Inr r)"
  by (simp add: decodeScalar_def Let_def nth_append)

lemma decodeScalar_big:
  "c = negIntStart \<or> c = posIntEnd \<Longrightarrow> decodeScalar (pre @ c # s) (length pre) =
     (case decodeBigInt (c # s) of None \<Rightarrow> Inl (InsufficientBigInt (length pre)) | Some r \<Rightarrow> Inr r)"
  by (elim disjE) (simp_all add: decodeScalar_def Let_def)

lemma decodeScalar_int_pos:
  assumes "magnitude_ok i" and "0 < i"
  shows "decodeScalar (pre @ int_code i @ r) (length pre) = Inr (int_elem i, length (int_code i))"
proof (cases "nbytes (nat i) \<le> 8")
  case True
  then have "nat i < 256 ^ 8" unfolding nbytes_le_iff .
  then have "i < 2 ^ 64" by simp
  note d = decodeInt_pos [OF assms(2) this refl, of r]
  have "int_code i = (intZeroCode + of_nat (nbytes (nat i))) # be_bytes (nbytes (nat i)) (nat i)"
    using assms(2) True by (simp add: int_code_def Let_def)
  moreover have "0 < nbytes (nat i)" using assms(2) by simp
  ultimately show ?thesis using d code_range(1) [OF True]
    by (simp add: decodeScalar_small)
next
  case False
  then have "8 < nbytes (nat i)" and le: "nbytes (nat i) \<le> 255"
    using assms by (simp_all add: magnitude_ok_def)
  note d = decodeBigInt_pos [OF assms(2) refl this, of r]
  have "int_code i = posIntEnd # of_nat (nbytes (nat i)) # be_bytes (nbytes (nat i)) (nat i)"
    using assms(2) False by (simp add: int_code_def Let_def)
  with d show ?thesis by (simp add: decodeScalar_big)
qed

lemma decodeScalar_int_eight:
  assumes "i < 0" and n: "8 = nbytes (nat (- i))"
  shows "decodeScalar (pre @ int_code i @ r) (length pre) = Inr (int_elem i, length (int_code i))"
proof -
  define x where "x = nat (i + (256 ^ 8 - 1))"
  have "8 = nbytes (nat \<bar>i\<bar>)" using assms by simp
  note b = neg_code_bounds [OF assms(1) this]
  have code: "int_code i = (negIntStart + 1) # be_bytes 8 x"
    using assms by (simp add: int_code_def x_def Let_def)
  have "x < 256 ^ 8" using b by (simp add: x_def)
  then have top: "be_bytes 8 x ! 0 AND 0x80 \<noteq> 0 \<longleftrightarrow> 2 ^ 63 \<le> x" by (rule top_bit_be_bytes)
  have hd: "(be_bytes 8 x @ r) ! 0 = be_bytes 8 x ! 0" "be_bytes 8 x @ r \<noteq> []"
    by (simp_all add: nth_append flip: length_0_conv)
  show ?thesis
  proof (cases "- (2 ^ 63) < i")
    case True
    then have "2 ^ 63 \<le> x" by (simp add: x_def)
    with top decodeInt_neg [OF assms(1) n _ True, of r] hd(2) show ?thesis
      unfolding code append_Cons decodeScalar_eight hd by (simp add: x_def del: append_is_Nil_conv)
  next
    case False
    then have "\<not> 2 ^ 63 \<le> x" by (simp add: x_def)
    with top decodeBigInt_eight [OF _ n, of r] False show ?thesis
      unfolding code append_Cons decodeScalar_eight hd by (simp add: x_def del: append_is_Nil_conv)
  qed
qed

lemma decodeScalar_int_neg:
  assumes "magnitude_ok i" and "i < 0" and "nbytes (nat (- i)) \<noteq> 8"
  shows "decodeScalar (pre @ int_code i @ r) (length pre) = Inr (int_elem i, length (int_code i))"
proof (cases "nbytes (nat (- i)) \<le> 7")
  case True
  then have "nat (- i) < 256 ^ 7" unfolding nbytes_le_iff .
  then have "- (2 ^ 63) < i" by simp
  with True have d: "decodeInt ((intZeroCode - of_nat (nbytes (nat (- i)))) #
      be_bytes (nbytes (nat (- i))) (nat (i + (256 ^ nbytes (nat (- i)) - 1))) @ r)
    = Some (int_elem i, nbytes (nat (- i)) + 1)" by (intro decodeInt_neg [OF assms(2) refl]) auto
  have "int_code i = (intZeroCode - of_nat (nbytes (nat (- i)))) #
      be_bytes (nbytes (nat (- i))) (nat (i + (256 ^ nbytes (nat (- i)) - 1)))"
    using assms(2) True by (simp add: int_code_def Let_def)
  with d code_range(2) [OF True] show ?thesis by (simp add: decodeScalar_small)
next
  case False
  then have "8 < nbytes (nat (- i))" and le: "nbytes (nat (- i)) \<le> 255"
    using assms by (simp_all add: magnitude_ok_def)
  note d = decodeBigInt_neg [OF assms(2) refl this, of r]
  have "int_code i = negIntStart # (of_nat (nbytes (nat (- i))) XOR 0xff) #
      be_bytes (nbytes (nat (- i))) (nat (i + (256 ^ nbytes (nat (- i)) - 1)))"
    using assms(2,3) False by (simp add: int_code_def Let_def)
  with d show ?thesis by (simp add: decodeScalar_big)
qed

lemma decodeScalar_int:
  assumes "magnitude_ok i"
  shows "decodeScalar (pre @ int_code i @ r) (length pre) = Inr (int_elem i, length (int_code i))"
proof -
  consider "i = 0" | "0 < i" | "i < 0" "nbytes (nat (- i)) = 8" | "i < 0" "nbytes (nat (- i)) \<noteq> 8"
    by linarith
  then show ?thesis
  proof cases
    case 1
    then show ?thesis
      by (simp add: int_code_def decodeScalar_def decodeInt_def int_elem_def nth_append)
  next
    case 2
    with assms show ?thesis by (rule decodeScalar_int_pos)
  next
    case 3
    from 3(1) 3(2) [symmetric] show ?thesis by (rule decodeScalar_int_eight)
  next
    case 4
    with assms show ?thesis by (rule decodeScalar_int_neg)
  qed
qed


text \<open>
  What \<^verbatim>\<open>Unpack\<close> returns for an element: every integer in the narrowest of int64, uint64 and
  big.Int, a key as the byte string it is.
\<close>

fun norm_elem :: "tuple_element \<Rightarrow> tuple_element" where
  "norm_elem (EKey b) = EBytes b"
| "norm_elem (ETuple t) = ETuple (map norm_elem t)"
| "norm_elem (EInt i) = int_elem (sint i)"
| "norm_elem (EInt64 i) = int_elem (sint i)"
| "norm_elem (EUint i) = int_elem (uint i)"
| "norm_elem (EUint64 i) = int_elem (uint i)"
| "norm_elem (EBigInt i) = int_elem i"
| "norm_elem e = e"

fun is_scalar :: "tuple_element \<Rightarrow> bool" where
  "is_scalar ENil = False"
| "is_scalar (ETuple t) = False"
| "is_scalar e = True"

lemma magnitude_ok_words [simp]:
  "magnitude_ok (sint (i :: 64 word))" "magnitude_ok (uint (u :: 64 word))"
proof -
  have a: "nat \<bar>sint i\<bar> < 256 ^ 8" using sint64_bounds [of i] by simp
  then have "nbytes (nat \<bar>sint i\<bar>) \<le> 8" by (simp only: nbytes_le_iff)
  then show "magnitude_ok (sint i)" by (simp add: magnitude_ok_def)
  have "nat \<bar>uint u\<bar> = unat u" by simp
  then show "magnitude_ok (uint u)" using nbytes_word64 [of u] by (simp add: magnitude_ok_def)
qed

lemma decodeScalar_code:
  assumes "is_scalar e" and "element_wf e" and "elem_packable e" and "ok_rest r"
  shows "decodeScalar (pre @ elem_code nested e @ r) (length pre) =
    Inr (norm_elem e, length (elem_code nested e))"
proof (cases e)
  case (EFloat32 f)
  then show ?thesis
    using decodeFloat_code [of floatCode f r]
    by (simp add: decodeScalar_def Let_def)
next
  case (EFloat64 d)
  then show ?thesis
    using decodeDouble_code [of doubleCode d r]
    by (simp add: decodeScalar_def Let_def)
next
  case (EVersionstamp v)
  have "unat (UserVersion v) < 256 ^ 2" using unsigned_less [of "UserVersion v", where ?'a = nat] by simp
  with EVersionstamp show ?thesis using assms
    by (simp add: decodeScalar_def Let_def decodeVersionstamp_def versionstampBytes_def be_val_be_bytes)
qed (use assms in \<open>simp_all add: decodeScalar_int decodeScalar_def [of "pre @ _ # _"] Let_def
  decodeBytes_escape decodeUUID_def\<close>)

lemma int_code_hd: "\<exists>c s. int_code i = c # s \<and> negIntStart \<le> c \<and> c \<le> posIntEnd"
proof -
  define n where "n = nbytes (nat \<bar>i\<bar>)"
  have "n \<le> 8 \<Longrightarrow> negIntStart \<le> (intZeroCode + of_nat n :: byte) \<and> (intZeroCode + of_nat n :: byte) \<le> posIntEnd"
    "n \<le> 8 \<Longrightarrow> negIntStart \<le> (intZeroCode - of_nat n :: byte) \<and> (intZeroCode - of_nat n :: byte) \<le> posIntEnd"
    by (simp_all add: word_le_nat_alt byte_pos_code byte_neg_code) linarith
  then show ?thesis by (auto simp: int_code_def Let_def n_def [symmetric] not_less)
qed

text \<open>The type code of an element decides the branch of the decoder and is never the escape byte.\<close>

lemma elem_code_hd:
  "\<exists>c s. elem_code nested e = c # s \<and> c \<noteq> 0xFF \<and> (c = nilCode \<longleftrightarrow> e = ENil) \<and>
     (c = nestedCode \<longleftrightarrow> (\<exists>t. e = ETuple t))"
proof -
  have *: "\<exists>c s. int_code i = c # s \<and> c \<noteq> 0xFF \<and> c \<noteq> nilCode \<and> c \<noteq> nestedCode" for i
    using int_code_hd [of i] by force
  show ?thesis by (cases e) (use * in simp_all)
qed

lemma ok_rest_code: "ok_rest r \<Longrightarrow> ok_rest (tuple_code nested t @ r)"
proof (cases t)
  case (Cons e u)
  then show ?thesis using elem_code_hd [of nested e] by auto
qed simp

lemma decodeTupleLoop_scalar:
  assumes "is_scalar e" and "element_wf e" and "elem_packable e" and "ok_rest r"
  shows "decodeTupleLoop (pre @ elem_code nested e @ r) n (length pre) acc =
    decodeTupleLoop (pre @ elem_code nested e @ r) n (length pre + length (elem_code nested e))
      (acc @ [norm_elem e])"
proof -
  obtain c s where c: "elem_code nested e = c # s" "c \<noteq> nilCode" "c \<noteq> nestedCode"
    using elem_code_hd [of nested e] assms(1) by (cases e) auto
  note decodeScalar_code [OF assms, of pre nested]
  with c show ?thesis by (subst decodeTupleLoop.simps) simp
qed

text \<open>The step of the loop at an element \<open>e\<close>, which a nested tuple needs for its own elements.\<close>

definition decodes :: "bool \<Rightarrow> tuple_element \<Rightarrow> bool" where
  "decodes nested e \<longleftrightarrow> (\<forall>pre r acc. ok_rest r \<longrightarrow>
     decodeTupleLoop (pre @ elem_code nested e @ r) nested (length pre) acc =
     decodeTupleLoop (pre @ elem_code nested e @ r) nested (length pre + length (elem_code nested e))
       (acc @ [norm_elem e]))"

lemma decodeTupleLoop_elems:
  assumes "\<forall>e \<in> set ts. decodes nested e" and "ok_rest r"
  shows "decodeTupleLoop (pre @ tuple_code nested ts @ r) nested (length pre) acc =
    decodeTupleLoop (pre @ tuple_code nested ts @ r) nested (length pre + length (tuple_code nested ts))
      (acc @ map norm_elem ts)"
  using assms
proof (induction ts arbitrary: pre acc)
  case (Cons e ts)
  let ?r = "tuple_code nested ts @ r"
  have "ok_rest ?r" using Cons.prems by (simp add: ok_rest_code)
  with Cons.prems have "decodeTupleLoop (pre @ elem_code nested e @ ?r) nested (length pre) acc =
    decodeTupleLoop ((pre @ elem_code nested e) @ ?r) nested (length (pre @ elem_code nested e)) (acc @ [norm_elem e])"
    by (simp add: decodes_def)
  also note Cons.IH [of "pre @ elem_code nested e" "acc @ [norm_elem e]"]
  finally show ?case using Cons.prems by (simp add: add.assoc)
qed simp

lemma decodeTupleLoop_end:
  "ok_rest r \<Longrightarrow> decodeTupleLoop (pre @ 0 # r) True (length pre) acc = Inr (acc, length pre + 1)"
  by (subst decodeTupleLoop.simps) (auto simp: nth_append ok_rest_def neq_Nil_conv)

lemma decodes_elem: "element_wf e \<Longrightarrow> elem_packable e \<Longrightarrow> decodes nested e"
proof (induction e arbitrary: nested)
  case (ETuple ts)
  let ?c = "tuple_code True ts"
  have *: "decodeTupleLoop (?c @ 0 # r) True 0 [] = Inr (map norm_elem ts, length ?c + 1)"
    if "ok_rest r" for r
  proof -
    have "\<forall>e \<in> set ts. decodes True e" using ETuple by simp
    from decodeTupleLoop_elems [OF this, of "0 # r" "[]" "[]"] show ?thesis
      using decodeTupleLoop_end [OF that, of ?c] by simp
  qed
  show ?case unfolding decodes_def elem_code_tuple
    by (intro allI impI, subst decodeTupleLoop.simps) (simp add: *)
next
  case ENil
  show ?case unfolding decodes_def
    by (intro allI impI, subst decodeTupleLoop.simps) (simp add: nth_append)
qed (use decodeTupleLoop_scalar in \<open>simp_all add: decodes_def del: elem_code.simps norm_elem.simps\<close>)

lemma Unpack_code:
  assumes "tuple_wf t" and "packable t"
  shows "Unpack (tuple_code False t) = Inr (map norm_elem t)"
proof -
  have "\<forall>e \<in> set t. decodes False e" using assms by (simp add: tuple_wf_def packable_def decodes_elem)
  from decodeTupleLoop_elems [OF this, of "[]" "[]" "[]"] show ?thesis
    by (simp add: Unpack_def decodeTuple_def decodeTupleLoop.simps [of _ _ "length _"])
qed


section \<open>Properties\<close>

text \<open>
  (C4) Round trip of the tuple layer.  Whatever \<^verbatim>\<open>Pack\<close> returns for a tuple, \<^verbatim>\<open>Unpack\<close> decodes
  to the same tuple up to the Go types of the integers: every element comes back, nested tuples
  included, byte strings with embedded zero bytes, negative and arbitrary-precision integers, floats
  bit by bit, UUIDs and versionstamps; nothing is left over and nothing is reported as malformed.
\<close>

theorem Unpack_Pack:
  assumes "tuple_wf t" and "Pack t = Inr b"
  shows "Unpack b = Inr (map norm_elem t)"
  using assms Unpack_code by (auto simp: Pack_code)

theorem Unpack_Pack_witness:
  "Unpack [2, 0, 0xFF, 0x62, 0, 0x15, 5, 5, 0, 0xFF, 0x13, 0xFE, 0] =
     Inr [EString [0, 0x62], EInt64 5, ETuple [ENil, EInt64 (- 1)]]"
proof -
  have "Pack [EString [0, 0x62], EInt 5, ETuple [ENil, EInt64 (- 1)]] =
    Inr [2, 0, 0xFF, 0x62, 0, 0x15, 5, 5, 0, 0xFF, 0x13, 0xFE, 0]"
    by code_simp
  from Unpack_Pack [OF _ this] show ?thesis
    by (simp add: int_elem_def)
qed


text \<open>
  (C31) The decoder does not notice a missing end of a nested tuple: dropping the last byte of a packed
  nested tuple, its terminator, gives bytes that \<^verbatim>\<open>Unpack\<close> decodes to the same tuple without an
  error.
\<close>

theorem Unpack_unterminated:
  assumes "tuple_wf t" and "Pack [ETuple t] = Inr b"
  shows "Unpack (butlast b) = Inr [ETuple (map norm_elem t)] \<and> Unpack (butlast b) = Unpack b"
proof -
  have p: "packable t" and b: "b = nestedCode # tuple_code True t @ [0]"
    using assms(2) by (auto simp: Pack_code packable_def elem_code_tuple simp del: elem_code.simps)
  then have "\<forall>e \<in> set t. decodes True e" using assms(1) by (simp add: tuple_wf_def packable_def decodes_elem)
  from decodeTupleLoop_elems [OF this, of "[]" "[]" "[]"]
  have "decodeTupleLoop (tuple_code True t) True 0 [] =
      Inr (map norm_elem t, length (tuple_code True t))"
    by (simp add: decodeTupleLoop.simps [of _ _ "length _"])
  moreover have "butlast b = nestedCode # tuple_code True t" by (simp add: b butlast_append)
  ultimately have "Unpack (butlast b) = Inr [ETuple (map norm_elem t)]"
    by (simp add: Unpack_def decodeTuple_def decodeTupleLoop.simps [of "_ # _"])
  moreover have "Unpack b = Inr [ETuple (map norm_elem t)]"
    using Unpack_code [of "[ETuple t]"] p assms(1) by (simp add: b elem_code_tuple tuple_wf_def packable_def del: elem_code.simps)
  ultimately show ?thesis by simp
qed

theorem Unpack_unterminated_witness: "Unpack [5, 0x15, 7] = Inr [ETuple [EInt64 7]]"
proof -
  have "Pack [ETuple [EInt64 7]] = Inr [5, 0x15, 7, 0]" by code_simp
  from Unpack_unterminated [OF _ this] show ?thesis by (simp add: int_elem_def)
qed

section \<open>What the decoder returns can be packed\<close>

definition packs :: "tuple_element \<Rightarrow> bool" where
  "packs e \<longleftrightarrow> element_wf e \<and> elem_packable e"

lemma magnitude_ok_bytes:
  assumes "length bs \<le> 255" and "v = int (be_val bs) \<or> v = int (be_val bs) - (2 ^ (length bs * 8) - 1)"
  shows "magnitude_ok v"
proof -
  have p: "(2 :: int) ^ (length bs * 8) = 256 ^ length bs" by (simp add: power_mult mult.commute [of "length bs"])
  have "int (be_val bs) < int (256 ^ length bs)" using be_val_lt [of bs] by (simp only: of_nat_less_iff)
  then have "\<bar>v\<bar> < 256 ^ length bs" using assms(2) unfolding p by auto
  then have "nat \<bar>v\<bar> < 256 ^ length bs" by (simp add: nat_less_iff)
  also have "\<dots> \<le> 256 ^ 255" using assms(1) by (rule power_increasing) simp
  finally have "nbytes (nat \<bar>v\<bar>) \<le> 255" unfolding nbytes_le_iff .
  then show ?thesis by (simp add: magnitude_ok_def)
qed

lemma decodeInt_packs: "decodeInt b = Some (e, n) \<Longrightarrow> packs e"
  by (auto simp: decodeInt_def packs_def Let_def split: if_splits)

lemma decodeBigInt_value:
  assumes "decodeBigInt b = Some (e, n)"
  shows "\<exists>len offset v. len \<le> 255 \<and> len + offset \<le> length b \<and> (e = EInt64 (word_of_int v) \<or> e = EBigInt v) \<and>
    (v = int (be_val (take len (drop offset b))) \<or> v = int (be_val (take len (drop offset b))) - (2 ^ (len * 8) - 1))"
proof -
  define len :: nat where "len = (if b ! 0 = negIntStart \<or> b ! 0 = posIntEnd
    then (if b ! 0 = negIntStart then unat (b ! 1 XOR 0xff) else unat (b ! 1)) else 8)"
  define offset :: nat where "offset = (if b ! 0 = negIntStart \<or> b ! 0 = posIntEnd then 2 else 1)"
  define v where "v = (if b ! 0 < intZeroCode then int (be_val (take len (drop offset b))) - (2 ^ (len * 8) - 1)
    else int (be_val (take len (drop offset b))))"
  have "unat x \<le> 255" for x :: byte using unat_byte_lt [of x] by linarith
  then have "len \<le> 255" by (simp add: len_def)
  moreover have "len + offset \<le> length b" "e = EInt64 (word_of_int v) \<or> e = EBigInt v"
    using assms unfolding decodeBigInt_def Let_def len_def [symmetric] offset_def [symmetric] v_def [symmetric]
    by (auto split: if_splits)
  moreover have "v = int (be_val (take len (drop offset b))) \<or> v = int (be_val (take len (drop offset b))) - (2 ^ (len * 8) - 1)"
    by (simp add: v_def)
  ultimately show ?thesis by blast
qed

lemma decodeBigInt_packs: "decodeBigInt b = Some (e, n) \<Longrightarrow> packs e"
proof -
  assume "decodeBigInt b = Some (e, n)"
  then obtain len offset v where l: "len \<le> 255" "len + offset \<le> length b" "e = EInt64 (word_of_int v) \<or> e = EBigInt v"
    and v: "v = int (be_val (take len (drop offset b))) \<or> v = int (be_val (take len (drop offset b))) - (2 ^ (len * 8) - 1)"
    using decodeBigInt_value by blast
  then have "length (take len (drop offset b)) = len" by simp
  with magnitude_ok_bytes [of "take len (drop offset b)" v] l v have "magnitude_ok v" by simp
  with l(3) show ?thesis by (auto simp: packs_def)
qed

text \<open>A tuple that packs if it holds no incomplete versionstamp.\<close>

definition repacks :: "tuple \<Rightarrow> bool" where
  "repacks t \<longleftrightarrow> tuple_wf t \<and> (countIncompleteVersionstamps t = 0 \<longrightarrow> packable t)"

lemma countIncompleteVersionstamps_Cons:
  "countIncompleteVersionstamps (e # t) = countIncompleteVersionstamps [e] + countIncompleteVersionstamps t"
  by (cases e) simp_all

lemma countIncompleteVersionstamps_append:
  "countIncompleteVersionstamps (s @ t) = countIncompleteVersionstamps s + countIncompleteVersionstamps t"
proof (induction s)
  case (Cons e s)
  then show ?case
    using countIncompleteVersionstamps_Cons [of e s] countIncompleteVersionstamps_Cons [of e "s @ t"] by simp
qed simp

lemma repacks_simps [simp]:
  "repacks []" "packs e \<Longrightarrow> repacks [e]" "repacks t \<Longrightarrow> repacks [ETuple t]"
  "repacks s \<Longrightarrow> repacks t \<Longrightarrow> repacks (s @ t)"
  by (auto simp: repacks_def packs_def countIncompleteVersionstamps_append packable_def tuple_wf_def)

lemma decodeScalar_repacks:
  assumes "decodeScalar b i = Inr (e, off)"
  shows "repacks [e]"
proof -
  have f: "packs (fst (decodeFloat s))" "packs (fst (decodeDouble s))" for s
    by (simp_all add: packs_def decodeFloat_def decodeDouble_def)
  have u: "packs (fst (decodeUUID (drop i b)))" if "\<not> i + 17 > length b"
    using that by (simp add: packs_def decodeUUID_def)
  have v: "repacks [fst (decodeVersionstamp (drop i b))]" if "\<not> i + 13 > length b"
    using that by (simp add: repacks_def decodeVersionstamp_def)
  have c: "packs (EBytes x)" "packs (EString x)" "packs (EBool t)" for x t by (simp_all add: packs_def)
  show ?thesis
    using assms f u v c decodeInt_packs decodeBigInt_packs unfolding decodeScalar_def Let_def
    by (auto split: if_splits option.splits prod.splits) (metis fst_conv repacks_simps(2))+
qed

lemma decodeTupleLoop_repacks: "repacks t \<Longrightarrow> decodeTupleLoop b nested i t = Inr (t', n) \<Longrightarrow> repacks t'"
proof (induction b nested i t arbitrary: t' n rule: decodeTupleLoop.induct)
  case (1 b nested i t)
  have nil: "repacks [ENil]" by (simp add: packs_def)
  show ?case
  proof (cases "i < length b \<and> b ! i \<noteq> 0")
    case False
    with 1(1,2,6,7) nil show ?thesis
      by (subst (asm) (3) decodeTupleLoop.simps) (auto split: if_splits)
  next
    case pos: True
    show ?thesis
    proof (cases "b ! i = 5")
      case True
      with pos 1(7) obtain el off where el: "decodeTupleLoop (drop (i + 1) b) True 0 [] = Inr (el, off)"
          "decodeTupleLoop b nested (i + (off + 1)) (t @ [ETuple el]) = Inr (t', n)"
        by (subst (asm) decodeTupleLoop.simps) (auto split: sum.splits)
      have "repacks el" using 1(3) pos True el(1) by simp
      then have "repacks (t @ [ETuple el])" using 1(6) by simp
      from 1(4) [OF _ _ _ el(1) refl this el(2)] pos True show ?thesis by simp
    next
      case False
      with pos 1(7) obtain el off where el: "decodeScalar b i = Inr (el, off)"
          "decodeTupleLoop b nested (i + off) (t @ [el]) = Inr (t', n)"
        by (subst (asm) decodeTupleLoop.simps) (auto split: sum.splits)
      have "repacks (t @ [el])" using 1(6) decodeScalar_repacks [OF el(1)] by simp
      from 1(5) [OF _ _ _ el(1) refl this el(2)] pos False show ?thesis by simp
    qed
  qed
qed

text \<open>
  (C25) The decoder returns well-typed tuples.  Whatever bytes \<^verbatim>\<open>Unpack\<close> accepts, canonical or not, every UUID
  of the result has 16 bytes and every versionstamp 10, nested ones included, and a result without an
  incomplete versionstamp packs again, to bytes that decode to the same tuple up to the types of its
  integers.
\<close>

theorem Unpack_typed:
  assumes "Unpack b = Inr t"
  shows "tuple_wf t \<and> (countIncompleteVersionstamps t = 0 \<longrightarrow>
    (\<exists>p. Pack t = Inr p \<and> Unpack p = Inr (map norm_elem t)))"
proof -
  obtain n where "decodeTupleLoop b False 0 [] = Inr (t, n)"
    using assms by (cases "decodeTupleLoop b False 0 []") (auto simp: Unpack_def decodeTuple_def)
  then have "repacks t" using decodeTupleLoop_repacks [of "[]"] by simp
  then show ?thesis using Unpack_code [of t] by (auto simp: repacks_def Pack_packable)
qed

theorem Unpack_typed_witness:
  "\<exists>p. Pack [EUint64 0, ETuple [EInt64 7]] = Inr p \<and> Unpack p = Inr [EInt64 0, ETuple [EInt64 7]]"
proof -
  have "Unpack [0x15, 0, 5, 0x16, 0, 7] = Inr [EUint64 0, ETuple [EInt64 7]]" by code_simp
  from Unpack_typed [OF this] show ?thesis by (simp add: int_elem_def)
qed

end
