(* ===== verification/Codec.thy ===== *)
theory Codec
  imports Prelude
begin

text \<open>
  The contract of an ordered key encoding: values are written as byte strings that decode to (a
  normal form of) what was written and that sort as the values do.  The tuple layer, tuples below a
  subspace prefix, and the four directions of the record layer's tuple orderings are interpretations;
  what an index scan relies on is proved once, here.
\<close>

locale ordered_codec =
  fixes valid :: "'a \<Rightarrow> bool"
    and enc :: "'a \<Rightarrow> bytes"
    and dec :: "bytes \<Rightarrow> 'b option"
    and norm :: "'a \<Rightarrow> 'b"
    and before :: "'a \<Rightarrow> 'a \<Rightarrow> bool"
  assumes dec_enc: "valid a \<Longrightarrow> dec (enc a) = Some (norm a)"
    and enc_less: "valid a \<Longrightarrow> valid b \<Longrightarrow> enc a < enc b \<longleftrightarrow> before a b"
begin

lemma enc_inject: "valid a \<Longrightarrow> valid b \<Longrightarrow> enc a = enc b \<Longrightarrow> norm a = norm b"
  using dec_enc [of a] dec_enc [of b] by simp

lemma before_irrefl: "valid a \<Longrightarrow> \<not> before a a"
  using enc_less [of a a] by simp

lemma before_trans: "valid a \<Longrightarrow> valid b \<Longrightarrow> valid c \<Longrightarrow> before a b \<Longrightarrow> before b c \<Longrightarrow> before a c"
  using enc_less [of a b] enc_less [of b c] enc_less [of a c] by auto

lemma before_total: "valid a \<Longrightarrow> valid b \<Longrightarrow> before a b \<or> before b a \<or> norm a = norm b"
  using enc_less [of a b] enc_less [of b a] enc_inject [of a b] by (metis linorder_neqE)

lemma decode_all: "list_all valid xs \<Longrightarrow> map dec (map enc xs) = map (Some \<circ> norm) xs"
  by (induction xs) (simp_all add: dec_enc)

text \<open>Scanning keys in byte order visits the values in their order.\<close>

lemma sorted_keys:
  "list_all valid xs \<Longrightarrow> sorted_wrt (<) (map enc xs) \<longleftrightarrow> sorted_wrt before xs"
  by (induction xs) (auto simp: list_all_iff enc_less)

text \<open>A half-open key range between two encoded bounds selects the values between the bounds.\<close>

lemma range_keys:
  assumes "valid lo" "valid hi" "valid x"
  shows "enc lo \<le> enc x \<and> enc x < enc hi \<longleftrightarrow> \<not> before x lo \<and> before x hi"
  using assms enc_less [of x lo] enc_less [of x hi] by (simp add: not_less [symmetric])

text \<open>A codec below a fixed prefix is a codec.\<close>

lemma prefixed:
  "ordered_codec valid (\<lambda>a. p @ enc a)
     (\<lambda>k. if take (length p) k = p then dec (drop (length p) k) else None) norm before"
  by unfold_locales (simp_all add: dec_enc enc_less lex_simps)

text \<open>An invertible transformation of keys that reverses their order gives the descending codec.\<close>

lemma reversed:
  assumes "\<And>a. valid a \<Longrightarrow> undo (flip (enc a)) = Some (enc a)"
    and "\<And>a b. valid a \<Longrightarrow> valid b \<Longrightarrow> flip (enc a) < flip (enc b) \<longleftrightarrow> enc b < enc a"
  shows "ordered_codec valid (\<lambda>a. flip (enc a)) (\<lambda>k. Option.bind (undo k) dec) norm (\<lambda>a b. before b a)"
  by unfold_locales (simp_all add: assms dec_enc enc_less)

end

end
