(* ===== verification/TupleCompare.thy ===== *)
theory TupleCompare
  imports TupleDecode Keys Codec
begin

unbundle bit_operations_syntax

text \<open>
  The element-wise comparison of tuples (\<^verbatim>\<open>pkg/recordlayer/tuple_compare.go\<close>) and its
  equivalence with the byte order of packed tuples: comparing without packing gives the verdict that
  \<^verbatim>\<open>bytes.Compare\<close> gives on the packed keys.  From the same lemmas, the range of keys that
  \<^verbatim>\<open>FDBRangeKeys\<close> returns for a tuple holds exactly the tuples that extend it.
\<close>

section \<open>Definitions\<close>

text \<open>
  The argument of the exported comparator is a slice of values of any type.  A value is a nested
  tuple, a nil \<^verbatim>\<open>*big.Int\<close>, a value of a type the tuple layer does not know (with the name
  \<^verbatim>\<open>%T\<close> prints), or one of the other elements.
\<close>

datatype any_element =
  ATuple "any_element list"
| ANilBigInt
| AOther string
| AElem tuple_element

text \<open>An element path such as \<^verbatim>\<open>[2][0]\<close> is the list of its indices.\<close>

record TupleComparisonError =
  Side :: string
  ElementPath :: "nat list"
  ElementType :: string

fun validateComparisonTuple ::
  "any_element list \<Rightarrow> string \<Rightarrow> nat list \<Rightarrow> nat \<Rightarrow> TupleComparisonError option" where
  "validateComparisonTuple [] side path i = None"
| "validateComparisonTuple (item # t) side path i =
     (let at = path @ [i]
      in case item of
           ATuple v \<Rightarrow>
             (case validateComparisonTuple v side at 0 of
                Some err \<Rightarrow> Some err
              | None \<Rightarrow> validateComparisonTuple t side path (i + 1))
         | ANilBigInt \<Rightarrow> Some \<lparr>Side = side, ElementPath = at, ElementType = ''nil *big.Int''\<rparr>
         | AOther ty \<Rightarrow> Some \<lparr>Side = side, ElementPath = at, ElementType = ty\<rparr>
         | AElem e \<Rightarrow> validateComparisonTuple t side path (i + 1))"

text \<open>A validated argument is a tuple of supported elements.\<close>

fun any_tuple :: "any_element list \<Rightarrow> tuple" where
  "any_tuple [] = []"
| "any_tuple (AElem e # t) = e # any_tuple t"
| "any_tuple (ATuple v # t) = ETuple (any_tuple v) # any_tuple t"
| "any_tuple (_ # t) = any_tuple t"

fun tupleItemCode :: "tuple_element \<Rightarrow> int" where
  "tupleItemCode ENil = 0x00"
| "tupleItemCode (EBytes b) = 0x01"
| "tupleItemCode (EString s) = 0x02"
| "tupleItemCode (ETuple t) = 0x05"
| "tupleItemCode (EInt i) = 0x14"
| "tupleItemCode (EInt64 i) = 0x14"
| "tupleItemCode (EUint i) = 0x14"
| "tupleItemCode (EUint64 i) = 0x14"
| "tupleItemCode (EBigInt i) = 0x14"
| "tupleItemCode (EFloat32 f) = 0x20"
| "tupleItemCode (EFloat64 f) = 0x21"
| "tupleItemCode (EBool b) = 0x26"
| "tupleItemCode (EUUID u) = 0x30"
| "tupleItemCode (EVersionstamp v) = 0x33"
| "tupleItemCode (EKey k) = 0x01"

definition tupleFloatBits :: "32 word \<Rightarrow> 32 word" where
  "tupleFloatBits bits = (if bits AND push_bit 31 1 \<noteq> 0 then NOT bits else bits XOR push_bit 31 1)"

definition tupleDoubleBits :: "64 word \<Rightarrow> 64 word" where
  "tupleDoubleBits bits = (if bits AND push_bit 63 1 \<noteq> 0 then NOT bits else bits XOR push_bit 63 1)"

fun tupleSmallInt :: "tuple_element \<Rightarrow> 64 word \<times> bool" where
  "tupleSmallInt (EInt v) = (v, True)"
| "tupleSmallInt (EInt64 v) = (v, True)"
| "tupleSmallInt (EUint v) = (v, v \<le> 0x7FFFFFFFFFFFFFFF)"
| "tupleSmallInt (EUint64 v) = (v, v \<le> 0x7FFFFFFFFFFFFFFF)"
| "tupleSmallInt (EBigInt v) = (word_of_int v, - (2 ^ 63) \<le> v \<and> v < 2 ^ 63)"
| "tupleSmallInt _ = (0, False)"

text \<open>The default arm asserts a \<^verbatim>\<open>big.Int\<close>; it is only reached for integers.\<close>

fun tupleBigInt :: "tuple_element \<Rightarrow> int" where
  "tupleBigInt (EInt v) = sint v"
| "tupleBigInt (EInt64 v) = sint v"
| "tupleBigInt (EUint v) = uint v"
| "tupleBigInt (EUint64 v) = uint v"
| "tupleBigInt (EBigInt v) = v"
| "tupleBigInt _ = 0"

definition compareTupleIntegers :: "tuple_element \<Rightarrow> tuple_element \<Rightarrow> int" where
  "compareTupleIntegers a b =
     (let (x, xSmall) = tupleSmallInt a; (y, ySmall) = tupleSmallInt b
      in if xSmall \<and> ySmall then cmp_compare (sint x) (sint y)
         else cmp_compare (tupleBigInt a) (tupleBigInt b))"

definition versionstampIncomplete :: "versionstamp \<Rightarrow> bool" where
  "versionstampIncomplete v \<longleftrightarrow> list_all (\<lambda>b. b = 0xFF) (TransactionVersion v)"

definition compareVersionstamps :: "versionstamp \<Rightarrow> versionstamp \<Rightarrow> int" where
  "compareVersionstamps a b =
     (let incompleteA = versionstampIncomplete a; incompleteB = versionstampIncomplete b
      in if \<not> incompleteA \<and> \<not> incompleteB then
           (let c = cmp_compare (TransactionVersion a) (TransactionVersion b)
            in if c \<noteq> 0 then c else cmp_compare (UserVersion a) (UserVersion b))
         else if \<not> incompleteA then - 1
         else if \<not> incompleteB then 1
         else cmp_compare (UserVersion a) (UserVersion b))"

fun tupleItemBytes :: "tuple_element \<Rightarrow> bytes" where
  "tupleItemBytes (EBytes b) = b"
| "tupleItemBytes (EKey k) = k"
| "tupleItemBytes _ = []"

text \<open>
  \<^verbatim>\<open>compareTupleItems\<close> switches on the common type code and asserts the types of both values;
  with equal codes the assertions succeed, so the last line of the case is not reached.
\<close>

fun compareTuples :: "tuple \<Rightarrow> tuple \<Rightarrow> int"
  and compareTupleItems :: "tuple_element \<Rightarrow> tuple_element \<Rightarrow> int" where
  "compareTuples (x # a) (y # b) =
     (let c = compareTupleItems x y in if c \<noteq> 0 then c else compareTuples a b)"
| "compareTuples a b = cmp_compare (length a) (length b)"
| "compareTupleItems a b =
     (let codeA = tupleItemCode a; codeB = tupleItemCode b
      in if codeA \<noteq> codeB then cmp_compare codeA codeB
         else if codeA = 0x00 then 0
         else if codeA = 0x01 then cmp_compare (tupleItemBytes a) (tupleItemBytes b)
         else if codeA = 0x14 then compareTupleIntegers a b
         else case (a, b) of
           (EString x, EString y) \<Rightarrow> cmp_compare x y
         | (ETuple x, ETuple y) \<Rightarrow> compareTuples x y
         | (EFloat32 x, EFloat32 y) \<Rightarrow> cmp_compare (tupleFloatBits x) (tupleFloatBits y)
         | (EFloat64 x, EFloat64 y) \<Rightarrow> cmp_compare (tupleDoubleBits x) (tupleDoubleBits y)
         | (EBool x, EBool y) \<Rightarrow> (if x = y then 0 else if \<not> x then - 1 else 1)
         | (EUUID x, EUUID y) \<Rightarrow> cmp_compare x y
         | (EVersionstamp x, EVersionstamp y) \<Rightarrow> compareVersionstamps x y
         | _ \<Rightarrow> 0)"

declare compareTupleItems.simps [simp del]

definition CompareTuples ::
  "any_element list \<Rightarrow> any_element list \<Rightarrow> (TupleComparisonError, int) result" where
  "CompareTuples a b =
     (case validateComparisonTuple a ''left'' [] 0 of
        Some err \<Rightarrow> Inl err
      | None \<Rightarrow>
          (case validateComparisonTuple b ''right'' [] 0 of
             Some err \<Rightarrow> Inl err
           | None \<Rightarrow> Inr (compareTuples (any_tuple a) (any_tuple b))))"


section \<open>Byte order of element codes\<close>

text \<open>
  \<open>below x y\<close>: the code \<open>x\<close> sorts before the code \<open>y\<close> whatever follows each of them in a packed
  tuple.
\<close>

definition below :: "bytes \<Rightarrow> bytes \<Rightarrow> bool" where
  "below x y \<longleftrightarrow> (\<forall>r s. ok_rest r \<longrightarrow> ok_rest s \<longrightarrow> x @ r < y @ s)"

lemma below_hd: "c < d \<Longrightarrow> below (c # x) (d # y)"
  by (simp add: below_def)

lemma below_Cons: "below x y \<Longrightarrow> below (c # x) (c # y)"
  by (simp add: below_def)

lemma below_length: "length x = length y \<Longrightarrow> x < y \<Longrightarrow> below x y"
  by (simp add: below_def lex_append_eq_length)

subsection \<open>Byte strings\<close>

lemma ok_rest_less: "ok_rest r \<Longrightarrow> r < 0xFF # s"
  by (cases r) (auto simp: byte_lt_FF)

lemma below_escape: "a < b \<Longrightarrow> below (escape a @ [0]) (escape b @ [0])"
proof (induction a arbitrary: b)
  case Nil
  then obtain y ys where "b = y # ys" by (cases b) auto
  then show ?case
    by (auto simp: below_def ok_rest_less word_gt_0)
next
  case (Cons x a)
  then obtain y ys where b: "b = y # ys" "x < y \<or> x = y \<and> a < ys" by (cases b) auto
  then show ?case
    using Cons.IH [of ys] by (auto simp: word_gt_0 intro: below_Cons below_hd)
qed

subsection \<open>Integers\<close>

lemma word_byte_less: "m < 256 \<Longrightarrow> n < 256 \<Longrightarrow> ((of_nat m :: byte) < of_nat n) = (m < n)"
  by (simp add: word_less_nat_alt unat_of_nat)

lemma nbytes_mono: "m \<le> n \<Longrightarrow> nbytes m \<le> nbytes n"
  using nbytes_lt [of n] by (simp add: nbytes_le_iff)

lemma below_int_nonneg:
  assumes "0 \<le> i" and "i < j" and "magnitude_ok j"
  shows "below (int_code i) (int_code j)"
proof -
  let ?m = "nbytes (nat i)" and ?n = "nbytes (nat j)"
  have le: "?m \<le> ?n" and n: "?n \<le> 255" using assms by (simp_all add: nbytes_mono magnitude_ok_def)
  have lt: "be_bytes ?n (nat i) < be_bytes ?n (nat j)" if "?m = ?n"
    using assms(1,2) nbytes_lt [of "nat i"] nbytes_lt [of "nat j"] that
    by (simp add: be_bytes_less_iff)
  consider "?m = ?n" | "?m < ?n" "?m \<le> 8" | "8 < ?m" "?m < ?n" using le by linarith
  then show ?thesis
  proof cases
    case 1
    with lt assms show ?thesis
      by (auto simp: int_code_def Let_def intro!: below_Cons below_length)
  next
    case 2
    have "(intZeroCode + of_nat ?m :: byte) < (if ?n > 8 then posIntEnd else intZeroCode + of_nat ?n)"
      using 2 by (simp add: word_less_nat_alt byte_pos_code)
    with 2 assms show ?thesis by (auto simp: int_code_def Let_def intro!: below_hd split: if_splits)
  next
    case 3
    with assms n show ?thesis
      by (simp add: int_code_def Let_def) (intro below_Cons below_hd, simp add: word_byte_less)
  qed
qed

lemma uint_not: "uint (NOT w :: 'a :: len word) = 2 ^ LENGTH('a) - 1 - uint w"
  using unsigned_less [of w, where ?'a = int]
  by (simp add: unsigned_not_eq take_bit_not_eq_mask_diff mask_eq_exp_minus_1 take_bit_int_eq_self)

lemma not_less_not: "NOT v < NOT w \<longleftrightarrow> w < (v :: 'a :: len word)"
  by (simp add: word_less_alt uint_not)

lemma xor_FF_less: "m < 256 \<Longrightarrow> n < 256 \<Longrightarrow> ((of_nat m XOR 0xFF :: byte) < of_nat n XOR 0xFF) = (n < m)"
proof -
  assume *: "m < 256" "n < 256"
  have x: "(w :: byte) XOR 0xFF = NOT w" for w unfolding byte_FF by (rule bit.xor_one_right)
  show ?thesis using * unfolding x not_less_not by (simp add: word_byte_less)
qed


lemma below_int_neg:
  assumes "i < j" and "j < 0" and "magnitude_ok i"
  shows "below (int_code i) (int_code j)"
proof -
  let ?m = "nbytes (nat (- i))" and ?n = "nbytes (nat (- j))"
  have le: "?n \<le> ?m" and m: "?m \<le> 255" using assms by (simp_all add: nbytes_mono magnitude_ok_def)
  have n0: "0 < ?n" using assms by simp
  have lt: "be_bytes ?n (nat (i + (256 ^ ?n - 1))) < be_bytes ?n (nat (j + (256 ^ ?n - 1)))" if "?m = ?n"
  proof -
    have *: "?m = nbytes (nat \<bar>i\<bar>)" "?n = nbytes (nat \<bar>j\<bar>)" using assms by simp_all
    have b: "0 \<le> i + (256 ^ ?n - 1)" "i + (256 ^ ?n - 1) < 256 ^ ?n"
      "0 \<le> j + (256 ^ ?n - 1)" "j + (256 ^ ?n - 1) < 256 ^ ?n"
      using neg_code_bounds [OF _ *(1)] neg_code_bounds [OF _ *(2)] assms that by auto
    then have "nat (i + (256 ^ ?n - 1)) < 256 ^ ?n" "nat (j + (256 ^ ?n - 1)) < 256 ^ ?n"
      by (simp_all add: nat_less_iff)
    moreover have "nat (i + (256 ^ ?n - 1)) < nat (j + (256 ^ ?n - 1))" using b assms(1) by simp
    ultimately show ?thesis by (simp add: be_bytes_less_iff)
  qed
  consider "?m = ?n" | "?n < ?m" "?n \<le> 8" | "8 < ?n" "?n < ?m" using le by linarith
  then show ?thesis
  proof cases
    case 1
    with lt assms show ?thesis
      by (auto simp: int_code_def Let_def intro!: below_Cons below_length)
  next
    case 2
    have "(if ?m > 8 then negIntStart else intZeroCode - of_nat ?m :: byte) < intZeroCode - of_nat ?n"
      using 2 by (auto simp: word_less_nat_alt byte_neg_code)
    with 2 assms show ?thesis by (auto simp: int_code_def Let_def intro!: below_hd split: if_splits)
  next
    case 3
    with assms m show ?thesis
      by (simp add: int_code_def Let_def) (intro below_Cons below_hd, simp add: xor_FF_less)
  qed
qed

lemma below_int:
  assumes "i < j" and "magnitude_ok i" and "magnitude_ok j"
  shows "below (int_code i) (int_code j)"
proof -
  consider "0 \<le> i" | "j < 0" | "i < 0" "0 \<le> j" by linarith
  then show ?thesis
  proof cases
    case 3
    then have "0 < nbytes (nat (- i))" by simp
    then have "(if nbytes (nat (- i)) > 8 then negIntStart else intZeroCode - of_nat (nbytes (nat (- i))) :: byte)
      < (if nbytes (nat j) > 8 then posIntEnd else intZeroCode + of_nat (nbytes (nat j)))"
      by (auto simp: word_less_nat_alt byte_neg_code byte_pos_code)
    with 3 show ?thesis by (auto simp: int_code_def Let_def intro!: below_hd split: if_splits)
  qed (use assms below_int_nonneg below_int_neg in auto)
qed


subsection \<open>Floats\<close>

lemma unat_complement: "unat (x XOR 0xFF) + unat (x :: byte) = 255"
proof -
  have "x XOR 0xFF = NOT x" unfolding byte_FF by (rule bit.xor_one_right)
  then have "uint (x XOR 0xFF) = 255 - uint x" by (simp add: uint_not)
  then have "int (unat (x XOR 0xFF)) = 255 - int (unat x)" by simp
  then show ?thesis by linarith
qed

lemma be_val_complement: "be_val (map (\<lambda>x. x XOR 0xFF) b) + be_val b + 1 = 256 ^ length b"
proof (induction b)
  case (Cons x b)
  have "be_val (map (\<lambda>x. x XOR 0xFF) (x # b)) + be_val (x # b) + 1 =
    (unat (x XOR 0xFF) + unat x) * 256 ^ length b + (be_val (map (\<lambda>x. x XOR 0xFF) b) + be_val b + 1)"
    by (simp add: be_val_Cons algebra_simps)
  then show ?case using Cons unat_complement [of x] by simp
qed (simp add: be_val_def)


lemma be_val_adjust:
  assumes "length b = Suc n"
  shows "be_val (adjustFloatBytes b True) =
    (if 128 * 256 ^ n \<le> be_val b then 256 ^ Suc n - 1 - be_val b else be_val b + 128 * 256 ^ n)"
proof -
  obtain x bs where b: "b = x # bs" "length bs = n" using assms by (cases b) auto
  have lt: "be_val bs < 256 ^ n" using be_val_lt [of bs] b by simp
  have v: "be_val b = unat x * 256 ^ n + be_val bs" using b by (simp add: be_val_Cons)
  have top: "128 * 256 ^ n \<le> be_val b \<longleftrightarrow> 128 \<le> unat x"
  proof
    assume "128 * 256 ^ n \<le> be_val b"
    also have "be_val b < Suc (unat x) * 256 ^ n" using v lt by simp
    finally show "128 \<le> unat x" by simp
  next
    assume "128 \<le> unat x"
    then have "128 * 256 ^ n \<le> unat x * 256 ^ n" by (rule mult_le_mono1)
    with v show "128 * 256 ^ n \<le> be_val b" by linarith
  qed
  have sign: "x AND 0x80 \<noteq> 0 \<longleftrightarrow> 128 \<le> unat x" by (simp add: and_sign_bit bit7_iff)
  show ?thesis
  proof (cases "128 \<le> unat x")
    case True
    have "be_val (map (\<lambda>x. x XOR 0xFF) b) = 256 ^ Suc n - 1 - be_val b"
      using be_val_complement [of b] assms by simp
    with True sign top b show ?thesis by (simp add: adjustFloatBytes_def)
  next
    case False
    then have "x AND 0x80 = 0" using sign by simp
    then have "x XOR 0x80 = x + 0x80" by (simp add: disjunctive_xor_eq_or disjunctive_add_eq_or)
    then have "unat (x XOR 0x80) = unat x + 128" using False by (simp add: unat_word_ariths)
    with False sign top b v show ?thesis by (simp add: adjustFloatBytes_def be_val_Cons algebra_simps)
  qed
qed

lemma top_bit_iff:
  assumes "LENGTH('a :: len) = Suc n"
  shows "w AND push_bit n 1 \<noteq> 0 \<longleftrightarrow> 2 ^ n \<le> unat (w :: 'a word)"
proof -
  have "w AND push_bit n 1 \<noteq> 0 \<longleftrightarrow> bit (unat w) n"
    using assms by (simp add: bit_unsigned_iff bit_iff_and_push_bit_not_eq_0 [of w])
  also have "\<dots> \<longleftrightarrow> odd (unat w div 2 ^ n)" by (simp add: bit_iff_odd)
  also have "unat w div 2 ^ n = (if 2 ^ n \<le> unat w then 1 else 0)"
    using unsigned_less [of w, where ?'a = nat] assms by (simp add: div_nat_eqI)
  finally show ?thesis by simp
qed

lemma unat_top_bit:
  assumes "LENGTH('a :: len) = Suc n"
  shows "unat (push_bit n 1 :: 'a word) = 2 ^ n"
proof -
  have "unat (push_bit n 1 :: 'a word) = take_bit LENGTH('a) (push_bit n (unat (1 :: 'a word)))"
    by (rule unsigned_push_bit_eq)
  also have "\<dots> = push_bit n 1" using assms by (simp add: take_bit_push_bit)
  finally show ?thesis by (simp add: push_bit_eq_mult)
qed

lemma unat_flip_top:
  assumes "LENGTH('a :: len) = Suc n"
  shows "unat (if w AND push_bit n 1 \<noteq> 0 then NOT w else w XOR push_bit n 1 :: 'a word) =
    (if 2 ^ n \<le> unat w then 2 ^ Suc n - 1 - unat w else unat w + 2 ^ n)"
proof (cases "w AND push_bit n 1 = 0")
  case True
  then have lt: "unat w < 2 ^ n" using top_bit_iff [OF assms, of w] by simp
  have "w XOR push_bit n 1 = w + push_bit n 1"
    using True by (simp add: disjunctive_xor_eq_or disjunctive_add_eq_or)
  moreover have "unat w + unat (push_bit n 1 :: 'a word) < 2 ^ LENGTH('a)"
    unfolding unat_top_bit [OF assms] using lt assms by simp
  then have "unat (w + push_bit n 1) = unat w + unat (push_bit n 1 :: 'a word)"
    unfolding unat_add_lem .
  then have "unat (w + push_bit n 1) = unat w + 2 ^ n" unfolding unat_top_bit [OF assms] .
  ultimately show ?thesis using True lt by simp
next
  case False
  have "int (unat (NOT w) + unat w + 1) = int (2 ^ Suc n)" using uint_not [of w] assms by simp
  then have "unat (NOT w) + unat w + 1 = 2 ^ Suc n" by (simp only: of_nat_eq_iff)
  then have "unat (NOT w) = 2 ^ Suc n - 1 - unat w" by simp
  then show ?thesis using False top_bit_iff [OF assms, of w] by simp
qed

lemma be_val_float_code: "be_val (float_code f) = unat (tupleFloatBits f)"
proof -
  have "unat f < 256 ^ 4" using unsigned_less [of f, where ?'a = nat] by simp
  then have "be_val (be_bytes 4 (unat f)) = unat f" by (simp add: be_val_be_bytes)
  then show ?thesis using be_val_adjust [of "be_bytes 4 (unat f)" 3] unat_flip_top [of 31 f]
    by (simp add: float_code_def tupleFloatBits_def)
qed

lemma be_val_double_code: "be_val (double_code f) = unat (tupleDoubleBits f)"
proof -
  have "unat f < 256 ^ 8" using unsigned_less [of f, where ?'a = nat] by simp
  then have "be_val (be_bytes 8 (unat f)) = unat f" by (simp add: be_val_be_bytes)
  then show ?thesis using be_val_adjust [of "be_bytes 8 (unat f)" 7] unat_flip_top [of 63 f]
    by (simp add: double_code_def tupleDoubleBits_def)
qed

lemma be_val_eq_imp: "length x = length y \<Longrightarrow> be_val x = be_val y \<Longrightarrow> x = y"
  by (metis be_bytes_be_val)


subsection \<open>Elements and tuples\<close>

text \<open>The verdict \<open>c\<close> of a comparison agrees with the byte order of the codes \<open>x\<close> and \<open>y\<close>.\<close>

definition verdict :: "int \<Rightarrow> bytes \<Rightarrow> bytes \<Rightarrow> bool" where
  "verdict c x y \<longleftrightarrow> c = 0 \<and> x = y \<or> c = - 1 \<and> below x y \<or> c = 1 \<and> below y x"

lemma verdict_cmp:
  assumes "\<And>a b. a < b \<Longrightarrow> P a \<Longrightarrow> P b \<Longrightarrow> below (f a) (f b)" and "P a" and "P b"
  shows "verdict (cmp_compare a b) (f a) (f b)"
  using assms by (cases a b rule: linorder_cases) (auto simp: verdict_def cmp_compare_def)

lemma verdict_Cons: "verdict c x y \<Longrightarrow> verdict c (d # x) (d # y)"
  by (auto simp: verdict_def below_Cons)

lemma verdict_escape: "verdict (cmp_compare a b) (escape a @ [0]) (escape b @ [0])"
  by (rule verdict_cmp [where P = "\<lambda>_. True"]) (simp_all add: below_escape)

lemma verdict_int:
  "magnitude_ok i \<Longrightarrow> magnitude_ok j \<Longrightarrow> verdict (cmp_compare i j) (int_code i) (int_code j)"
  by (rule verdict_cmp [where P = magnitude_ok]) (simp_all add: below_int)

lemma verdict_width: "verdict (cmp_compare x y) x y" if "length x = length y"
  by (rule verdict_cmp [where f = "\<lambda>x. x" and P = "\<lambda>z. length z = length x"])
    (use that in \<open>simp_all add: below_length\<close>)

lemma cmp_compare_be_val: "length x = length y \<Longrightarrow> cmp_compare (be_val x) (be_val y) = cmp_compare x y"
  using be_val_less_iff [of x y] be_val_eq_imp [of x y] by (auto simp: cmp_compare_def)

lemma cmp_compare_unat: "cmp_compare (unat a) (unat b) = cmp_compare a b"
  by (simp add: cmp_compare_def word_less_nat_alt word_unat_eq_iff)

lemma verdict_float: "verdict (cmp_compare (tupleFloatBits f) (tupleFloatBits g)) (float_code f) (float_code g)"
proof -
  have "cmp_compare (tupleFloatBits f) (tupleFloatBits g) = cmp_compare (float_code f) (float_code g)"
    using cmp_compare_be_val [of "float_code f" "float_code g"] by (simp add: be_val_float_code cmp_compare_unat)
  then show ?thesis by (simp add: verdict_width)
qed

lemma verdict_double:
  "verdict (cmp_compare (tupleDoubleBits f) (tupleDoubleBits g)) (double_code f) (double_code g)"
proof -
  have "cmp_compare (tupleDoubleBits f) (tupleDoubleBits g) = cmp_compare (double_code f) (double_code g)"
    using cmp_compare_be_val [of "double_code f" "double_code g"] by (simp add: be_val_double_code cmp_compare_unat)
  then show ?thesis by (simp add: verdict_width)
qed

lemma verdict_versionstamp:
  assumes "length (TransactionVersion v) = 10" and "length (TransactionVersion w) = 10"
    and "TransactionVersion v \<noteq> incompleteTransactionVersion"
    and "TransactionVersion w \<noteq> incompleteTransactionVersion"
  shows "verdict (compareVersionstamps v w) (versionstampBytes v) (versionstampBytes w)"
proof -
  have inc: "versionstampIncomplete u \<longleftrightarrow> TransactionVersion u = incompleteTransactionVersion"
    if "length (TransactionVersion u) = 10" for u
    using that by (auto simp: versionstampIncomplete_def incompleteTransactionVersion_def list_all_iff
      replicate_eqI dest: replicate_eqI)
  have lt: "unat (UserVersion u) < 256 ^ 2" for u :: versionstamp
    using unsigned_less [of "UserVersion u", where ?'a = nat] by simp
  have "compareVersionstamps v w = cmp_compare (versionstampBytes v) (versionstampBytes w)"
    using assms lt by (auto simp: compareVersionstamps_def inc versionstampBytes_def cmp_compare_def
      lex_append_eq_length be_bytes_less_iff be_bytes_inject word_less_nat_alt word_unat_eq_iff)
  then show ?thesis using assms by (simp add: verdict_width versionstampBytes_def)
qed


text \<open>Elements of different kinds: the type codes decide.\<close>

fun lead_lo :: "int \<Rightarrow> int" where
  "lead_lo k = (if k = 0x14 then 0x0b else k)"

fun lead_hi :: "int \<Rightarrow> int" where
  "lead_hi k = (if k = 0x14 then 0x1d else if k = 0x26 then 0x27 else k)"

lemma elem_code_lead:
  "\<exists>c s. elem_code nested e = c # s \<and> lead_lo (tupleItemCode e) \<le> uint c \<and> uint c \<le> lead_hi (tupleItemCode e)"
proof -
  have "\<exists>c s. int_code i = c # s \<and> 0x0b \<le> uint c \<and> uint c \<le> 0x1d" for i
    using int_code_hd [of i] by (auto simp: word_le_def)
  then show ?thesis by (cases e) simp_all
qed

lemma tupleItemCode_mem:
  "tupleItemCode e \<in> {0x00, 0x01, 0x02, 0x05, 0x14, 0x20, 0x21, 0x26, 0x30, 0x33}"
  by (cases e) simp_all

lemma below_kind:
  assumes "tupleItemCode e < tupleItemCode f"
  shows "below (elem_code nested e) (elem_code nested f)"
proof -
  obtain c s d t where *: "elem_code nested e = c # s" "uint c \<le> lead_hi (tupleItemCode e)"
    "elem_code nested f = d # t" "lead_lo (tupleItemCode f) \<le> uint d"
    using elem_code_lead [of nested e] elem_code_lead [of nested f] by blast
  have "lead_hi (tupleItemCode e) < lead_lo (tupleItemCode f)"
    using tupleItemCode_mem [of e] tupleItemCode_mem [of f] assms by auto
  with * have "c < d" by (simp only: word_less_alt)
  with * show ?thesis by (simp add: below_hd)
qed

lemma compareTupleIntegers_val:
  assumes "tupleItemCode a = 0x14" and "tupleItemCode b = 0x14"
  shows "compareTupleIntegers a b = cmp_compare (tupleBigInt a) (tupleBigInt b)"
proof -
  have "uint w \<le> 0x7FFFFFFFFFFFFFFF \<Longrightarrow> sint w = uint w" for w :: "64 word"
    using sint_of_int64 [of "uint w"] order_trans [of "- (2 ^ 63)" 0 "uint w"] by simp
  then have "sint (fst (tupleSmallInt e)) = tupleBigInt e"
    if "tupleItemCode e = 0x14" "snd (tupleSmallInt e)" for e
    using that by (cases e) (auto simp: word_le_def sint_of_int64)
  then show ?thesis using assms
    by (auto simp: compareTupleIntegers_def split: prod.splits) (metis fst_conv snd_conv)+
qed

lemma elem_code_int: "tupleItemCode a = 0x14 \<Longrightarrow> elem_code nested a = int_code (tupleBigInt a)"
  by (cases a) simp_all

lemma elem_magnitude: "elem_packable a \<Longrightarrow> tupleItemCode a = 0x14 \<Longrightarrow> magnitude_ok (tupleBigInt a)"
  by (cases a) simp_all


lemma compare_same_kind:
  assumes "tupleItemCode e = tupleItemCode f" and "tupleItemCode e \<noteq> 0x05"
    and "element_wf e" "element_wf f" "elem_packable e" "elem_packable f"
  shows "verdict (compareTupleItems e f) (elem_code nested e) (elem_code nested f)"
proof (cases "tupleItemCode e = 0x14")
  case True
  with assms show ?thesis
    by (simp add: compareTupleItems.simps [of e] compareTupleIntegers_val elem_code_int elem_magnitude verdict_int)
next
  case False
  with assms show ?thesis
    by (cases e; cases f)
      (auto simp: compareTupleItems.simps verdict_escape verdict_width verdict_float verdict_double verdict_versionstamp
        intro!: verdict_Cons, auto simp: verdict_def below_hd)
qed

text \<open>Lists of elements, given the verdict on each pair: nested with the terminator, and at the top.\<close>

lemma compare_kinds:
  assumes "tupleItemCode e \<noteq> tupleItemCode f"
  shows "verdict (compareTupleItems e f) (elem_code nested e) (elem_code nested f)"
  using assms below_kind [of e f nested] below_kind [of f e nested]
  by (auto simp: compareTupleItems.simps [of e] verdict_def cmp_compare_def Let_def)

lemma compare_scalar:
  assumes "tupleItemCode e \<noteq> 0x05"
    and "element_wf e" "element_wf f" "elem_packable e" "elem_packable f"
  shows "verdict (compareTupleItems e f) (elem_code nested e) (elem_code nested f)"
  using assms compare_kinds compare_same_kind by metis

lemma compare_nested:
  assumes "\<And>x y. x \<in> set a \<Longrightarrow> y \<in> set b \<Longrightarrow>
    verdict (compareTupleItems x y) (elem_code True x) (elem_code True y)"
  shows "verdict (compareTuples a b) (tuple_code True a @ [0]) (tuple_code True b @ [0])"
  using assms
proof (induction a b rule: list_induct2')
  case (2 x a)
  have "below [0] (elem_code True x @ tuple_code True a @ [0])"
    using elem_code_hd [of True x] by (cases "x = ENil") (auto simp: below_def ok_rest_less word_gt_0)
  then show ?case by (simp add: verdict_def cmp_compare_def)
next
  case (3 y b)
  have "below [0] (elem_code True y @ tuple_code True b @ [0])"
    using elem_code_hd [of True y] by (cases "y = ENil") (auto simp: below_def ok_rest_less word_gt_0)
  then show ?case by (simp add: verdict_def cmp_compare_def)
next
  case (4 x a y b)
  have IH: "verdict (compareTuples a b) (tuple_code True a @ [0]) (tuple_code True b @ [0])"
    by (rule 4) (simp add: 4)
  have ok: "ok_rest r \<Longrightarrow> ok_rest (tuple_code True t @ 0 # r)" for r t by (simp add: ok_rest_code)
  have hd: "verdict (compareTupleItems x y) (elem_code True x) (elem_code True y)" by (simp add: 4)
  show ?case
  proof (cases "compareTupleItems x y = 0")
    case True
    with hd have "elem_code True x = elem_code True y" by (simp add: verdict_def)
    with True IH show ?thesis by (auto simp: verdict_def below_def lex_simps)
  next
    case False
    with hd ok show ?thesis by (auto simp: verdict_def below_def)
  qed
qed (simp add: verdict_def)

lemma compare_top:
  assumes "\<And>x y. x \<in> set a \<Longrightarrow> y \<in> set b \<Longrightarrow>
    verdict (compareTupleItems x y) (elem_code False x) (elem_code False y)"
  shows "compareTuples a b = cmp_compare (tuple_code False a) (tuple_code False b)"
  using assms
proof (induction a b rule: list_induct2')
  case (2 x a)
  then show ?case using elem_code_hd [of False x] by (auto simp: cmp_compare_def)
next
  case (3 y b)
  then show ?case using elem_code_hd [of False y] by (auto simp: cmp_compare_def)
next
  case (4 x a y b)
  have IH: "compareTuples a b = cmp_compare (tuple_code False a) (tuple_code False b)"
    by (rule 4) (simp add: 4)
  have ok: "ok_rest (tuple_code False t)" for t using ok_rest_code [of "[]"] by simp
  have hd: "verdict (compareTupleItems x y) (elem_code False x) (elem_code False y)" by (simp add: 4)
  show ?case
  proof (cases "compareTupleItems x y = 0")
    case True
    with hd have "elem_code False x = elem_code False y" by (simp add: verdict_def)
    with True IH show ?thesis by (simp add: cmp_compare_def lex_simps)
  next
    case False
    with hd have "compareTupleItems x y = - 1 \<and>
        elem_code False x @ tuple_code False a < elem_code False y @ tuple_code False b \<or>
      compareTupleItems x y = 1 \<and>
        elem_code False y @ tuple_code False b < elem_code False x @ tuple_code False a"
      using ok by (auto simp: verdict_def below_def)
    then show ?thesis by (auto simp: cmp_compare_def)
  qed
qed simp

lemma compare_items:
  assumes "element_wf e" "element_wf f" "elem_packable e" "elem_packable f"
  shows "verdict (compareTupleItems e f) (elem_code nested e) (elem_code nested f)"
  using assms
proof (induction e arbitrary: f nested)
  case (ETuple ts)
  show ?case
  proof (cases f)
    case (ETuple us)
    have "verdict (compareTuples ts us) (tuple_code True ts @ [0]) (tuple_code True us @ [0])"
      using ETuple.prems \<open>f = ETuple us\<close> by (intro compare_nested ETuple.IH) auto
    then show ?thesis using \<open>f = ETuple us\<close>
      by (simp add: compareTupleItems.simps elem_code_tuple verdict_Cons del: elem_code.simps)
  qed (simp_all add: compare_kinds del: elem_code.simps)
qed (simp_all add: compare_scalar del: elem_code.simps)

lemma compareTuples_code:
  assumes "tuple_wf a" "tuple_wf b" "packable a" "packable b"
  shows "compareTuples a b = cmp_compare (tuple_code False a) (tuple_code False b)"
  using assms by (intro compare_top compare_items) (auto simp: tuple_wf_def packable_def)

section \<open>The range of a tuple\<close>

text \<open>The loop of the decoder only ever extends the elements it has read.\<close>

lemma decodeTupleLoop_extends:
  "decodeTupleLoop b nested i acc = Inr (res, j) \<Longrightarrow> \<exists>s. res = acc @ s"
proof (induction "length b - i" arbitrary: i acc rule: less_induct)
  case less
  have IH: "\<exists>s. res = acc @ s" if "decodeTupleLoop b nested k (acc @ [e]) = Inr (res, j)" "i < k" "i < length b"
    for k e using less.hyps [of k "acc @ [e]"] that by (auto simp: diff_less_mono2)
  from less.prems show ?case
    by (subst (asm) decodeTupleLoop.simps)
      (auto split: if_splits sum.splits intro: IH dest!: decodeScalar_consumes)
qed

text \<open>A packed tuple that starts with the code of another one extends it.\<close>

lemma code_prefix:
  assumes "tuple_wf t" "packable t" "tuple_wf u" "packable u"
    and "tuple_code False u = tuple_code False t @ r" "ok_rest r"
  shows "\<exists>s. map norm_elem u = map norm_elem t @ s"
proof -
  have "\<forall>e \<in> set t. decodes False e" using assms by (simp add: tuple_wf_def packable_def decodes_elem)
  from decodeTupleLoop_elems [OF this assms(6), of "[]" "[]"]
  have "decodeTuple (tuple_code False u) False =
      decodeTupleLoop (tuple_code False u) False (length (tuple_code False t)) (map norm_elem t)"
    by (simp add: decodeTuple_def assms(5))
  moreover obtain j where "decodeTuple (tuple_code False u) False = Inr (map norm_elem u, j)"
    using Unpack_code [OF assms(3,4)]
    by (cases "decodeTuple (tuple_code False u) False") (auto simp: Unpack_def)
  ultimately show ?thesis by (metis decodeTupleLoop_extends)
qed


lemma elem_code_int_elem: "elem_code nested (int_elem v) = int_code v"
  by (auto simp: int_elem_def sint_of_int64 uint_word_of_int)

lemma elem_code_norm: "elem_code nested (norm_elem e) = elem_code nested e"
  by (induction e arbitrary: nested)
    (simp_all add: elem_code_int_elem cong: map_cong)

lemma tuple_code_norm: "tuple_code nested (map norm_elem t) = tuple_code nested t"
  by (induction t) (simp_all add: elem_code_norm)

lemma bytes_range_iff: "b @ [0] \<le> k \<and> k < b @ [0xFF] \<longleftrightarrow> (\<exists>r. k = b @ r \<and> r \<noteq> [] \<and> hd r \<noteq> 0xFF)"
  for b :: bytes
proof (induction b arbitrary: k)
  case Nil
  show ?case by (cases k) (auto simp: byte_lt_FF word_gt_0)
next
  case (Cons x b)
  show ?case
  proof (cases k)
    case (Cons y k')
    then show ?thesis using Cons.IH [of k'] by auto
  qed simp
qed

section \<open>The tuple layer as an ordered codec\<close>

definition tuple_valid :: "tuple \<Rightarrow> bool" where
  "tuple_valid t \<longleftrightarrow> tuple_wf t \<and> packable t"

definition packed :: "tuple \<Rightarrow> bytes" where
  "packed t = projr (Pack t)"

definition unpacked :: "bytes \<Rightarrow> tuple option" where
  "unpacked b = (case Unpack b of Inl e \<Rightarrow> None | Inr t \<Rightarrow> Some t)"

lemma packed_code: "tuple_valid t \<Longrightarrow> packed t = tuple_code False t"
  by (simp add: tuple_valid_def packed_def Pack_packable)

interpretation tuples: ordered_codec tuple_valid packed unpacked "map norm_elem" "\<lambda>a b. compareTuples a b < 0"
proof
  fix a b :: tuple
  assume a: "tuple_valid a"
  then show "unpacked (packed a) = Some (map norm_elem a)"
    by (simp add: packed_code unpacked_def) (simp add: tuple_valid_def Unpack_code)
  assume b: "tuple_valid b"
  show "packed a < packed b \<longleftrightarrow> compareTuples a b < 0"
    using a b compareTuples_code [of a b] by (simp add: packed_code) (simp add: tuple_valid_def)
qed

section \<open>Properties\<close>

text \<open>
  (C3) Comparing without packing.  \<^verbatim>\<open>compareTuples\<close>, which walks the elements and never packs,
  returns -1, 0 or 1 exactly as \<^verbatim>\<open>bytes.Compare\<close> does on the packed tuples, for every pair of
  tuples that can be packed: nested tuples, integers of any width and Go type, floats with NaNs and
  signed zeros, strings with embedded zero bytes.
\<close>

theorem compareTuples_Pack:
  assumes "tuple_wf a" "tuple_wf b" and "Pack a = Inr x" "Pack b = Inr y"
  shows "compareTuples a b = cmp_compare x y"
  using assms compareTuples_code by (simp add: Pack_code)

theorem compareTuples_Pack_witness:
  "compareTuples [EInt64 (- 1), EBytes [0]] [EUint64 5] =
     cmp_compare [0x13, 0xFE, 1, 0, 0xFF, 0 :: byte] [0x15, 5]"
proof -
  have "Pack [EInt64 (- 1), EBytes [0]] = Inr [0x13, 0xFE, 1, 0, 0xFF, 0]" "Pack [EUint64 5] = Inr [0x15, 5]"
    by code_simp+
  from compareTuples_Pack [OF _ _ this] show ?thesis by (simp del: compareTuples.simps)
qed

text \<open>
  (C29) The range of a tuple.  The keys of tuples that lie in the half-open range \<^verbatim>\<open>FDBRangeKeys\<close>
  returns are exactly those of the tuples that start with the given tuple and have at least one more
  element, again up to the Go types of integers; the tuple itself is not in its own range.
\<close>

theorem FDBRangeKeys_extensions:
  assumes "tuple_wf t" "tuple_wf u" and "FDBRangeKeys t = Inr (lo, hi)" and "Pack u = Inr k"
  shows "lo \<le> k \<and> k < hi \<longleftrightarrow> (\<exists>s. s \<noteq> [] \<and> map norm_elem u = map norm_elem t @ s)"
proof -
  have t: "packable t" and lh: "lo = tuple_code False t @ [0]" "hi = tuple_code False t @ [0xFF]"
    using assms(3) by (auto simp: FDBRangeKeys_def Pack_code split: sum.splits)
  have u: "packable u" and k: "k = tuple_code False u" using assms(4) by (simp_all add: Pack_code)
  show ?thesis unfolding lh bytes_range_iff k
  proof
    assume "\<exists>r. tuple_code False u = tuple_code False t @ r \<and> r \<noteq> [] \<and> hd r \<noteq> 0xFF"
    then obtain r where r: "tuple_code False u = tuple_code False t @ r" "r \<noteq> []" "ok_rest r"
      by (auto simp: ok_rest_def)
    obtain s where s: "map norm_elem u = map norm_elem t @ s"
      using code_prefix [OF assms(1) t assms(2) u r(1,3)] by blast
    moreover have "s \<noteq> []" using s r(1,2) tuple_code_norm [of False u] tuple_code_norm [of False t] by auto
    ultimately show "\<exists>s. s \<noteq> [] \<and> map norm_elem u = map norm_elem t @ s" by blast
  next
    assume "\<exists>s. s \<noteq> [] \<and> map norm_elem u = map norm_elem t @ s"
    then obtain e s where s: "map norm_elem u = map norm_elem t @ e # s" by (auto simp: neq_Nil_conv)
    have "tuple_code False u = tuple_code False t @ tuple_code False (e # s)"
      using arg_cong [OF s, of "tuple_code False"] by (simp add: tuple_code_norm)
    then show "\<exists>r. tuple_code False u = tuple_code False t @ r \<and> r \<noteq> [] \<and> hd r \<noteq> 0xFF"
      using elem_code_hd [of False e] by auto
  qed
qed

theorem FDBRangeKeys_extensions_witness:
  "[0x15, 5, 0] \<le> [0x15, 5, 2, 0x61, 0 :: byte] \<and> [0x15, 5, 2, 0x61, 0] < [0x15, 5, 0xFF :: byte]"
proof -
  have "FDBRangeKeys [EInt64 5] = Inr ([0x15, 5, 0], [0x15, 5, 0xFF])"
    "Pack [EInt64 5, EString [0x61]] = Inr [0x15, 5, 2, 0x61, 0]" by code_simp+
  from FDBRangeKeys_extensions [OF _ _ this] show ?thesis by simp
qed


text \<open>What an element path of a comparison error points at.\<close>

fun any_at :: "any_element list \<Rightarrow> nat list \<Rightarrow> any_element option" where
  "any_at t [] = None"
| "any_at t [i] = (if i < length t then Some (t ! i) else None)"
| "any_at t (i # p) =
     (if i < length t then case t ! i of ATuple v \<Rightarrow> any_at v p | _ \<Rightarrow> None else None)"

fun unsupported :: "any_element \<Rightarrow> string option" where
  "unsupported ANilBigInt = Some ''nil *big.Int''"
| "unsupported (AOther ty) = Some ty"
| "unsupported _ = None"

fun any_supported :: "any_element \<Rightarrow> bool" where
  "any_supported (ATuple t) = (\<forall>x \<in> set t. any_supported x)"
| "any_supported (AElem e) = True"
| "any_supported _ = False"

lemma validate_None: "validateComparisonTuple t side path i = None \<longleftrightarrow> (\<forall>x \<in> set t. any_supported x)"
proof (induction t side path i rule: validateComparisonTuple.induct)
  case (2 item t side path i)
  then show ?case by (cases item) (auto simp: Let_def split: option.splits)
qed simp

lemma validate_Some:
  assumes "validateComparisonTuple t side path (length pre) = Some err"
  shows "\<exists>p x. p \<noteq> [] \<and> Side err = side \<and> ElementPath err = path @ p \<and> any_at (pre @ t) p = Some x \<and>
    unsupported x = Some (ElementType err)"
  using assms
proof (induction "size_list size t" arbitrary: t pre path err rule: less_induct)
  case less
  show ?case
  proof (cases t)
    case Nil
    with less.prems show ?thesis by simp
  next
    case (Cons item u)
    have rest: ?thesis if "validateComparisonTuple u side path (Suc (length pre)) = Some err"
      using less.hyps [of u path "pre @ [item]" err] Cons that by simp
    show ?thesis
    proof (cases item)
      case (ATuple v)
      show ?thesis
      proof (cases "validateComparisonTuple v side (path @ [length pre]) 0")
        case None
        with ATuple Cons less.prems rest show ?thesis by (simp add: Let_def)
      next
        case (Some e)
        with ATuple Cons less.prems have "e = err" by (simp add: Let_def)
        with less.hyps [of v "path @ [length pre]" "[]" err] ATuple Cons Some obtain p x where
          "p \<noteq> []" "Side err = side" "ElementPath err = path @ length pre # p"
          "any_at v p = Some x" "unsupported x = Some (ElementType err)" by auto
        then show ?thesis using ATuple Cons
          by (intro exI [of _ "length pre # p"] exI [of _ x]) (auto simp: neq_Nil_conv)
      qed
    qed (use Cons less.prems rest in \<open>auto simp: Let_def intro!: exI [of _ "[length pre]"]\<close>)
  qed
qed

text \<open>
  Errors of the exported comparator.  \<^verbatim>\<open>CompareTuples\<close> fails exactly when one of its arguments
  holds, at any depth, a value of an unsupported type; the error names the side, the path of such a
  value and its type.
\<close>

lemma CompareTuples_error:
  "(case CompareTuples a b of
      Inr c \<Rightarrow> (\<forall>x. x \<in> set a \<union> set b \<longrightarrow> any_supported x) \<and> c = compareTuples (any_tuple a) (any_tuple b)
    | Inl err \<Rightarrow> (\<exists>x. (Side err = ''left'' \<and> any_at a (ElementPath err) = Some x \<or>
                     Side err = ''right'' \<and> any_at b (ElementPath err) = Some x) \<and>
                   unsupported x = Some (ElementType err)))"
proof -
  have *: "\<exists>x. Side err = side \<and> any_at t (ElementPath err) = Some x \<and> unsupported x = Some (ElementType err)"
    if "validateComparisonTuple t side [] 0 = Some err" for t side err
    using validate_Some [of t side "[]" "[]" err] that by auto
  show ?thesis
  proof (cases "validateComparisonTuple a ''left'' [] 0")
    case (Some err)
    then show ?thesis using * by (auto simp: CompareTuples_def)
  next
    case None
    then show ?thesis using * validate_None [of a] validate_None [of b]
      by (cases "validateComparisonTuple b ''right'' [] 0") (auto simp: CompareTuples_def)
  qed
qed

lemma CompareTuples_error_example:
  "CompareTuples [AElem ENil, ATuple [AElem (EBool True), ANilBigInt]] [] =
     Inl \<lparr>Side = ''left'', ElementPath = [1, 1], ElementType = ''nil *big.Int''\<rparr> \<and>
   unsupported ANilBigInt = Some ''nil *big.Int''"
  using CompareTuples_error [of "[AElem ENil, ATuple [AElem (EBool True), ANilBigInt]]" "[]"]
  by (simp add: CompareTuples_def)
end
