(* ===== verification/Subspace.thy ===== *)
theory Subspace
  imports TupleCompare
begin

text \<open>
  Subspaces (\<^verbatim>\<open>pkg/fdbgo/fdb/subspace/subspace.go\<close>): tuples below a fixed byte prefix.  A method of
  the Go interface has the name of the method with \<open>subspace_\<close> in front of it.
\<close>

section \<open>Definitions\<close>

record subspace =
  rawPrefix :: bytes

definition AllKeys :: subspace where
  "AllKeys = \<lparr>rawPrefix = []\<rparr>"

definition Sub :: "tuple \<Rightarrow> (pack_panic, subspace) result" where
  "Sub el = (case Pack el of Inl e \<Rightarrow> Inl e | Inr p \<Rightarrow> Inr \<lparr>rawPrefix = p\<rparr>)"

definition FromBytes :: "bytes \<Rightarrow> subspace" where
  "FromBytes b = \<lparr>rawPrefix = b\<rparr>"

definition subspace_Bytes :: "subspace \<Rightarrow> bytes" where
  "subspace_Bytes s = rawPrefix s"

definition subspace_Sub :: "subspace \<Rightarrow> tuple \<Rightarrow> (pack_panic, subspace) result" where
  "subspace_Sub s el =
     (case Pack el of Inl e \<Rightarrow> Inl e | Inr p \<Rightarrow> Inr \<lparr>rawPrefix = subspace_Bytes s @ p\<rparr>)"

definition subspace_Pack :: "packer \<Rightarrow> subspace \<Rightarrow> tuple \<Rightarrow> (pack_panic, bytes) result" where
  "subspace_Pack pooled s t = PackWithPrefix pooled t (rawPrefix s)"

definition subspace_PackWithVersionstamp ::
  "int option \<Rightarrow> subspace \<Rightarrow> tuple \<Rightarrow> (pack_failure, bytes) result" where
  "subspace_PackWithVersionstamp apiVersion s t = PackWithVersionstamp apiVersion t (rawPrefix s)"

datatype unpack_error = NotInSubspace | MalformedTuple decode_error

definition subspace_Unpack :: "subspace \<Rightarrow> bytes \<Rightarrow> (unpack_error, tuple) result" where
  "subspace_Unpack s key =
     (if \<not> hasPrefix key (rawPrefix s) then Inl NotInSubspace
      else case Unpack (drop (length (rawPrefix s)) key) of
             Inl e \<Rightarrow> Inl (MalformedTuple e)
           | Inr t \<Rightarrow> Inr t)"

definition subspace_Contains :: "subspace \<Rightarrow> bytes \<Rightarrow> bool" where
  "subspace_Contains s k \<longleftrightarrow> hasPrefix k (rawPrefix s)"

definition subspace_FDBRangeKeys :: "subspace \<Rightarrow> bytes \<times> bytes" where
  "subspace_FDBRangeKeys s = (rawPrefix s @ [0x00], rawPrefix s @ [0xFF])"

definition subspace_FDBRangeKeySelectors :: "subspace \<Rightarrow> KeySelector \<times> KeySelector" where
  "subspace_FDBRangeKeySelectors s =
     (let (begin, end) = subspace_FDBRangeKeys s in (FirstGreaterOrEqual begin, FirstGreaterOrEqual end))"

section \<open>Tuples below a prefix\<close>

lemma subspace_Pack_code: "tuple_valid t \<Longrightarrow> subspace_Pack pooled s t = Inr (rawPrefix s @ packed t)"
  by (simp add: subspace_Pack_def packed_code) (simp add: tuple_valid_def PackWithPrefix_code)

lemma subspace_Pack_Inr:
  "subspace_Pack pooled s t = Inr k \<Longrightarrow> packable t \<and> k = rawPrefix s @ tuple_code False t"
proof (cases "packable t")
  case False
  assume "subspace_Pack pooled s t = Inr k"
  then obtain p where "encodeTuple (resetPacker pooled) t False False = Inr p"
    by (auto simp: subspace_Pack_def PackWithPrefix_def split: sum.splits simp del: encodeTuple.simps)
  with False show ?thesis using encode_unpackable(1) [of t "resetPacker pooled" False] by simp
qed (simp add: subspace_Pack_def PackWithPrefix_code)

definition subspace_unpacked :: "subspace \<Rightarrow> bytes \<Rightarrow> tuple option" where
  "subspace_unpacked s k = (case subspace_Unpack s k of Inl e \<Rightarrow> None | Inr t \<Rightarrow> Some t)"

lemma subspace_unpacked_iff:
  "subspace_unpacked s k =
     (if take (length (rawPrefix s)) k = rawPrefix s then unpacked (drop (length (rawPrefix s)) k) else None)"
  by (auto simp: subspace_unpacked_def subspace_Unpack_def unpacked_def hasPrefix_def split: sum.splits)

text \<open>Every subspace is an ordered codec, whatever packer the pool hands out.\<close>

interpretation subspaces: ordered_codec tuple_valid "\<lambda>t. projr (subspace_Pack pooled s t)"
  "subspace_unpacked s" "map norm_elem" "\<lambda>a b. compareTuples a b < 0" for pooled s
proof -
  have p: "ordered_codec tuple_valid (\<lambda>a. rawPrefix s @ packed a) (subspace_unpacked s) (map norm_elem)
      (\<lambda>a b. compareTuples a b < 0)"
    using tuples.prefixed [of "rawPrefix s"] by (simp add: subspace_unpacked_iff [abs_def])
  show "ordered_codec tuple_valid (\<lambda>t. projr (subspace_Pack pooled s t)) (subspace_unpacked s)
      (map norm_elem) (\<lambda>a b. compareTuples a b < 0)"
    by unfold_locales (use p in \<open>simp_all add: ordered_codec_def subspace_Pack_code\<close>)
qed

section \<open>Properties\<close>

text \<open>
  (C30) Subspaces keep tuples apart and bring them back: the key a subspace packs is contained in it,
  unpacks to the tuple, and sorts below another key of the subspace exactly when the tuples compare
  so.  A key that does not start with the prefix is refused.
\<close>

theorem subspace_roundtrip:
  assumes "tuple_wf t" "tuple_wf u"
    and "subspace_Pack pooled s t = Inr k" and "subspace_Pack pooled' s u = Inr l"
  shows "subspace_Contains s k \<and> subspace_Unpack s k = Inr (map norm_elem t) \<and>
    (k < l \<longleftrightarrow> compareTuples t u < 0) \<and>
    (\<forall>x. \<not> hasPrefix x (rawPrefix s) \<longrightarrow> subspace_Unpack s x = Inl NotInSubspace)"
proof -
  have t: "tuple_valid t" and u: "tuple_valid u"
    using assms subspace_Pack_Inr by (auto simp: tuple_valid_def)
  have "subspace_unpacked s k = Some (map norm_elem t)"
    using subspaces.dec_enc [OF t, of s pooled] assms(3) by simp
  then have "subspace_Unpack s k = Inr (map norm_elem t)"
    by (simp add: subspace_unpacked_def split: sum.splits)
  moreover have "k < l \<longleftrightarrow> compareTuples t u < 0"
    using assms(3,4) subspaces.enc_less [OF t u, of pooled s] by (auto simp: subspace_Pack_code t u)
  moreover have "subspace_Contains s k"
    using subspace_Pack_Inr [OF assms(3)] by (simp add: subspace_Contains_def)
  moreover have "\<not> hasPrefix x (rawPrefix s) \<Longrightarrow> subspace_Unpack s x = Inl NotInSubspace" for x
    by (simp add: subspace_Unpack_def)
  ultimately show ?thesis by blast
qed

theorem subspace_roundtrip_witness:
  "subspace_Unpack \<lparr>rawPrefix = [0x15, 1]\<rparr> [0x15, 1, 0x15, 9] = Inr [EInt64 9]"
proof -
  have "subspace_Pack newPacker \<lparr>rawPrefix = [0x15, 1]\<rparr> [EInt 9] = Inr [0x15, 1, 0x15, 9]" by code_simp
  from subspace_roundtrip [OF _ _ this this] show ?thesis by (simp add: int_elem_def)
qed

text \<open>
  Nested subspaces: \<^verbatim>\<open>s.Sub(el).Pack(t)\<close> is \<^verbatim>\<open>s.Pack(el + t)\<close>, every key of the nested
  subspace is contained in the outer one, and its range holds exactly the keys that extend its prefix
  by at least one byte, the first of them not 0xFF.
\<close>

lemma subspace_Sub_nested:
  assumes "subspace_Sub s el = Inr s'" and "tuple_valid t"
  shows "subspace_Pack pooled s' t = subspace_Pack pooled' s (el @ t) \<and>
    (\<forall>k. subspace_Contains s' k \<longrightarrow> subspace_Contains s k) \<and>
    (\<forall>k. (fst (subspace_FDBRangeKeys s') \<le> k \<and> k < snd (subspace_FDBRangeKeys s')) =
         (\<exists>r. k = rawPrefix s' @ r \<and> r \<noteq> [] \<and> hd r \<noteq> 0xFF))"
proof -
  from assms(1) have el: "packable el" and s': "rawPrefix s' = rawPrefix s @ tuple_code False el"
    by (auto simp: subspace_Sub_def subspace_Bytes_def Pack_code split: sum.splits)
  have t: "packable t" using assms(2) by (simp add: tuple_valid_def)
  have "subspace_Pack pooled s' t = subspace_Pack pooled' s (el @ t)"
    using el t s' by (simp add: subspace_Pack_def PackWithPrefix_code)
  moreover have "subspace_Contains s' k \<Longrightarrow> subspace_Contains s k" for k
    by (auto simp: subspace_Contains_def hasPrefix_iff s')
  ultimately show ?thesis
    using bytes_range_iff [of "rawPrefix s'"] by (auto simp: subspace_FDBRangeKeys_def)
qed

lemma subspace_Sub_nested_example:
  "subspace_Pack newPacker \<lparr>rawPrefix = [7, 0x15, 1]\<rparr> [ENil] =
     subspace_Pack newPacker \<lparr>rawPrefix = [7]\<rparr> [EInt 1, ENil]"
proof -
  have "subspace_Sub \<lparr>rawPrefix = [7]\<rparr> [EInt 1] = Inr \<lparr>rawPrefix = [7, 0x15, 1]\<rparr>" by code_simp
  from subspace_Sub_nested [OF this, of "[ENil]" newPacker newPacker] show ?thesis
    by (simp add: tuple_valid_def)
qed

end
