(* ===== verification/TupleFast.thy ===== *)
theory TupleFast
  imports Subspace
begin

text \<open>
  The second tuple decoder of the repository
  (\<^verbatim>\<open>pkg/recordlayer/internal/tuplefast/tuplefast.go\<close>), which the record layer uses on its scan paths:
  the decoders, the loop \<^verbatim>\<open>fastDecodeTuple\<close>, the element skipper \<^verbatim>\<open>Skip\<close> with the two routines built
  on it, and the walk \<^verbatim>\<open>Validate\<close> that checks the framing without decoding.  The lemmas show that it
  decodes what the tuple layer decodes, that \<^verbatim>\<open>Validate\<close> reports the decoder's errors, and that
  \<^verbatim>\<open>Skip\<close> finds the ends of the elements the packer wrote.  Functions that share their name with one
  of the tuple layer carry the prefix \<open>fast\<close>.
\<close>

section \<open>Definitions\<close>

subsection \<open>Errors and element decoders\<close>

text \<open>One constructor per message, with the numbers the message prints.\<close>

datatype fast_error =
    TruncatedBytes nat
  | UnterminatedBytes
  | TruncatedInteger nat nat
  | TruncatedBigHeader
  | TruncatedBigInteger nat nat
  | ShortFloat nat
  | ShortDouble nat
  | ShortUUID nat
  | ShortVersionstamp nat
  | UnknownTupleTypecode byte nat

definition fastSizeLimits :: "64 word list" where
  "fastSizeLimits =
     [0, 2 ^ 8 - 1, 2 ^ 16 - 1, 2 ^ 24 - 1, 2 ^ 32 - 1, 2 ^ 40 - 1, 2 ^ 48 - 1, 2 ^ 56 - 1, - 1]"

function fastTerminatorLoop :: "bytes \<Rightarrow> nat \<Rightarrow> nat option" where
  "fastTerminatorLoop bp len =
     (case indexByte bp 0x00 of
        None \<Rightarrow> None
      | Some idx \<Rightarrow>
          if idx + 1 = length bp \<or> bp ! (idx + 1) \<noteq> 0xFF then Some (len + idx)
          else fastTerminatorLoop (drop (idx + 2) bp) (len + idx + 2))"
  by pat_completeness auto
termination
  by (relation "measure (\<lambda>(bp, len). length bp)") (auto dest: indexByte_Some)

declare fastTerminatorLoop.simps [simp del]

definition fastFindTerminator :: "bytes \<Rightarrow> nat option" where
  "fastFindTerminator b = fastTerminatorLoop b 0"

definition fastDecodeInt :: "bytes \<Rightarrow> (fast_error, tuple_element \<times> nat) result" where
  "fastDecodeInt b =
     (if b ! 0 = 0x14 then Inr (EInt64 0, 1)
      else let d = int (unat (b ! 0)) - 0x14;
               neg = d < 0;
               n = nat \<bar>d\<bar>
           in if 1 + n > length b then Inl (TruncatedInteger (1 + n) (length b))
              else let buf = replicate (8 - n) 0 @ take n (drop 1 b);
                       ret = of_nat (be_val buf) :: 64 word
                   in if neg then Inr (EInt64 (ret - fastSizeLimits ! n), 1 + n)
                      else if sint ret > 0 then Inr (EInt64 ret, 1 + n)
                      else Inr (EUint64 ret, 1 + n))"

definition fastDecodeBigInt :: "bytes \<Rightarrow> (fast_error, tuple_element \<times> nat) result" where
  "fastDecodeBigInt b =
     (if length b < 2 then Inl TruncatedBigHeader
      else let big = b ! 0 = 0x0b \<or> b ! 0 = 0x1d;
               len = (if big then (if b ! 0 = 0x0b then unat (b ! 1 XOR 0xff) else unat (b ! 1)) else 8);
               offset = (if big then 2 else 1)
           in if offset + len > length b then Inl (TruncatedBigInteger (offset + len) (length b))
              else let v = int (be_val (take len (drop offset b)));
                       v = (if b ! 0 < 0x14 then v - (2 ^ (len * 8) - 1) else v)
                   in if v = - (2 ^ 63) then Inr (EInt64 (word_of_int v), len + offset)
                      else Inr (EBigInt v, len + offset))"

definition fastAdjustFloatBytes :: "bytes \<Rightarrow> bool \<Rightarrow> bytes" where
  "fastAdjustFloatBytes b encode =
     (if encode \<and> b ! 0 AND 0x80 \<noteq> 0x00 \<or> \<not> encode \<and> b ! 0 AND 0x80 = 0x00
      then map (\<lambda>x. x XOR 0xff) b
      else b[0 := b ! 0 XOR 0x80])"

definition fastDecodeFloat :: "bytes \<Rightarrow> tuple_element \<times> nat" where
  "fastDecodeFloat b = (EFloat32 (of_nat (be_val (fastAdjustFloatBytes (take 4 (drop 1 b)) False))), 5)"

definition fastDecodeDouble :: "bytes \<Rightarrow> tuple_element \<times> nat" where
  "fastDecodeDouble b = (EFloat64 (of_nat (be_val (fastAdjustFloatBytes (take 8 (drop 1 b)) False))), 9)"

definition DecodeBytes :: "bytes \<Rightarrow> (fast_error, bytes \<times> nat) result" where
  "DecodeBytes b =
     (if length b < 2 then Inl (TruncatedBytes (length b))
      else case fastFindTerminator (drop 1 b) of
             None \<Rightarrow> Inl UnterminatedBytes
           | Some idx \<Rightarrow> Inr (replaceEscapes (take idx (drop 1 b)), idx + 2))"

definition fastDecodeString :: "bytes \<Rightarrow> (fast_error, bytes \<times> nat) result" where
  "fastDecodeString b = (case DecodeBytes b of Inl e \<Rightarrow> Inl e | Inr (bp, idx) \<Rightarrow> Inr (bp, idx))"

definition fastDecodeUUID :: "bytes \<Rightarrow> tuple_element \<times> nat" where
  "fastDecodeUUID b = (EUUID (take 16 (drop 1 b)), 17)"

definition fastDecodeVersionstamp :: "bytes \<Rightarrow> tuple_element \<times> nat" where
  "fastDecodeVersionstamp b =
     (EVersionstamp \<lparr>TransactionVersion = take 10 (drop 1 b),
                     UserVersion = of_nat (be_val (take 2 (drop 11 b)))\<rparr>, 13)"

subsection \<open>The decoding loop\<close>

text \<open>
  The cases of the switch in \<^verbatim>\<open>fastDecodeTuple\<close> other than nil and nested tuples, at position \<open>i\<close>.
  The offset that the Go function returns beside an error is read by no caller.
\<close>

definition fastDecodeScalar :: "bytes \<Rightarrow> nat \<Rightarrow> (fast_error, tuple_element \<times> nat) result" where
  "fastDecodeScalar b i =
     (let c = b ! i; s = drop i b
      in if c = 0x01 then
           (case DecodeBytes s of Inl e \<Rightarrow> Inl e | Inr (el, off) \<Rightarrow> Inr (EBytes el, off))
         else if c = 0x02 then
           (case fastDecodeString s of Inl e \<Rightarrow> Inl e | Inr (el, off) \<Rightarrow> Inr (EString el, off))
         else if 0x0b + 1 < c \<and> c < 0x1d then fastDecodeInt s
         else if 0x0b + 1 = c \<and> i + 1 < length b \<and> b ! (i + 1) AND 0x80 \<noteq> 0 then fastDecodeInt s
         else if 0x0b \<le> c \<and> c \<le> 0x1d then fastDecodeBigInt s
         else if c = 0x20 then (if i + 5 > length b then Inl (ShortFloat i) else Inr (fastDecodeFloat s))
         else if c = 0x21 then (if i + 9 > length b then Inl (ShortDouble i) else Inr (fastDecodeDouble s))
         else if c = 0x27 then Inr (EBool True, 1)
         else if c = 0x26 then Inr (EBool False, 1)
         else if c = 0x30 then (if i + 17 > length b then Inl (ShortUUID i) else Inr (fastDecodeUUID s))
         else if c = 0x33 then
           (if i + 12 + 1 > length b then Inl (ShortVersionstamp i) else Inr (fastDecodeVersionstamp s))
         else Inl (UnknownTupleTypecode c i))"

lemmas fast_decoder_defs =
  DecodeBytes_def fastDecodeString_def fastDecodeInt_def fastDecodeBigInt_def fastDecodeFloat_def
  fastDecodeDouble_def fastDecodeUUID_def fastDecodeVersionstamp_def

lemma fast_decoder_consumes:
  "DecodeBytes b = Inr (v, off) \<Longrightarrow> off > 0" "fastDecodeString b = Inr (v, off) \<Longrightarrow> off > 0"
  "fastDecodeInt b = Inr (e, off) \<Longrightarrow> off > 0" "fastDecodeBigInt b = Inr (e, off) \<Longrightarrow> off > 0"
  "fastDecodeFloat b = (e, off) \<Longrightarrow> off > 0" "fastDecodeDouble b = (e, off) \<Longrightarrow> off > 0"
  "fastDecodeUUID b = (e, off) \<Longrightarrow> off > 0" "fastDecodeVersionstamp b = (e, off) \<Longrightarrow> off > 0"
  by (auto simp: fast_decoder_defs Let_def split: if_splits option.splits sum.splits)

lemma fastDecodeScalar_consumes: "fastDecodeScalar b i = Inr (e, off) \<Longrightarrow> off > 0"
  unfolding fastDecodeScalar_def Let_def
  by (auto split: if_splits sum.splits prod.splits dest: fast_decoder_consumes)

function fastDecodeTupleLoop ::
  "bytes \<Rightarrow> bool \<Rightarrow> nat \<Rightarrow> tuple \<Rightarrow> (fast_error, tuple \<times> nat) result" where
  "fastDecodeTupleLoop b nested i t =
     (if i < length b then
        if b ! i = 0x00 then
          (if \<not> nested then fastDecodeTupleLoop b nested (i + 1) (t @ [ENil])
           else if i + 1 < length b \<and> b ! (i + 1) = 0xff then fastDecodeTupleLoop b nested (i + 2) (t @ [ENil])
           else Inr (t, i + 1))
        else if b ! i = 0x05 then
          (case fastDecodeTupleLoop (drop (i + 1) b) True 0 [] of
             Inl e \<Rightarrow> Inl e
           | Inr (el, off) \<Rightarrow> fastDecodeTupleLoop b nested (i + (off + 1)) (t @ [ETuple el]))
        else
          (case fastDecodeScalar b i of
             Inl e \<Rightarrow> Inl e
           | Inr (el, off) \<Rightarrow> fastDecodeTupleLoop b nested (i + off) (t @ [el]))
      else Inr (t, i))"
  by pat_completeness auto
termination
  by (relation "measure (\<lambda>(b, nested, i, t). length b - i)") (auto dest: fastDecodeScalar_consumes)

declare fastDecodeTupleLoop.simps [simp del]

definition fastDecodeTuple :: "bytes \<Rightarrow> bool \<Rightarrow> (fast_error, tuple \<times> nat) result" where
  "fastDecodeTuple b nested = fastDecodeTupleLoop b nested 0 []"

definition fastUnpack :: "bytes \<Rightarrow> (fast_error, tuple) result" where
  "fastUnpack b = map_sum id fst (fastDecodeTuple b False)"

datatype subspace_unpack_error = KeyShorterThanPrefix nat nat | UnpackFailed fast_error

definition SubspaceUnpack :: "bytes \<Rightarrow> nat \<Rightarrow> (subspace_unpack_error, tuple) result" where
  "SubspaceUnpack key prefixLen =
     (if length key < prefixLen then Inl (KeyShorterThanPrefix (length key) prefixLen)
      else case fastUnpack (drop prefixLen key) of Inl e \<Rightarrow> Inl (UnpackFailed e) | Inr t \<Rightarrow> Inr t)"

subsection \<open>Validate\<close>

text \<open>The cases of \<^verbatim>\<open>validateTuple\<close> other than nil and nested tuples: the length of the element at \<open>i\<close>.\<close>

definition validateScalar :: "bytes \<Rightarrow> nat \<Rightarrow> (fast_error, nat) result" where
  "validateScalar b i =
     (let c = b ! i
      in if c = 0x01 \<or> c = 0x02 then
           (if length b - i < 2 then Inl (TruncatedBytes (length b - i))
            else case fastFindTerminator (drop (i + 1) b) of
                   None \<Rightarrow> Inl UnterminatedBytes
                 | Some idx \<Rightarrow> Inr (idx + 2))
         else if 0x0b + 1 < c \<and> c < 0x1d \<or> 0x0b + 1 = c \<and> i + 1 < length b \<and> b ! (i + 1) AND 0x80 \<noteq> 0 then
           (let n = nat \<bar>int (unat c) - 0x14\<bar>
            in if 1 + n > length b - i then Inl (TruncatedInteger (1 + n) (length b - i)) else Inr (1 + n))
         else if 0x0b \<le> c \<and> c \<le> 0x1d then
           (if length b - i < 2 then Inl TruncatedBigHeader
            else let big = c = 0x0b \<or> c = 0x1d;
                     offset = (if big then 2 else 1);
                     len = (if big then (if c = 0x0b then unat (b ! (i + 1) XOR 0xff) else unat (b ! (i + 1)))
                            else 8)
                 in if offset + len > length b - i then Inl (TruncatedBigInteger (offset + len) (length b - i))
                    else Inr (offset + len))
         else if c = 0x20 then (if i + 5 > length b then Inl (ShortFloat i) else Inr 5)
         else if c = 0x21 then (if i + 9 > length b then Inl (ShortDouble i) else Inr 9)
         else if c = 0x27 \<or> c = 0x26 then Inr 1
         else if c = 0x30 then (if i + 17 > length b then Inl (ShortUUID i) else Inr 17)
         else if c = 0x33 then (if i + 12 + 1 > length b then Inl (ShortVersionstamp i) else Inr (12 + 1))
         else Inl (UnknownTupleTypecode c i))"

lemma validateScalar_consumes: "validateScalar b i = Inr off \<Longrightarrow> off > 0"
  by (auto simp: validateScalar_def Let_def split: if_splits option.splits)

function validateTupleLoop :: "bytes \<Rightarrow> bool \<Rightarrow> nat \<Rightarrow> (fast_error, nat) result" where
  "validateTupleLoop b nested i =
     (if i < length b then
        if b ! i = 0x00 then
          (if \<not> nested then validateTupleLoop b nested (i + 1)
           else if i + 1 < length b \<and> b ! (i + 1) = 0xff then validateTupleLoop b nested (i + 2)
           else Inr (i + 1))
        else if b ! i = 0x05 then
          (case validateTupleLoop (drop (i + 1) b) True 0 of
             Inl e \<Rightarrow> Inl e
           | Inr n \<Rightarrow> validateTupleLoop b nested (i + (n + 1)))
        else
          (case validateScalar b i of
             Inl e \<Rightarrow> Inl e
           | Inr off \<Rightarrow> validateTupleLoop b nested (i + off))
      else Inr i)"
  by pat_completeness auto
termination
  by (relation "measure (\<lambda>(b, nested, i). length b - i)") (auto dest: validateScalar_consumes)

declare validateTupleLoop.simps [simp del]

definition validateTuple :: "bytes \<Rightarrow> bool \<Rightarrow> (fast_error, nat) result" where
  "validateTuple b nested = validateTupleLoop b nested 0"

definition Validate :: "bytes \<Rightarrow> fast_error option" where
  "Validate b = (case validateTuple b False of Inl e \<Rightarrow> Some e | Inr i \<Rightarrow> None)"

subsection \<open>Skip\<close>

text \<open>The cases of \<^verbatim>\<open>Skip\<close> other than nested tuples, on a non-empty slice.\<close>

definition skipScalar :: "bytes \<Rightarrow> int" where
  "skipScalar b =
     (let c = b ! 0
      in if c = 0x00 then 1
         else if c = 0x01 \<or> c = 0x02 then
           (if length b < 2 then - 1
            else case fastFindTerminator (drop 1 b) of None \<Rightarrow> - 1 | Some idx \<Rightarrow> 1 + int idx + 1)
         else if c > 0x0b \<and> c < 0x1d then
           (let n = \<bar>int (unat c) - 0x14\<bar> in if 1 + n > int (length b) then - 1 else 1 + n)
         else if c = 0x0b \<or> c = 0x1d then
           (if length b < 2 then - 1
            else let len = (if c = 0x0b then int (unat (b ! 1 XOR 0xff)) else int (unat (b ! 1)))
                 in if 2 + len > int (length b) then - 1 else 2 + len)
         else if c = 0x20 then (if length b < 5 then - 1 else 5)
         else if c = 0x21 then (if length b < 9 then - 1 else 9)
         else if c = 0x26 \<or> c = 0x27 then 1
         else if c = 0x30 then (if length b < 17 then - 1 else 17)
         else if c = 0x33 then (if length b < 1 + 12 then - 1 else 1 + 12)
         else - 1)"

function Skip :: "bytes \<Rightarrow> int"
  and skipNested :: "bytes \<Rightarrow> nat \<Rightarrow> int" where
  "Skip b =
     (if length b = 0 then - 1
      else if b ! 0 = 0x05 then skipNested b 1
      else skipScalar b)"
| "skipNested b i =
     (if i < length b then
        if b ! i = 0x00 then
          (if i + 1 < length b \<and> b ! (i + 1) = 0xff then skipNested b (i + 2) else int i + 1)
        else let sz = Skip (drop i b)
             in if sz \<le> 0 then - 1 else skipNested b (i + nat sz)
      else int (length b))"
  by pat_completeness auto
termination
  by (relation "measure (\<lambda>x. case x of Inl b \<Rightarrow> 2 * length b | Inr (b, i) \<Rightarrow> 2 * (length b - i) + 1)")
    (auto simp: neq_Nil_conv)

declare Skip.simps [simp del] skipNested.simps [simp del]

lemma if_not_zero: "(c \<Longrightarrow> x \<noteq> 0) \<Longrightarrow> (\<not> c \<Longrightarrow> y \<noteq> 0) \<Longrightarrow> (if c then x else y) \<noteq> (0 :: int)"
  by simp

lemma skipScalar_nonzero: "skipScalar b \<noteq> 0"
  unfolding skipScalar_def Let_def
  by (intro if_not_zero) (simp_all add: add_nonneg_eq_0_iff split: option.split)

lemma Skip_nonzero:
  "Skip b \<noteq> 0"
  "b \<noteq> [] \<Longrightarrow> skipNested b i \<noteq> 0"
proof (induction b and b i rule: Skip_skipNested.induct)
  case (1 b)
  with skipScalar_nonzero show ?case by (subst Skip.simps) auto
next
  case (2 b i)
  then show ?case by (subst skipNested.simps) (auto simp: Let_def)
qed

text \<open>
  The loop of \<^verbatim>\<open>NestedPKSpans\<close> from position \<open>i\<close>; the error carries the offset its message prints.
\<close>

function nestedPKSpansLoop :: "bytes \<Rightarrow> nat \<Rightarrow> bytes list \<Rightarrow> (nat, bytes list) result" where
  "nestedPKSpansLoop content i spans =
     (if i < length content then
        let n = Skip (drop i content)
        in if n < 0 then Inl i
           else nestedPKSpansLoop content (i + nat n) (spans @ [take (nat n) (drop i content)])
      else Inr spans)"
  by pat_completeness auto
termination
  by (relation "measure (\<lambda>(content, i, spans). length content - i)")
    (auto simp: not_less dest: order.antisym simp: Skip_nonzero)

declare nestedPKSpansLoop.simps [simp del]

definition NestedPKSpans :: "bytes \<Rightarrow> (nat, bytes list) result" where
  "NestedPKSpans content = (if length content = 0 then Inr [] else nestedPKSpansLoop content 0 [])"

datatype split_suffix_error =
    EmptyKeySuffix
  | InvalidTupleElement nat
  | SuffixDecode fast_error
  | SuffixNotInteger byte

text \<open>The scan loop of \<^verbatim>\<open>SplitKeySuffix\<close>, which ends with the start of the last element.\<close>

function splitKeySuffixLoop :: "bytes \<Rightarrow> nat \<Rightarrow> nat \<Rightarrow> (split_suffix_error, nat) result" where
  "splitKeySuffixLoop tupleBytes pos lastStart =
     (if pos < length tupleBytes then
        let size = Skip (drop pos tupleBytes)
        in if size \<le> 0 then Inl (InvalidTupleElement pos)
           else splitKeySuffixLoop tupleBytes (pos + nat size) pos
      else Inr lastStart)"
  by pat_completeness auto
termination
  by (relation "measure (\<lambda>(tupleBytes, pos, lastStart). length tupleBytes - pos)") auto

declare splitKeySuffixLoop.simps [simp del]

definition SplitKeySuffix :: "bytes \<Rightarrow> (split_suffix_error, 64 word \<times> nat) result" where
  "SplitKeySuffix tupleBytes =
     (if length tupleBytes = 0 then Inl EmptyKeySuffix
      else case splitKeySuffixLoop tupleBytes 0 0 of
             Inl e \<Rightarrow> Inl e
           | Inr lastStart \<Rightarrow>
               let tc = tupleBytes ! lastStart
               in if tc = 0x14 \<or> tc > 0x0b \<and> tc < 0x1d then
                    (case fastDecodeInt (drop lastStart tupleBytes) of
                       Inl e \<Rightarrow> Inl (SuffixDecode e)
                     | Inr (EInt64 v, n) \<Rightarrow> Inr (v, lastStart)
                     | Inr (EUint64 v, n) \<Rightarrow> Inr (v, lastStart)
                     | Inr (v, n) \<Rightarrow> Inl (SuffixNotInteger tc))
                  else Inl (SuffixNotInteger tc))"

section \<open>Agreement with the tuple layer\<close>

lemma fastSizeLimits_eq: "fastSizeLimits = sizeLimits"
  by (simp add: fastSizeLimits_def sizeLimits_def)

lemma fastTerminatorLoop_eq: "fastTerminatorLoop bp len = findTerminatorLoop bp len"
proof (induction bp len rule: findTerminatorLoop.induct)
  case (1 bp len)
  then show ?case
    by (cases "indexByte bp 0")
      (simp_all add: fastTerminatorLoop.simps [of bp] findTerminatorLoop.simps [of bp] del: indexByte_None)
qed

lemma fastFindTerminator_eq: "fastFindTerminator b = findTerminator b"
  by (simp add: fastFindTerminator_def findTerminator_def fastTerminatorLoop_eq)

lemma fastAdjustFloatBytes_eq: "fastAdjustFloatBytes b e = adjustFloatBytes b e"
  by (simp add: fastAdjustFloatBytes_def adjustFloatBytes_def)

text \<open>What a decoder returns, without the text of its error.\<close>

definition value_of :: "('e, 'a) result \<Rightarrow> 'a option" where
  "value_of r = (case r of Inl e \<Rightarrow> None | Inr a \<Rightarrow> Some a)"

lemma value_of_simps [simp]: "value_of (Inl e) = None" "value_of (Inr a) = Some a"
  by (simp_all add: value_of_def)

lemma value_of_Some [simp]: "value_of r = Some a \<longleftrightarrow> r = Inr a"
  by (cases r) simp_all

lemma DecodeBytes_eq: "value_of (DecodeBytes b) = decodeBytes b"
proof (cases "length b < 2")
  case True
  then have "drop 1 b = []" by simp
  with True show ?thesis
    by (simp add: DecodeBytes_def decodeBytes_def findTerminator_def findTerminatorLoop.simps)
next
  case False
  then show ?thesis
    by (simp add: DecodeBytes_def decodeBytes_def fastFindTerminator_eq split: option.split)
qed

lemma fastDecodeString_eq: "fastDecodeString b = DecodeBytes b"
  by (simp add: fastDecodeString_def split: sum.split)

lemma fastDecodeInt_eq: "value_of (fastDecodeInt b) = decodeInt b"
  by (simp add: fastDecodeInt_def decodeInt_def fastSizeLimits_eq Let_def)

lemma fastDecodeBigInt_eq:
  "b \<noteq> [] \<Longrightarrow> value_of (fastDecodeBigInt b) = decodeBigInt b"
  by (auto simp: fastDecodeBigInt_def decodeBigInt_def minInt64_def Let_def neq_Nil_conv)

lemma fast_fixed_eq:
  "fastDecodeFloat b = decodeFloat b" "fastDecodeDouble b = decodeDouble b"
  "fastDecodeUUID b = decodeUUID b" "fastDecodeVersionstamp b = decodeVersionstamp b"
  by (simp_all add: fastDecodeFloat_def decodeFloat_def fastDecodeDouble_def decodeDouble_def
    fastDecodeUUID_def decodeUUID_def fastDecodeVersionstamp_def decodeVersionstamp_def
    fastAdjustFloatBytes_eq)


lemma value_of_case:
  "value_of (case r of Inl e \<Rightarrow> Inl (f e) | Inr a \<Rightarrow> g a) =
     (case value_of r of None \<Rightarrow> None | Some a \<Rightarrow> value_of (g a))"
  by (cases r) simp_all

lemma value_of_case_option:
  "value_of (case r of None \<Rightarrow> Inl e | Some a \<Rightarrow> g a) =
     (case r of None \<Rightarrow> None | Some a \<Rightarrow> value_of (g a))"
  by (cases r) simp_all

lemma fastDecodeScalar_eq:
  assumes "i < length b"
  shows "value_of (fastDecodeScalar b i) = value_of (decodeScalar b i)"
proof -
  have "drop i b \<noteq> []" using assms by simp
  note eqs = fastDecodeBigInt_eq [OF this] DecodeBytes_eq [of "drop i b"] fastDecodeInt_eq [of "drop i b"]
  have bytes: "value_of (case DecodeBytes (drop i b) of Inl e \<Rightarrow> Inl e | Inr (el, off) \<Rightarrow> Inr (f el, off)) =
      value_of (case decodeBytes (drop i b) of None \<Rightarrow> Inl e | Some (el, off) \<Rightarrow> Inr (f el, off))"
    for f :: "bytes \<Rightarrow> tuple_element" and e :: decode_error
    unfolding eqs(2) [symmetric] by (cases "DecodeBytes (drop i b)") auto
  have opt: "value_of (case r of None \<Rightarrow> Inl e | Some a \<Rightarrow> Inr a) = r" for r :: "'x option" and e :: decode_error
    by (cases r) simp_all
  show ?thesis
    unfolding fastDecodeScalar_def decodeScalar_def Let_def fastDecodeString_eq fast_fixed_eq
    by (simp add: bytes opt eqs if_distrib [of value_of] cong: if_cong)
qed

lemma fastDecodeTupleLoop_eq:
  "value_of (fastDecodeTupleLoop b nested i t) = value_of (decodeTupleLoop b nested i t)"
proof (induction b nested i t rule: decodeTupleLoop.induct)
  case (1 b nested i t)
  show ?case
  proof (cases "i < length b \<and> b ! i \<noteq> 0")
    case False
    with 1 show ?thesis
      by (subst fastDecodeTupleLoop.simps, subst decodeTupleLoop.simps) (auto simp: if_distrib)
  next
    case pos: True
    show ?thesis
    proof (cases "b ! i = 5")
      case True
      with pos have IH: "value_of (fastDecodeTupleLoop (drop (i + 1) b) True 0 []) =
          value_of (decodeTupleLoop (drop (i + 1) b) True 0 [])"
        "decodeTupleLoop (drop (i + 1) b) True 0 [] = Inr (el, off) \<Longrightarrow>
          value_of (fastDecodeTupleLoop b nested (i + (off + 1)) (t @ [ETuple el])) =
          value_of (decodeTupleLoop b nested (i + (off + 1)) (t @ [ETuple el]))" for el off
        using 1(3,4) by simp_all
      from pos True IH show ?thesis
        by (subst fastDecodeTupleLoop.simps, subst decodeTupleLoop.simps)
          (cases "decodeTupleLoop (drop (i + 1) b) True 0 []", auto simp: value_of_case split: sum.split)
    next
      case False
      with pos fastDecodeScalar_eq [of i b] 1(5) show ?thesis
        by (subst fastDecodeTupleLoop.simps, subst decodeTupleLoop.simps)
          (cases "decodeScalar b i"; cases "fastDecodeScalar b i", auto)
    qed
  qed
qed

section \<open>Validate and the decoder\<close>

definition size_of :: "('e, 'a \<times> nat) result \<Rightarrow> ('e, nat) result" where
  "size_of r = (case r of Inl e \<Rightarrow> Inl e | Inr (a, n) \<Rightarrow> Inr n)"

lemma size_of_simps [simp]: "size_of (Inl e) = Inl e" "size_of (Inr p) = Inr (snd p)"
  by (simp_all add: size_of_def split: prod.split)

lemma fast_decoder_sizes:
  "size_of (DecodeBytes b) =
     (if length b < 2 then Inl (TruncatedBytes (length b))
      else case fastFindTerminator (drop 1 b) of None \<Rightarrow> Inl UnterminatedBytes | Some idx \<Rightarrow> Inr (idx + 2))"
  "b ! 0 \<noteq> 0x14 \<Longrightarrow> size_of (fastDecodeInt b) =
     (let n = nat \<bar>int (unat (b ! 0)) - 0x14\<bar>
      in if 1 + n > length b then Inl (TruncatedInteger (1 + n) (length b)) else Inr (1 + n))"
  "size_of (fastDecodeBigInt b) =
     (if length b < 2 then Inl TruncatedBigHeader
      else let big = b ! 0 = 0x0b \<or> b ! 0 = 0x1d;
               offset = (if big then 2 else 1);
               len = (if big then (if b ! 0 = 0x0b then unat (b ! 1 XOR 0xff) else unat (b ! 1)) else 8)
           in if offset + len > length b then Inl (TruncatedBigInteger (offset + len) (length b))
              else Inr (offset + len))"
  "snd (fastDecodeFloat b) = 5" "snd (fastDecodeDouble b) = 9"
  "snd (fastDecodeUUID b) = 17" "snd (fastDecodeVersionstamp b) = 13"
  by (simp_all add: fast_decoder_defs Let_def split: option.split)

lemma fastDecodeInt_size:
  assumes "b \<noteq> []"
  shows "size_of (fastDecodeInt b) =
     (let n = nat \<bar>int (unat (b ! 0)) - 0x14\<bar>
      in if 1 + n > length b then Inl (TruncatedInteger (1 + n) (length b)) else Inr (1 + n))"
proof (cases "b ! 0 = 0x14")
  case True
  with assms show ?thesis by (cases b) (simp_all add: fastDecodeInt_def)
qed (rule fast_decoder_sizes(2))

lemma size_of_wrap:
  "size_of (case r of Inl e \<Rightarrow> Inl e | Inr (el, off) \<Rightarrow> Inr (f el, off)) = size_of r"
  by (auto split: sum.split)

lemma validateScalar_eq:
  assumes "i < length b"
  shows "validateScalar b i = size_of (fastDecodeScalar b i)"
proof -
  have ne: "drop i b \<noteq> []" and hd: "drop i b ! 0 = b ! i" using assms by simp_all
  have nth1: "drop i b ! 1 = b ! (i + 1)" if "\<not> length b - i < 2" using that by simp
  note sizes = fast_decoder_sizes(1,3) [of "drop i b"] fastDecodeInt_size [OF ne]
  show ?thesis
    unfolding fastDecodeScalar_def validateScalar_def Let_def fastDecodeString_eq
      if_distrib [of size_of] size_of_wrap
    unfolding sizes Let_def hd
    by (simp add: fast_decoder_sizes(4-) nth1 cong: if_cong)
qed

lemma validateTupleLoop_eq:
  "validateTupleLoop b nested i = size_of (fastDecodeTupleLoop b nested i t)"
proof (induction b nested i t rule: fastDecodeTupleLoop.induct)
  case (1 b nested i t)
  show ?case
  proof (cases "i < length b \<and> b ! i \<noteq> 0")
    case False
    with 1 show ?thesis
      by (subst fastDecodeTupleLoop.simps, subst validateTupleLoop.simps) auto
  next
    case pos: True
    show ?thesis
    proof (cases "b ! i = 5")
      case True
      with pos 1(3,4) show ?thesis
        by (subst fastDecodeTupleLoop.simps, subst validateTupleLoop.simps)
          (cases "fastDecodeTupleLoop (drop (i + 1) b) True 0 []", auto)
    next
      case False
      with pos validateScalar_eq [of i b] 1(5) show ?thesis
        by (subst fastDecodeTupleLoop.simps, subst validateTupleLoop.simps)
          (cases "fastDecodeScalar b i", auto)
    qed
  qed
qed

lemma findTerminatorLoop_less: "findTerminatorLoop bp len = Some n \<Longrightarrow> n < len + length bp"
proof (induction bp len rule: findTerminatorLoop.induct)
  case (1 bp len)
  then show ?case
    by (subst (asm) (2) findTerminatorLoop.simps)
      (fastforce split: option.splits if_splits dest: indexByte_Some)
qed

lemma validateScalar_le:
  assumes "i < length b" and "validateScalar b i = Inr n"
  shows "i + n \<le> length b"
proof -
  have "idx + 2 \<le> length b - i"
    if "fastFindTerminator (drop (i + 1) b) = Some idx" for idx
    using findTerminatorLoop_less [of "drop (i + 1) b" 0 idx] that assms(1)
    by (simp add: fastFindTerminator_eq findTerminator_def)
  with assms show ?thesis
    unfolding validateScalar_def Let_def by (auto split: if_splits option.splits)
qed

lemma validateTupleLoop_le: "i \<le> length b \<Longrightarrow> validateTupleLoop b nested i = Inr n \<Longrightarrow> n \<le> length b"
proof (induction b nested i arbitrary: n rule: validateTupleLoop.induct)
  case (1 b nested i)
  show ?case
  proof (cases "i < length b \<and> b ! i \<noteq> 0")
    case False
    with 1 show ?thesis
      by (subst (asm) (3) validateTupleLoop.simps) (auto split: if_splits)
  next
    case pos: True
    show ?thesis
    proof (cases "b ! i = 5")
      case True
      with pos obtain m where m: "validateTupleLoop (drop (i + 1) b) True 0 = Inr m"
          "validateTupleLoop b nested (i + (m + 1)) = Inr n"
        using "1.prems"(2) by (subst (asm) validateTupleLoop.simps) (auto split: sum.splits)
      have "m \<le> length (drop (i + 1) b)" using "1.IH"(3) pos True m(1) by simp
      then have "i + (m + 1) \<le> length b" using pos by auto
      with "1.IH"(4) pos True m show ?thesis by simp
    next
      case False
      with pos obtain m where m: "validateScalar b i = Inr m" "validateTupleLoop b nested (i + m) = Inr n"
        using "1.prems"(2) by (subst (asm) validateTupleLoop.simps) (auto split: sum.splits)
      with validateScalar_le pos have "i + m \<le> length b" by blast
      with "1.IH"(5) pos False m show ?thesis by simp
    qed
  qed
qed

section \<open>Skip and the framing\<close>

text \<open>The length of the first element of \<open>b\<close>, from the walk of \<^verbatim>\<open>Validate\<close>.\<close>

definition elemSize :: "bytes \<Rightarrow> nat option" where
  "elemSize b =
     (if b ! 0 = 0x00 then Some 1
      else if b ! 0 = 0x05 then map_option Suc (value_of (validateTupleLoop (drop 1 b) True 0))
      else value_of (validateScalar b 0))"

definition skipped :: "nat option \<Rightarrow> int" where
  "skipped r = (case r of None \<Rightarrow> - 1 | Some n \<Rightarrow> int n)"

lemma skipped_simps [simp]: "skipped None = - 1" "skipped (Some n) = int n"
  by (simp_all add: skipped_def)

lemma validateScalar_drop:
  assumes "i < length b"
  shows "value_of (validateScalar b i) = value_of (validateScalar (drop i b) 0)"
proof -
  have hd: "drop i b ! 0 = b ! i" using assms by simp
  have nth1: "drop i b ! 1 = b ! (i + 1)" if "\<not> length b - i < 2" using that by simp
  have two: "0 + 1 < length (drop i b) \<longleftrightarrow> i + 1 < length b" by auto
  have sub: "length b < numeral n + i \<longleftrightarrow> length b - i < numeral n"
    "length b < i + numeral n \<longleftrightarrow> length b - i < numeral n" for n using assms by auto
  show ?thesis
    unfolding validateScalar_def Let_def hd two
    using nth1
    by (simp add: if_distrib [of value_of] sub value_of_case_option cong: if_cong)
qed

lemma skipScalar_eq:
  assumes "b \<noteq> []" and "b ! 0 \<noteq> 0" and "b ! 0 \<noteq> 5"
  shows "skipScalar b = skipped (value_of (validateScalar b 0))"
proof -
  have opt: "skipped (value_of (case r of None \<Rightarrow> Inl UnterminatedBytes | Some idx \<Rightarrow> Inr (idx + 2))) =
    (case r of None \<Rightarrow> - 1 | Some idx \<Rightarrow> 1 + int idx + 1)" for r by (cases r) simp_all
  show ?thesis
  proof (cases "b ! 0 = 0x0c")
    case True
    then show ?thesis
      by (simp add: skipScalar_def validateScalar_def)
  next
    case False
    then have "unat (b ! 0) \<noteq> 12" by (simp add: word_unat_eq_iff)
    then have up: "0x0b + 1 < b ! 0 \<longleftrightarrow> 0x0b < b ! 0" by (simp add: word_less_nat_alt) linarith
    have small: "\<not> (c = 1 \<or> c = 2)" "c \<noteq> 0x0b \<and> c \<noteq> 0x1d" if "0x0b < c \<and> c < 0x1d" for c :: byte
      using that by auto
    have other: "\<not> (0x0b \<le> c \<and> c \<le> 0x1d)" if "\<not> (0x0b < c \<and> c < 0x1d)" "c \<noteq> 0x0b" "c \<noteq> 0x1d" for c :: byte
      using that by auto
    consider "b ! 0 = 1 \<or> b ! 0 = 2" | "0x0b < b ! 0 \<and> b ! 0 < 0x1d" | "b ! 0 = 0x0b \<or> b ! 0 = 0x1d"
      | "\<not> (b ! 0 = 1 \<or> b ! 0 = 2)" "\<not> (0x0b < b ! 0 \<and> b ! 0 < 0x1d)" "\<not> (b ! 0 = 0x0b \<or> b ! 0 = 0x1d)"
      by blast
    then show ?thesis
    proof cases
      case 2
      define m where "m = nat \<bar>int (unat (b ! 0)) - 0x14\<bar>"
      then have m: "\<bar>int (unat (b ! 0)) - 0x14\<bar> = int m" by simp
      show ?thesis
        unfolding skipScalar_def validateScalar_def Let_def up m using 2 small [OF 2] assms by simp
    next
      case 4
      then have "\<not> (0x0b \<le> b ! 0 \<and> b ! 0 \<le> 0x1d)" by (intro other) auto
      with 4 assms False show ?thesis
        unfolding skipScalar_def validateScalar_def Let_def up
        by (simp only: if_False simp_thms if_distrib [of value_of] if_distrib [of skipped]) simp
    next
      case 1
      then show ?thesis by (elim disjE) (simp_all add: skipScalar_def validateScalar_def opt)
    next
      case 3
      then show ?thesis
        by (elim disjE) (simp_all add: skipScalar_def validateScalar_def Let_def del: of_nat_unat)
    qed
  qed
qed

lemma elemSize_le: "b \<noteq> [] \<Longrightarrow> elemSize b = Some n \<Longrightarrow> 0 < n \<and> n \<le> length b"
  using validateTupleLoop_le [of 0 "drop 1 b" True] validateScalar_le [of 0 b] validateScalar_consumes [of b 0]
  by (cases b) (auto simp: elemSize_def split: if_splits)

lemma Skip_eq:
  "b \<noteq> [] \<Longrightarrow> Skip b = skipped (elemSize b)"
  "0 < i \<Longrightarrow> i \<le> length b \<Longrightarrow>
     skipNested b i = skipped (map_option Suc (value_of (validateTupleLoop (drop 1 b) True (i - 1))))"
proof (induction b and b i rule: Skip_skipNested.induct)
  case (1 b)
  show ?case
  proof (cases "b ! 0 = 5")
    case True
    with 1 show ?thesis by (subst Skip.simps) (simp add: elemSize_def Suc_le_eq)
  next
    case False
    with 1(2) skipScalar_eq [of b] show ?thesis
      by (subst Skip.simps) (auto simp: elemSize_def skipScalar_def)
  qed
next
  case (2 b i)
  show ?case
  proof (cases "i < length b")
    case False
    with 2(5) have "i = length b" by simp
    with 2(4) show ?thesis by (subst skipNested.simps, subst validateTupleLoop.simps) auto
  next
    case True
    note i = True 2(4)
    have nth: "drop 1 b ! (i - 1) = b ! i" and len: "i - 1 < length (drop 1 b)"
      and rest: "drop (i - 1 + 1) (drop 1 b) = drop (i + 1) b" "drop (i - 1) (drop 1 b) = drop i b"
      and fst: "drop i b \<noteq> []" "drop i b ! 0 = b ! i" "drop 1 (drop i b) = drop (i + 1) b"
      using i by auto
    have next_nil: "i - 1 + 1 < length (drop 1 b) \<and> drop 1 b ! (i - 1 + 1) = 0xff \<longleftrightarrow>
      i + 1 < length b \<and> b ! (i + 1) = 0xff" using i by auto
    show ?thesis
    proof (cases "b ! i = 0")
      case True
      with i nth len next_nil 2(1) show ?thesis
        by (subst skipNested.simps, subst validateTupleLoop.simps) auto
    next
      case False
      note nz = this
      have sz: "Skip (drop i b) = skipped (elemSize (drop i b))" using 2(2) i nz fst by simp
      have sk: "skipNested b i = (let sz = Skip (drop i b)
          in if sz \<le> 0 then - 1 else skipNested b (i + nat sz))"
        using i nz by (subst skipNested.simps) simp
      have step: "validateTupleLoop (drop 1 b) True (i - 1) = 
        (if b ! i = 5 then case validateTupleLoop (drop (i + 1) b) True 0 of
             Inl e \<Rightarrow> Inl e | Inr n \<Rightarrow> validateTupleLoop (drop 1 b) True (i - 1 + (n + 1))
         else case validateScalar (drop 1 b) (i - 1) of
             Inl e \<Rightarrow> Inl e | Inr n \<Rightarrow> validateTupleLoop (drop 1 b) True (i - 1 + n))"
        using i nz len rest by (subst validateTupleLoop.simps) (simp only: nth if_True if_False)
      have val: "value_of (validateTupleLoop (drop 1 b) True (i - 1)) = 
        (case elemSize (drop i b) of None \<Rightarrow> None
         | Some n \<Rightarrow> value_of (validateTupleLoop (drop 1 b) True (i - 1 + n)))"
        unfolding step elemSize_def fst validateScalar_drop [OF len, unfolded rest(2), symmetric] using nz
        by (cases "validateTupleLoop (drop (i + 1) b) True 0"; cases "validateScalar (drop 1 b) (i - 1)")
          (simp_all add: Suc_eq_plus1 add.assoc del: One_nat_def)
      show ?thesis
      proof (cases "elemSize (drop i b)")
        case None
        then show ?thesis by (simp add: sk sz val del: One_nat_def)
      next
        case (Some n)
        with elemSize_le [OF fst(1)] i have n: "0 < n" "i + n \<le> length b" by auto
        have eq: "i + n - 1 = i - 1 + n" using i by simp
        have size: "Skip (drop i b) = int n" by (simp add: sz Some)
        with sk n have "skipNested b i = skipNested b (i + n)" by simp
        also from size n i 2(3) [OF i(1) nz refl] have "\<dots> =
          skipped (map_option Suc (value_of (validateTupleLoop (drop 1 b) True (i + n - 1))))" by simp
        finally show ?thesis unfolding val Some eq by simp
      qed
    qed
  qed
qed

subsection \<open>Elements the packer wrote\<close>

lemma value_of_size_of: "value_of (size_of r) = map_option snd (value_of r)"
  by (cases r) simp_all

lemma elemSize_code:
  assumes "element_wf e" and "elem_packable e" and "ok_rest r"
  shows "elemSize (elem_code False e @ r) = Some (length (elem_code False e))"
proof -
  consider "e = ENil" | t where "e = ETuple t" | "is_scalar e" by (cases e) simp_all
  then show ?thesis
  proof cases
    case 1
    then show ?thesis by (simp add: elemSize_def)
  next
    case (2 t)
    let ?c = "tuple_code True t"
    have "\<forall>e \<in> set t. decodes True e" using assms 2 by (simp add: decodes_elem)
    from decodeTupleLoop_elems [OF this, of "0 # r" "[]" "[]"] decodeTupleLoop_end [OF assms(3), of ?c]
    have "decodeTupleLoop (?c @ 0 # r) True 0 [] = Inr (map norm_elem t, length ?c + 1)" by simp
    then have "value_of (validateTupleLoop (?c @ 0 # r) True 0) = Some (length ?c + 1)"
      unfolding validateTupleLoop_eq [of _ _ _ "[]"] value_of_size_of fastDecodeTupleLoop_eq by simp
    with 2 show ?thesis by (simp add: elemSize_def elem_code_tuple del: elem_code.simps)
  next
    case 3
    obtain c s where c: "elem_code False e = c # s" "c \<noteq> 0" "c \<noteq> 5"
      using elem_code_hd [of False e] 3 by (cases e) auto
    have "value_of (validateScalar (elem_code False e @ r) 0) = Some (length (elem_code False e))"
      using decodeScalar_code [OF 3 assms, of "[]" False] c(1)
      by (simp add: validateScalar_eq value_of_size_of fastDecodeScalar_eq del: value_of_Some)
    with c show ?thesis by (simp add: elemSize_def del: value_of_Some)
  qed
qed

lemma Skip_code:
  assumes "element_wf e" and "elem_packable e" and "ok_rest r"
  shows "Skip (elem_code False e @ r) = int (length (elem_code False e))"
proof -
  have "elem_code False e @ r \<noteq> []" using elem_code_hd [of False e] by auto
  with elemSize_code [OF assms] show ?thesis by (simp add: Skip_eq)
qed

lemma elem_code_nonempty: "0 < length (elem_code nested e)"
  using elem_code_hd [of nested e] by auto

lemma nestedPKSpansLoop_code:
  assumes "\<forall>e \<in> set ts. element_wf e \<and> elem_packable e"
  shows "nestedPKSpansLoop (pre @ tuple_code False ts) (length pre) acc =
    Inr (acc @ map (elem_code False) ts)"
  using assms
proof (induction ts arbitrary: pre acc)
  case Nil
  then show ?case by (subst nestedPKSpansLoop.simps) simp
next
  case (Cons e ts)
  let ?c = "elem_code False e"
  have "Skip (?c @ tuple_code False ts) = int (length ?c)"
    using Cons.prems ok_rest_code [of "[]" False ts] by (intro Skip_code) simp_all
  then have "nestedPKSpansLoop (pre @ tuple_code False (e # ts)) (length pre) acc =
    nestedPKSpansLoop ((pre @ ?c) @ tuple_code False ts) (length (pre @ ?c)) (acc @ [?c])"
    using elem_code_nonempty [of False e] by (subst nestedPKSpansLoop.simps) simp
  also have "\<dots> = Inr ((acc @ [?c]) @ map (elem_code False) ts)"
    using Cons.prems by (intro Cons.IH) simp
  finally show ?case by simp
qed

lemma splitKeySuffixLoop_code:
  assumes "\<forall>e \<in> set (ts @ [l]). element_wf e \<and> elem_packable e"
  shows "splitKeySuffixLoop (pre @ tuple_code False (ts @ [l])) (length pre) s =
    Inr (length pre + length (tuple_code False ts))"
  using assms
proof (induction ts arbitrary: pre s)
  case Nil
  then have "Skip (elem_code False l) = int (length (elem_code False l))"
    using Skip_code [of l "[]"] by simp
  with elem_code_nonempty [of False l] show ?case
    by (simp add: splitKeySuffixLoop.simps [of _ "length pre"] splitKeySuffixLoop.simps [of _ "_ + length _"])
next
  case (Cons e ts)
  let ?c = "elem_code False e"
  have "Skip (?c @ tuple_code False (ts @ [l])) = int (length ?c)"
    using Cons.prems ok_rest_code [of "[]" False "ts @ [l]"] by (intro Skip_code) simp_all
  then have "splitKeySuffixLoop (pre @ tuple_code False ((e # ts) @ [l])) (length pre) s =
    splitKeySuffixLoop ((pre @ ?c) @ tuple_code False (ts @ [l])) (length (pre @ ?c)) (length pre)"
    using elem_code_nonempty [of False e] by (subst splitKeySuffixLoop.simps) simp
  also have "\<dots> = Inr (length (pre @ ?c) + length (tuple_code False ts))"
    using Cons.prems by (intro Cons.IH) simp
  finally show ?case by simp
qed

lemma int_code_word:
  "\<exists>c s. int_code (sint (v :: 64 word)) = c # s \<and> (c = 0x14 \<or> 0x0b < c \<and> c < 0x1d) \<and>
     decodeInt (c # s) = Some (EInt64 v, length (c # s))"
proof -
  let ?i = "sint v" and ?n = "nbytes (nat \<bar>sint v\<bar>)"
  have "nat \<bar>?i\<bar> < 256 ^ 8" using sint64_bounds [of v] by simp
  then have n: "?n \<le> 8" by (simp only: nbytes_le_iff)
  have w: "word_of_int ?i = v" by simp
  consider "?i = 0" | "0 < ?i" | "?i < 0" by linarith
  then show ?thesis
  proof cases
    case 1
    then have "v = 0" by (metis w of_int_0)
    then show ?thesis by (simp add: int_code_def decodeInt_def)
  next
    case 2
    then have "int_code ?i = (intZeroCode + of_nat ?n) # be_bytes ?n (nat ?i)"
      using n by (simp add: int_code_def Let_def)
    moreover have "?i < 2 ^ 64" "?i < 2 ^ 63" using sint64_bounds [of v] by simp_all
    moreover note decodeInt_pos [OF 2, of ?n "[]"]
    moreover have "0 < ?n" using 2 by simp
    ultimately show ?thesis using code_range(1) [OF n] 2 w
      by (auto simp: int_elem_def intro: order.strict_trans [of _ "negIntStart + 1"])
  next
    case 3
    then have "int_code ?i = (intZeroCode - of_nat ?n) # be_bytes ?n (nat (?i + (256 ^ ?n - 1)))"
      using n by (simp add: int_code_def Let_def)
    moreover have "?n = nbytes (nat (- ?i))" using 3 by simp
    note decodeInt_neg_word [OF 3 this n, of "[]"]
    moreover have "0x0b < (intZeroCode - of_nat ?n :: byte)" "(intZeroCode - of_nat ?n :: byte) < 0x1d"
      using n by (simp_all add: word_less_nat_alt byte_neg_code)
    ultimately show ?thesis using w by auto
  qed
qed

text \<open>
  A suffix below the range of \<^verbatim>\<open>int64\<close> that still has eight bytes is not rejected but wraps around: the
  decoder reads the same bytes as a big integer.
\<close>

lemma SplitKeySuffix_wraps:
  "SplitKeySuffix [0x0c, 0x7f, 0xff, 0xff, 0xff, 0xff, 0xff, 0xff, 0xfe] = Inr (0x7FFFFFFFFFFFFFFF, 0)"
  "fastUnpack [0x0c, 0x7f, 0xff, 0xff, 0xff, 0xff, 0xff, 0xff, 0xfe] = Inr [EBigInt (- 0x8000000000000001)]"
  by (simp_all add: SplitKeySuffix_def splitKeySuffixLoop.simps Skip.simps skipScalar_def fastDecodeInt_def
    fastSizeLimits_def be_val_def Let_def fastUnpack_def fastDecodeTuple_def fastDecodeTupleLoop.simps fastDecodeScalar_def
    fastDecodeBigInt_def)

lemma fastUnpack_value: "value_of (fastUnpack b) = value_of (Unpack b)"
  using fastDecodeTupleLoop_eq [of b False 0 "[]"]
  by (cases "fastDecodeTupleLoop b False 0 []"; cases "decodeTupleLoop b False 0 []")
    (simp_all add: fastUnpack_def fastDecodeTuple_def Unpack_def decodeTuple_def)

section \<open>Properties\<close>

text \<open>
  (C8) The fast decoder is a drop-in replacement for \<^verbatim>\<open>tuple.Unpack\<close>, as its documentation says: on
  every input, well formed or not, the two accept the same byte strings and return the same tuple.
\<close>

theorem fastUnpack_equivalent: "fastUnpack b = Inr t \<longleftrightarrow> Unpack b = Inr t"
  using fastUnpack_value [of b] by (metis value_of_Some)

text \<open>
  (C36) \<^verbatim>\<open>Validate\<close> walks the elements without decoding them and yet reports exactly the error that
  decoding reports: the same message with the same numbers, or none where the bytes decode.
\<close>

theorem Validate_matches_Unpack:
  "Validate b = (case fastUnpack b of Inl e \<Rightarrow> Some e | Inr t \<Rightarrow> None)"
  by (cases "fastDecodeTupleLoop b False 0 []")
    (simp_all add: Validate_def validateTuple_def validateTupleLoop_eq [of _ _ _ "[]"] fastUnpack_def
      fastDecodeTuple_def)

text \<open>
  (C37) A record key splits where it was put together: for a packed tuple whose last element is an
  \<^verbatim>\<open>int64\<close>, \<^verbatim>\<open>SplitKeySuffix\<close> returns that integer, over the whole range of the type, and the length
  of the packing of the elements before it.
\<close>

theorem SplitKeySuffix_Pack:
  assumes "tuple_wf t" and "Pack t = Inr p" and "Pack (t @ [EInt64 v]) = Inr b"
  shows "SplitKeySuffix b = Inr (v, length p) \<and> take (length p) b = p"
proof -
  have b: "b = tuple_code False (t @ [EInt64 v])" and p: "p = tuple_code False t" and "packable t"
    using assms(2,3) by (simp_all add: Pack_code)
  then have "\<forall>e \<in> set (t @ [EInt64 v]). element_wf e \<and> elem_packable e"
    using assms(1) by (auto simp: tuple_wf_def packable_def)
  from splitKeySuffixLoop_code [OF this, of "[]" 0]
  have loop: "splitKeySuffixLoop b 0 0 = Inr (length p)" by (simp add: b p)
  obtain c s where c: "int_code (sint v) = c # s" "c = 0x14 \<or> 0x0b < c \<and> c < 0x1d"
    "decodeInt (c # s) = Some (EInt64 v, length (c # s))" using int_code_word by blast
  then have "fastDecodeInt (c # s) = Inr (EInt64 v, length (c # s))"
    using fastDecodeInt_eq [of "c # s"] by simp
  with c(1,2) loop show ?thesis by (simp add: SplitKeySuffix_def b p Let_def)
qed

theorem SplitKeySuffix_Pack_witness:
  "SplitKeySuffix [2, 0x61, 0, 0x13, 0xFE] = Inr (- 1, 3)"
proof -
  have "Pack [EString [0x61]] = Inr [2, 0x61, 0]" by code_simp
  moreover have "Pack ([EString [0x61]] @ [EInt64 (- 1)]) = Inr [2, 0x61, 0, 0x13, 0xFE]" by code_simp
  ultimately show ?thesis using SplitKeySuffix_Pack [of "[EString [0x61]]"] by (simp add: tuple_wf_def)
qed

text \<open>
  The spans of a neighbour list are the packed keys: for a packed nested tuple without nil
  elements, \<^verbatim>\<open>NestedPKSpans\<close> of the bytes between its marker and its terminator returns one span per
  element, each the packing of the one-element tuple.
\<close>

lemma NestedPKSpans_Pack:
  assumes "tuple_wf ts" and "ENil \<notin> set ts" and "Pack [ETuple ts] = Inr b"
  shows "\<exists>spans. NestedPKSpans (butlast (tl b)) = Inr spans \<and> map Inr spans = map (\<lambda>e. Pack [e]) ts"
proof -
  have p: "packable ts" and b: "b = nestedCode # tuple_code True ts @ [0]"
    using assms(3) by (auto simp: Pack_code packable_def elem_code_tuple simp del: elem_code.simps)
  have "elem_code True e = elem_code False e" if "e \<noteq> ENil" for e using that by (cases e) simp_all
  then have "tuple_code True ts = tuple_code False ts"
    using assms(2) unfolding tuple_code_def by (metis map_cong)
  with b have c: "butlast (tl b) = tuple_code False ts" by (simp add: butlast_append)
  have wf: "\<forall>e \<in> set ts. element_wf e \<and> elem_packable e"
    using assms(1) p by (auto simp: tuple_wf_def packable_def)
  from nestedPKSpansLoop_code [OF this, of "[]" "[]"]
  have "NestedPKSpans (tuple_code False ts) = Inr (map (elem_code False) ts)"
    using elem_code_nonempty [of False "hd ts"] by (cases ts) (auto simp: NestedPKSpans_def)
  moreover have "Pack [e] = Inr (elem_code False e)" if "e \<in> set ts" for e
    using wf that by (simp add: Pack_code packable_def)
  then have "map Inr (map (elem_code False) ts) = map (\<lambda>e. Pack [e]) ts" by simp
  ultimately show ?thesis using c by auto
qed

lemma NestedPKSpans_Pack_example:
  "NestedPKSpans [0x15, 7, 0x01, 0, 0xFF, 0] = Inr [[0x15, 7], [0x01, 0, 0xFF, 0]]"
proof -
  have p: "Pack [ETuple [EInt64 7, EBytes [0]]] = Inr [5, 0x15, 7, 1, 0, 0xFF, 0, 0]" by code_simp
  have e: "Pack [EInt64 7] = Inr [0x15, 7]" "Pack [EBytes [0]] = Inr [1, 0, 0xFF, 0]" by code_simp+
  from NestedPKSpans_Pack [OF _ _ p] show ?thesis by (auto simp: tuple_wf_def e)
qed

end
