(* ===== verification/IntervalMap.thy ===== *)
theory IntervalMap
  imports Prelude
begin

text \<open>
  Sets of disjoint half-open intervals over a linear order, kept as a map from the start of an interval
  to its end: what such a map covers, the gaps between its intervals, and how it grows.  The range set of
  the record layer is stored in this form.
\<close>

section \<open>Definitions\<close>

definition intervals :: "('a :: linorder \<Rightarrow> 'a option) \<Rightarrow> bool" where
  "intervals m \<longleftrightarrow> (\<forall>b e. m b = Some e \<longrightarrow> b < e) \<and>
     (\<forall>b e b' e'. m b = Some e \<longrightarrow> m b' = Some e' \<longrightarrow> b < b' \<longrightarrow> e \<le> b')"

definition spanned :: "('a :: linorder \<Rightarrow> 'a option) \<Rightarrow> 'a set" where
  "spanned m = {k. \<exists>b e. m b = Some e \<and> b \<le> k \<and> k < e}"

text \<open>The gaps from \<open>l\<close> to \<open>end\<close> around the intervals of a sorted list.\<close>

fun gapsTo :: "'a :: linorder \<Rightarrow> ('a \<times> 'a) list \<Rightarrow> 'a \<Rightarrow> ('a \<times> 'a) list" where
  "gapsTo l [] end = (if l < end then [(l, end)] else [])"
| "gapsTo l ((b, e) # A) end = (if l < b then [(l, b)] else []) @ gapsTo e A end"

text \<open>No interval that starts before \<open>l\<close> reaches past it.\<close>

definition aligned :: "('a :: linorder \<Rightarrow> 'a option) \<Rightarrow> 'a \<Rightarrow> bool" where
  "aligned m l \<longleftrightarrow> (\<forall>b e. m b = Some e \<longrightarrow> b < l \<longrightarrow> e \<le> l)"

definition entriesFrom :: "('a :: linorder \<Rightarrow> 'a option) \<Rightarrow> 'a \<Rightarrow> 'a \<Rightarrow> ('a \<times> 'a) list \<Rightarrow> bool" where
  "entriesFrom m l end A \<longleftrightarrow> sorted_wrt (<) (map fst A) \<and>
     (\<forall>b e. (b, e) \<in> set A \<longleftrightarrow> m b = Some e \<and> l \<le> b \<and> b < end)"

definition unionOf :: "('a :: linorder \<times> 'a) list \<Rightarrow> 'a set" where
  "unionOf R = (\<Union>(x, y) \<in> set R. {x..<y})"

lemma unionOf_simps [simp]: "unionOf [] = {}" "unionOf ((x, y) # R) = {x..<y} \<union> unionOf R"
  "unionOf (R @ S) = unionOf R \<union> unionOf S"
  by (simp_all add: unionOf_def)

fun insertAll :: "('a \<Rightarrow> 'a option) \<Rightarrow> ('a \<times> 'a) list \<Rightarrow> 'a \<Rightarrow> 'a option" where
  "insertAll m [] = m"
| "insertAll m ((x, y) # R) = insertAll (m(x := Some y)) R"

definition spaced :: "('a :: linorder \<times> 'a) list \<Rightarrow> bool" where
  "spaced R \<longleftrightarrow> (\<forall>(x, y) \<in> set R. x < y) \<and> sorted_wrt (\<lambda>(x, y) (x', y'). y < x') R"

section \<open>Growing\<close>

lemma intervalsD:
  assumes "intervals m" and "m b = Some e"
  shows "b < e" and "m b' = Some e' \<Longrightarrow> b < b' \<Longrightarrow> e \<le> b'"
  using assms by (auto simp: intervals_def)

lemma spannedI: "m b = Some e \<Longrightarrow> b \<le> k \<Longrightarrow> k < e \<Longrightarrow> k \<in> spanned m"
  by (auto simp: spanned_def)

lemma intervals_insert:
  assumes m: "intervals m" and "x < y" and free: "{x..<y} \<inter> spanned m = {}"
  shows "intervals (m(x := Some y))" and "spanned (m(x := Some y)) = spanned m \<union> {x..<y}"
proof -
  have x: "m x = None"
  proof (rule ccontr)
    assume "m x \<noteq> None"
    then obtain e where "m x = Some e" by auto
    with intervalsD(1) [OF m this] have "x \<in> spanned m" by (intro spannedI) auto
    with free assms(2) show False by auto
  qed
  have "e \<le> x" if "m b = Some e" "b < x" for b e
    using spannedI [of m b e x] free assms(2) that by (meson atLeastLessThan_iff disjoint_iff leI less_imp_le order_refl)
  moreover have "y \<le> b" if "m b = Some e" "x < b" for b e
    using spannedI [of m b e b] intervalsD(1) [OF m that(1)] free that
    by (meson atLeastLessThan_iff disjoint_iff leI less_imp_le order_refl)
  ultimately show "intervals (m(x := Some y))"
    using m assms(2) by (auto simp: intervals_def)
  show "spanned (m(x := Some y)) = spanned m \<union> {x..<y}"
    using x by (auto simp: spanned_def split: if_splits)
qed

lemma intervals_extend:
  assumes m: "intervals m" and x: "m x = Some y" and "y < z" and free: "{y..<z} \<inter> spanned m = {}"
  shows "intervals (m(x := Some z))" and "spanned (m(x := Some z)) = spanned m \<union> {y..<z}"
proof -
  have xy: "x < y" using intervalsD(1) [OF m x] .
  have "z \<le> b" if "m b = Some e" "x < b" for b e
  proof -
    have "y \<le> b" using intervalsD(2) [OF m x that] .
    moreover have "b \<in> spanned m" using spannedI [of m b e b] intervalsD(1) [OF m that(1)] that(1) by auto
    ultimately show ?thesis using free by (meson atLeastLessThan_iff disjoint_iff leI)
  qed
  moreover have "x < z" using xy assms(3) by (rule less_trans)
  ultimately show "intervals (m(x := Some z))"
    using m x unfolding intervals_def by (auto split: if_splits)
  have "k \<in> spanned (m(x := Some z)) \<longleftrightarrow> k \<in> spanned m \<union> {y..<z}" for k
  proof
    assume "k \<in> spanned (m(x := Some z))"
    then show "k \<in> spanned m \<union> {y..<z}" using x unfolding spanned_def by (auto split: if_splits) (meson not_le)+
  next
    assume "k \<in> spanned m \<union> {y..<z}"
    then show "k \<in> spanned (m(x := Some z))"
    proof
      assume "k \<in> spanned m"
      then obtain b e where "m b = Some e" "b \<le> k" "k < e" by (auto simp: spanned_def)
      then show ?thesis using x assms(3) by (cases "b = x") (auto simp: spanned_def)
    next
      assume "k \<in> {y..<z}"
      then show ?thesis using xy spannedI [of "m(x := Some z)" x z k] by force
    qed
  qed
  then show "spanned (m(x := Some z)) = spanned m \<union> {y..<z}" by blast
qed

lemma intervals_inserts:
  assumes "intervals m" and "spaced R" and "unionOf R \<inter> spanned m = {}"
  shows "intervals (insertAll m R) \<and>
    spanned (insertAll m R) = spanned m \<union> unionOf R"
  using assms
proof (induction R arbitrary: m)
  case Nil
  then show ?case by simp
next
  case (Cons r R)
  obtain x y where r: "r = (x, y)" by (cases r)
  have xy: "x < y" and R: "spaced R" using Cons.prems(2) r by (auto simp: spaced_def)
  have "{x..<y} \<inter> spanned m = {}" using Cons.prems(3) r by auto
  note ins = intervals_insert [OF Cons.prems(1) xy this]
  have "unionOf R \<inter> {x..<y} = {}"
    using Cons.prems(2) r by (fastforce simp: spaced_def unionOf_def)
  with Cons.prems(3) have "unionOf R \<inter> spanned (m(x := Some y)) = {}"
    unfolding ins(2) r by auto
  from Cons.IH [OF ins(1) R this] show ?case
    unfolding r insertAll.simps unionOf_simps Un_assoc [symmetric] ins(2) .
qed

section \<open>Gaps\<close>

lemma entriesFrom_Cons:
  assumes m: "intervals m" and A: "entriesFrom m l end ((b, e) # A)"
  shows "m b = Some e" "l \<le> b" "b < end" "aligned m e" "entriesFrom m e end A"
    and "\<And>x. l \<le> x \<Longrightarrow> x < b \<Longrightarrow> m x = None"
proof -
  have "(b, e) \<in> set ((b, e) # A)" by simp
  then show b: "m b = Some e" "l \<le> b" "b < end" using A unfolding entriesFrom_def by blast+
  have be: "b < e" using intervalsD(1) [OF m b(1)] .
  have srt: "\<forall>p \<in> set A. b < fst p" using A by (simp add: entriesFrom_def)
  show none: "m x = None" if "l \<le> x" "x < b" for x
  proof (rule ccontr)
    assume "m x \<noteq> None"
    then obtain y where "m x = Some y" by auto
    then have "(x, y) \<in> set ((b, e) # A)" using A that b(3) unfolding entriesFrom_def by (meson less_trans)
    with that(2) srt show False by (auto dest: bspec)
  qed
  show "aligned m e" unfolding aligned_def
    by (metis b(1) be intervalsD(2) [OF m] less_imp_le linorder_neqE not_le option.inject order.trans)
  have "(x, y) \<in> set A \<longleftrightarrow> m x = Some y \<and> e \<le> x \<and> x < end" for x y
  proof
    assume "(x, y) \<in> set A"
    then have "b < x" "(x, y) \<in> set ((b, e) # A)" using srt by auto
    then have "b < x" "m x = Some y" "x < end" using A unfolding entriesFrom_def by blast+
    with intervalsD(2) [OF m b(1)] show "m x = Some y \<and> e \<le> x \<and> x < end" by blast
  next
    assume x: "m x = Some y \<and> e \<le> x \<and> x < end"
    then have "l \<le> x" "x \<noteq> b" using b(2) be by auto
    moreover from this x A have "(x, y) \<in> set ((b, e) # A)" unfolding entriesFrom_def by blast
    ultimately show "(x, y) \<in> set A" by simp
  qed
  with A show "entriesFrom m e end A" by (simp add: entriesFrom_def)
qed

lemma gapsTo_spec:
  assumes "intervals m" and "aligned m l" and "entriesFrom m l end A"
  shows "unionOf (gapsTo l A end) = {l..<end} - spanned m \<and> spaced (gapsTo l A end) \<and>
    (\<forall>(x, y) \<in> set (gapsTo l A end). l \<le> x)"
  using assms
proof (induction A arbitrary: l)
  case Nil
  have "k \<notin> spanned m" if "l \<le> k" "k < end" for k
  proof
    assume "k \<in> spanned m"
    then obtain b e where b: "m b = Some e" "b \<le> k" "k < e" by (auto simp: spanned_def)
    with Nil.prems(2) that have "l \<le> b" unfolding aligned_def by (meson leI le_less_trans not_less)
    with b that Nil.prems(3) show False by (auto simp: entriesFrom_def)
  qed
  then show ?case by (auto simp: spaced_def)
next
  case (Cons p A)
  obtain b e where p: "p = (b, e)" by (cases p)
  note c = entriesFrom_Cons [OF Cons.prems(1) Cons.prems(3) [unfolded p]]
  have be: "b < e" using intervalsD(1) [OF Cons.prems(1) c(1)] .
  note IH = Cons.IH [OF Cons.prems(1) c(4,5)]
  have free: "k \<notin> spanned m" if "l \<le> k" "k < b" for k
  proof
    assume "k \<in> spanned m"
    then obtain x y where x: "m x = Some y" "x \<le> k" "k < y" by (auto simp: spanned_def)
    with Cons.prems(2) that(1) have "l \<le> x" unfolding aligned_def by (meson leI le_less_trans not_less)
    moreover have "x < b" using x(2) that(2) by (rule le_less_trans)
    ultimately show False using c(6) [of x] x(1) by simp
  qed
  have filled: "k \<in> spanned m" if "b \<le> k" "k < e" for k using spannedI [of m b e k] c(1) that by simp
  have "{l..<end} - spanned m = {l..<b} \<union> ({e..<end} - spanned m)"
    using free filled c(2,3) be by (auto simp: not_le not_less) (meson filled leI)
  moreover have "spaced (gapsTo l ((b, e) # A) end)"
    using IH be by (fastforce simp: spaced_def)
  moreover have "\<forall>(x, y) \<in> set (gapsTo l ((b, e) # A) end). l \<le> x" using IH be c(2) by fastforce
  ultimately show ?case using IH p by auto
qed

lemma spaced_whole:
  assumes "spaced G" and "a < c" and u: "unionOf G = {a..<c} - C"
  shows "(case G of [] \<Rightarrow> False | g # G' \<Rightarrow> g = (a, c)) \<longleftrightarrow> C \<inter> {a..<c} = {}"
proof (cases G)
  case Nil
  then have "{a..<c} \<subseteq> C" using u by auto
  with assms(2) have "a \<in> C \<inter> {a..<c}" by (auto simp: subset_iff)
  with Nil show ?thesis by auto
next
  case (Cons g G')
  obtain x y where g: "g = (x, y)" by (cases g)
  have xy: "x < y" "x \<in> {a..<c}" using assms(1) u by (auto simp: Cons g spaced_def)
  show ?thesis
  proof
    assume "case G of [] \<Rightarrow> False | g # G' \<Rightarrow> g = (a, c)"
    then show "C \<inter> {a..<c} = {}" using u by (auto simp: Cons)
  next
    assume "C \<inter> {a..<c} = {}"
    with u have u: "unionOf G = {a..<c}" by auto
    have "y \<notin> unionOf G" using assms(1) by (fastforce simp: Cons g spaced_def unionOf_def)
    then have "c \<le> y" unfolding u using xy by auto
    moreover have "y \<le> c"
    proof (rule ccontr)
      assume "\<not> y \<le> c"
      then have "c \<in> unionOf G" using xy by (auto simp: Cons g)
      then show False by (simp add: u)
    qed
    moreover have "a \<in> unionOf G" using u assms(2) by simp
    then have "x \<le> a" using assms(1) by (fastforce simp: Cons g spaced_def unionOf_def)
    ultimately show "case G of [] \<Rightarrow> False | g # G' \<Rightarrow> g = (a, c)" using xy by (auto simp: Cons g)
  qed
qed

section \<open>Looking up\<close>

text \<open>The interval that starts last at or before a key decides whether the key is covered.\<close>

lemma spanned_last:
  assumes "intervals m" and "m b = Some e" and "b \<le> k" and "\<And>x. b < x \<Longrightarrow> x \<le> k \<Longrightarrow> m x = None"
  shows "k \<in> spanned m \<longleftrightarrow> k < e"
proof
  assume "k \<in> spanned m"
  then obtain x y where x: "m x = Some y" "x \<le> k" "k < y" by (auto simp: spanned_def)
  then have "x \<le> b" using assms(4) [of x] by (cases "b < x") auto
  then show "k < e"
  proof (cases "x = b")
    case False
    with \<open>x \<le> b\<close> have "y \<le> b" using intervalsD(2) [OF assms(1) x(1) assms(2)] by simp
    with x(3) assms(3) show ?thesis by simp
  qed (use x assms(2) in auto)
qed (use assms in \<open>auto intro: spannedI\<close>)

lemma spanned_none: "(\<And>x. x \<le> k \<Longrightarrow> m x = None) \<Longrightarrow> k \<notin> spanned m"
  by (auto simp: spanned_def)

end
