(* ===== verification/RangeSets.thy ===== *)
theory RangeSets
  imports SimKV TupleFast IntervalMap
begin

text \<open>
  The range set of the record layer (\<^verbatim>\<open>pkg/recordlayer/range_set.go\<close>), which keeps the ranges of work
  already done in a subspace of the database: the key of an entry is the packed start of a range and its
  value the end of the range.  The operations run on any transaction of the interface of
  \<^theory_text>\<open>KVTransaction\<close>; their lemmas are proved under its contract and hold for the simulated transaction by
  its interpretation.  The specification is the set of covered keys.
\<close>

section \<open>Definitions\<close>

abbreviation rangeSetFirstKey :: bytes where "rangeSetFirstKey \<equiv> [0x00]"

abbreviation rangeSetFinalKey :: bytes where "rangeSetFinalKey \<equiv> [0xff]"

datatype rangeSetError =
    RangeSetEmptyKeyError
  | RangeSetKeyTooLargeError bytes
  | RangeSetInvertedRangeError bytes bytes
  | RangeSetTransaction int
  | RangeSetUnpack subspace_unpack_error
  | RangeSetElementType
  | RangeSetIndexPanic

record RangeSetRange =
  rsBegin :: bytes
  rsEnd :: bytes

record RangeSet =
  rsSubspace :: subspace

definition NewRangeSet :: "subspace \<Rightarrow> RangeSet" where
  "NewRangeSet ss = \<lparr>rsSubspace = ss\<rparr>"

definition rangeSetCheckKey :: "bytes \<Rightarrow> rangeSetError option" where
  "rangeSetCheckKey key =
     (if length key = 0 then Some RangeSetEmptyKeyError
      else if key \<ge> rangeSetFinalKey then Some (RangeSetKeyTooLargeError key)
      else None)"

definition rangeSetKeyAfter :: "bytes \<Rightarrow> bytes" where
  "rangeSetKeyAfter key = key @ [0x00]"

text \<open>\<^verbatim>\<open>rs.subspace.Pack(tuple.Tuple{key})\<close>; a byte string always packs.\<close>

definition rsPack :: "RangeSet \<Rightarrow> bytes \<Rightarrow> bytes" where
  "rsPack rs key = (case subspace_Pack newPacker (rsSubspace rs) [EBytes key] of Inl e \<Rightarrow> [] | Inr k \<Rightarrow> k)"

text \<open>The start of the range that an entry keeps in its key.\<close>

definition rsUnpack :: "RangeSet \<Rightarrow> bytes \<Rightarrow> (rangeSetError, bytes) result" where
  "rsUnpack rs key =
     (case SubspaceUnpack key (length (subspace_Bytes (rsSubspace rs))) of
        Inl e \<Rightarrow> Inl (RangeSetUnpack e)
      | Inr [] \<Rightarrow> Inl RangeSetIndexPanic
      | Inr (EBytes b # t) \<Rightarrow> Inr b
      | Inr (el # t) \<Rightarrow> Inl RangeSetElementType)"

definition Contains ::
  "'tx writableTransaction \<Rightarrow> RangeSet \<Rightarrow> 'tx \<Rightarrow> bytes \<Rightarrow> 'tx \<times> (rangeSetError, bool) result" where
  "Contains ops rs tr key =
     (case rangeSetCheckKey key of
        Some err \<Rightarrow> (tr, Inl err)
      | None \<Rightarrow>
          let frobnicated = rsPack rs key
          in case opAddReadConflictKey ops tr frobnicated of
               (tr, Some err) \<Rightarrow> (tr, Inl (RangeSetTransaction err))
             | (tr, None) \<Rightarrow>
                 let ssBegin = fst (subspace_FDBRangeKeys (rsSubspace rs))
                 in case opGetRange ops tr ssBegin (rangeSetKeyAfter frobnicated)
                        \<lparr>Limit = 1, Mode = 0, Reverse = True\<rparr> True of
                      (tr, Inl err) \<Rightarrow> (tr, Inl (RangeSetTransaction err))
                    | (tr, Inr []) \<Rightarrow> (tr, Inr False)
                    | (tr, Inr (kv # kvs)) \<Rightarrow> (tr, Inr (key < snd kv)))"

text \<open>The loop of \<^verbatim>\<open>InsertRange\<close> over the entries that start inside the range.\<close>

fun fillGaps ::
  "'tx writableTransaction \<Rightarrow> RangeSet \<Rightarrow> 'tx \<Rightarrow> bytes \<Rightarrow> bool \<Rightarrow> kv list \<Rightarrow>
     'tx \<times> (rangeSetError, bytes \<times> bool) result" where
  "fillGaps ops rs tr lastSeen changed [] = (tr, Inr (lastSeen, changed))"
| "fillGaps ops rs tr lastSeen changed (kv # kvs) =
     (if lastSeen < fst kv then
        case rsUnpack rs (fst kv) of
          Inl err \<Rightarrow> (tr, Inl err)
        | Inr keyBytes \<Rightarrow>
            let tr = opSet ops tr lastSeen keyBytes
            in case opAddWriteConflictRange ops tr lastSeen (fst kv) of
                 (tr, Some err) \<Rightarrow> (tr, Inl (RangeSetTransaction err))
               | (tr, None) \<Rightarrow> fillGaps ops rs tr (rsPack rs (snd kv)) True kvs
      else fillGaps ops rs tr (rsPack rs (snd kv)) changed kvs)"

text \<open>The entry that starts last at or before a packed key.\<close>

definition rsBefore ::
  "'tx writableTransaction \<Rightarrow> RangeSet \<Rightarrow> 'tx \<Rightarrow> bytes \<Rightarrow> 'tx \<times> (int, kv list) result" where
  "rsBefore ops rs tr keyAfterBegin =
     opGetRange ops tr (fst (subspace_FDBRangeKeys (rsSubspace rs))) keyAfterBegin
       \<lparr>Limit = 1, Mode = 0, Reverse = True\<rparr> True"

text \<open>
  The part of \<^verbatim>\<open>InsertRange\<close> after its two scans with \<^verbatim>\<open>requireEmpty\<close> set, and the part without it from
  the start \<^verbatim>\<open>lastSeen\<close> of what may be missing.
\<close>

definition insertIfEmpty ::
  "'tx writableTransaction \<Rightarrow> 'tx \<Rightarrow> bytes \<Rightarrow> bytes \<Rightarrow> bytes \<Rightarrow> bytes \<Rightarrow> kv option \<Rightarrow> kv list \<Rightarrow>
     'tx \<times> (rangeSetError, bool) result" where
  "insertIfEmpty ops tr beginNonNull endNonNull frobnicatedBegin frobnicatedEnd beforeKV afterKVs =
     (if length afterKVs > 0 then (tr, Inr False)
      else
        let (tr, err) =
          (case beforeKV of
             Some kv \<Rightarrow>
               if snd kv = beginNonNull then
                 case opAddReadConflictKey ops tr (fst kv) of
                   (tr, Some err) \<Rightarrow> (tr, Some err)
                 | (tr, None) \<Rightarrow> (opSet ops tr (fst kv) endNonNull, None)
               else (opSet ops tr frobnicatedBegin endNonNull, None)
           | None \<Rightarrow> (opSet ops tr frobnicatedBegin endNonNull, None))
        in case err of
             Some e \<Rightarrow> (tr, Inl (RangeSetTransaction e))
           | None \<Rightarrow>
               case opAddWriteConflictRange ops tr frobnicatedBegin frobnicatedEnd of
                 (tr, Some e) \<Rightarrow> (tr, Inl (RangeSetTransaction e))
               | (tr, None) \<Rightarrow> (tr, Inr True))"

definition insertMissing ::
  "'tx writableTransaction \<Rightarrow> RangeSet \<Rightarrow> 'tx \<Rightarrow> bytes \<Rightarrow> bytes \<Rightarrow> bytes \<Rightarrow> kv list \<Rightarrow>
     'tx \<times> (rangeSetError, bool) result" where
  "insertMissing ops rs tr endNonNull frobnicatedEnd lastSeen afterKVs =
     (case fillGaps ops rs tr lastSeen False afterKVs of
        (tr, Inl err) \<Rightarrow> (tr, Inl err)
      | (tr, Inr (lastSeen, changed)) \<Rightarrow>
          if lastSeen < frobnicatedEnd then
            let tr = opSet ops tr lastSeen endNonNull
            in case opAddWriteConflictRange ops tr lastSeen frobnicatedEnd of
                 (tr, Some err) \<Rightarrow> (tr, Inl (RangeSetTransaction err))
               | (tr, None) \<Rightarrow> (tr, Inr True)
          else (tr, Inr changed))"

text \<open>A nil bound stands for the first and the final key.\<close>

definition InsertRange ::
  "'tx writableTransaction \<Rightarrow> RangeSet \<Rightarrow> 'tx \<Rightarrow> bytes option \<Rightarrow> bytes option \<Rightarrow> bool \<Rightarrow>
     'tx \<times> (rangeSetError, bool) result" where
  "InsertRange ops rs tr begin end requireEmpty =
     (let beginNonNull = (case begin of None \<Rightarrow> rangeSetFirstKey | Some b \<Rightarrow> b);
          endNonNull = (case end of None \<Rightarrow> rangeSetFinalKey | Some e \<Rightarrow> e)
      in case rangeSetCheckKey beginNonNull of
           Some err \<Rightarrow> (tr, Inl err)
         | None \<Rightarrow>
             if beginNonNull > endNonNull then (tr, Inl (RangeSetInvertedRangeError beginNonNull endNonNull))
             else if beginNonNull = endNonNull then (tr, Inr False)
             else
               let frobnicatedBegin = rsPack rs beginNonNull;
                   frobnicatedEnd = rsPack rs endNonNull
               in case opAddReadConflictRange ops tr frobnicatedBegin frobnicatedEnd of
                    (tr, Some err) \<Rightarrow> (tr, Inl (RangeSetTransaction err))
                  | (tr, None) \<Rightarrow>
                      let keyAfterBegin = rangeSetKeyAfter frobnicatedBegin
                      in case rsBefore ops rs tr keyAfterBegin of
                           (tr, Inl err) \<Rightarrow> (tr, Inl (RangeSetTransaction err))
                         | (tr, Inr beforeKVs) \<Rightarrow>
                             case opGetRange ops tr keyAfterBegin frobnicatedEnd
                                 \<lparr>Limit = (if requireEmpty then 1 else 0), Mode = 0, Reverse = False\<rparr> True of
                               (tr, Inl err) \<Rightarrow> (tr, Inl (RangeSetTransaction err))
                             | (tr, Inr afterKVs) \<Rightarrow>
                                 let beforeKV = (case beforeKVs of [] \<Rightarrow> None | kv # kvs \<Rightarrow> Some kv);
                                     covers = (case beforeKV of None \<Rightarrow> False | Some kv \<Rightarrow> beginNonNull < snd kv)
                                 in if covers \<and> requireEmpty then (tr, Inr False)
                                    else
                                      let lastSeen = (case beforeKV of
                                            Some kv \<Rightarrow> if covers then rsPack rs (snd kv) else frobnicatedBegin
                                          | None \<Rightarrow> frobnicatedBegin)
                                      in if requireEmpty
                                         then insertIfEmpty ops tr beginNonNull endNonNull frobnicatedBegin frobnicatedEnd
                                                beforeKV afterKVs
                                         else insertMissing ops rs tr endNonNull frobnicatedEnd lastSeen afterKVs)"

text \<open>The loop of \<^verbatim>\<open>MissingRanges\<close> with the final gap after it.\<close>

fun missingLoop ::
  "RangeSet \<Rightarrow> int \<Rightarrow> bytes \<Rightarrow> bytes \<Rightarrow> RangeSetRange list \<Rightarrow> kv list \<Rightarrow> (rangeSetError, RangeSetRange list) result" where
  "missingLoop rs limit endNonNull currBegin results [] =
     Inr (if currBegin < endNonNull \<and> (limit \<le> 0 \<or> int (length results) < limit)
          then results @ [\<lparr>rsBegin = currBegin, rsEnd = endNonNull\<rparr>] else results)"
| "missingLoop rs limit endNonNull currBegin results (kv # kvs) =
     (case rsUnpack rs (fst kv) of
        Inl err \<Rightarrow> Inl err
      | Inr nextBegin \<Rightarrow>
          if currBegin < nextBegin then
            let results = results @ [\<lparr>rsBegin = currBegin, rsEnd = nextBegin\<rparr>]
            in if limit > 0 \<and> int (length results) \<ge> limit then Inr results
               else missingLoop rs limit endNonNull (snd kv) results kvs
          else missingLoop rs limit endNonNull (snd kv) results kvs)"

definition MissingRanges ::
  "'tx writableTransaction \<Rightarrow> RangeSet \<Rightarrow> 'tx \<Rightarrow> bytes option \<Rightarrow> bytes option \<Rightarrow> int \<Rightarrow>
     'tx \<times> (rangeSetError, RangeSetRange list) result" where
  "MissingRanges ops rs tr begin end limit =
     (let beginNonNull = (case begin of None \<Rightarrow> rangeSetFirstKey | Some b \<Rightarrow> b);
          endNonNull = (case end of None \<Rightarrow> rangeSetFinalKey | Some e \<Rightarrow> e)
      in case rangeSetCheckKey beginNonNull of
           Some err \<Rightarrow> (tr, Inl err)
         | None \<Rightarrow>
             if beginNonNull > endNonNull then (tr, Inl (RangeSetInvertedRangeError beginNonNull endNonNull))
             else if beginNonNull = endNonNull then (tr, Inr [])
             else
               let frobnicatedBegin = rsPack rs beginNonNull;
                   frobnicatedEnd = rsPack rs endNonNull
               in case opAddReadConflictRange ops tr frobnicatedBegin frobnicatedEnd of
                    (tr, Some err) \<Rightarrow> (tr, Inl (RangeSetTransaction err))
                  | (tr, None) \<Rightarrow>
                      let keyAfterBegin = rangeSetKeyAfter frobnicatedBegin
                      in case rsBefore ops rs tr keyAfterBegin of
                           (tr, Inl err) \<Rightarrow> (tr, Inl (RangeSetTransaction err))
                         | (tr, Inr beforeKVs) \<Rightarrow>
                             case opGetRange ops tr keyAfterBegin frobnicatedEnd
                                 \<lparr>Limit = 0, Mode = 0, Reverse = False\<rparr> True of
                               (tr, Inl err) \<Rightarrow> (tr, Inl (RangeSetTransaction err))
                             | (tr, Inr afterKVs) \<Rightarrow>
                                 let currBegin = (case beforeKVs of
                                       [] \<Rightarrow> beginNonNull
                                     | kv # kvs \<Rightarrow> if beginNonNull < snd kv then snd kv else beginNonNull)
                                 in (tr, missingLoop rs limit endNonNull currBegin [] afterKVs))"

definition IsEmpty :: "'tx writableTransaction \<Rightarrow> RangeSet \<Rightarrow> 'tx \<Rightarrow> 'tx \<times> (rangeSetError, bool) result" where
  "IsEmpty ops rs tr =
     (case MissingRanges ops rs tr None None 1 of
        (tr, Inl err) \<Rightarrow> (tr, Inl err)
      | (tr, Inr ranges) \<Rightarrow>
          (tr, Inr (if length ranges = 1
                    then rsBegin (ranges ! 0) = rangeSetFirstKey \<and> rsEnd (ranges ! 0) = rangeSetFinalKey
                    else False)))"

definition rsClear :: "'tx writableTransaction \<Rightarrow> RangeSet \<Rightarrow> 'tx \<Rightarrow> 'tx" where
  "rsClear ops rs tr = (let (begin, end) = subspace_FDBRangeKeys (rsSubspace rs) in opClearRange ops tr begin end)"

section \<open>Keys of entries\<close>

lemma rsPack_code: "rsPack rs k = rawPrefix (rsSubspace rs) @ 0x01 # escape k @ [0]"
proof -
  have "packable [EBytes k]" by (simp add: packable_def)
  then show ?thesis
    by (simp add: rsPack_def subspace_Pack_def PackWithPrefix_code)
qed

lemma rsPack_less [simp]: "rsPack rs a < rsPack rs b \<longleftrightarrow> a < b"
proof -
  have *: "rsPack rs a < rsPack rs b" if "a < b" for a b
  proof -
    have "(escape a @ [0]) @ [] < (escape b @ [0]) @ []"
      using below_escape [OF that] unfolding below_def by (meson ok_rest_simps(1))
    then show ?thesis by (simp add: rsPack_code lex_simps)
  qed
  then show ?thesis by (metis linorder_neqE order_less_asym order_less_irrefl)
qed

lemma rsPack_inject [simp]: "rsPack rs a = rsPack rs b \<longleftrightarrow> a = b"
  by (metis rsPack_less less_irrefl linorder_neqE)

lemma rsPack_le [simp]: "rsPack rs a \<le> rsPack rs b \<longleftrightarrow> a \<le> b"
  by (meson leD leI rsPack_less)

lemma rsUnpack_rsPack [simp]: "rsUnpack rs (rsPack rs b) = Inr b"
proof -
  have "Unpack (tuple_code False [EBytes b]) = Inr (map norm_elem [EBytes b])"
    by (rule Unpack_code) (simp_all add: tuple_wf_def packable_def)
  then have "fastUnpack (0x01 # escape b @ [0]) = Inr [EBytes b]"
    using fastUnpack_value [of "0x01 # escape b @ [0]"] by simp
  then show ?thesis
    by (simp add: rsUnpack_def SubspaceUnpack_def rsPack_code subspace_Bytes_def)
qed

lemma rsPack_window:
  "fst (subspace_FDBRangeKeys (rsSubspace rs)) \<le> rsPack rs b" "rsPack rs b < snd (subspace_FDBRangeKeys (rsSubspace rs))"
  by (simp_all add: subspace_FDBRangeKeys_def rsPack_code lex_simps)

section \<open>The specification\<close>

text \<open>
  The entries of a view, from the start of a range to its end; the subspace holds well-formed entries of
  disjoint non-empty ranges and nothing else.
\<close>

definition rsEntries :: "RangeSet \<Rightarrow> (bytes \<Rightarrow> bytes option) \<Rightarrow> bytes \<Rightarrow> bytes option" where
  "rsEntries rs V b = V (rsPack rs b)"

definition rsWellFormed :: "RangeSet \<Rightarrow> (bytes \<Rightarrow> bytes option) \<Rightarrow> bool" where
  "rsWellFormed rs V \<longleftrightarrow> intervals (rsEntries rs V) \<and>
     (\<forall>k. fst (subspace_FDBRangeKeys (rsSubspace rs)) \<le> k \<and> k < snd (subspace_FDBRangeKeys (rsSubspace rs)) \<and>
        V k \<noteq> None \<longrightarrow> (\<exists>b. b \<noteq> [] \<and> k = rsPack rs b))"

definition rsCovered :: "RangeSet \<Rightarrow> (bytes \<Rightarrow> bytes option) \<Rightarrow> bytes set" where
  "rsCovered rs V = spanned (rsEntries rs V)"

lemma rsEntries_update:
  "rsEntries rs (V(rsPack rs b := v)) = (rsEntries rs V)(b := v)"
  by (auto simp: rsEntries_def)

lemma rsWellFormedD:
  assumes "rsWellFormed rs V" and "V k = Some v" and "fst (subspace_FDBRangeKeys (rsSubspace rs)) \<le> k"
    and "k < snd (subspace_FDBRangeKeys (rsSubspace rs))"
  obtains b where "b \<noteq> []" and "k = rsPack rs b" and "rsEntries rs V b = Some v"
proof -
  have "\<exists>b. b \<noteq> [] \<and> k = rsPack rs b" using assms unfolding rsWellFormed_def by blast
  with assms(2) that show ?thesis by (auto simp: rsEntries_def)
qed

lemma rsEntries_nonempty:
  assumes "rsWellFormed rs V" and "rsEntries rs V b = Some e"
  shows "b \<noteq> []" and "b < e"
proof -
  obtain b' where "b' \<noteq> []" "rsPack rs b = rsPack rs b'"
    using rsWellFormedD [OF assms(1)] assms(2) rsPack_window [of rs b] unfolding rsEntries_def by metis
  then show "b \<noteq> []" by simp
  show "b < e" using assms by (auto simp: rsWellFormed_def intervals_def)
qed

lemma rsWellFormed_update:
  assumes "rsWellFormed rs V" and "intervals ((rsEntries rs V)(b := Some e))" and "b \<noteq> []"
  shows "rsWellFormed rs (V(rsPack rs b := Some e))"
  using assms unfolding rsWellFormed_def rsEntries_update by auto

text \<open>The entries among the rows of a scan.\<close>

lemma rsScan_rows:
  assumes wf: "rsWellFormed rs V" and R: "rowsIn V (rangeSetKeyAfter (rsPack rs b)) (rsPack rs e) R"
    and l: "b < l \<or> b = l \<and> rsEntries rs V b = None" and gap: "\<And>x. b < x \<Longrightarrow> x < l \<Longrightarrow> rsEntries rs V x = None"
  shows "\<exists>A. R = map (\<lambda>(x, y). (rsPack rs x, y)) A \<and> entriesFrom (rsEntries rs V) l e A"
proof -
  define A where "A = map (\<lambda>(k, v). (projr (rsUnpack rs k), v)) R"
  have shape: "\<exists>x. k = rsPack rs x" if kv: "(k, v) \<in> set R" for k v
  proof -
    have k: "rangeSetKeyAfter (rsPack rs b) \<le> k" "k < rsPack rs e" "V k = Some v"
      using kv by (simp_all add: rowsIn_set [OF R])
    have "rsPack rs b < k" using k(1) keyAfter_le_iff by (simp add: rangeSetKeyAfter_def keyAfter_def)
    then have "fst (subspace_FDBRangeKeys (rsSubspace rs)) \<le> k" using rsPack_window(1) [of rs b] by simp
    moreover have "k < snd (subspace_FDBRangeKeys (rsSubspace rs))"
      using k(2) rsPack_window(2) [of rs e] by (rule less_trans)
    ultimately show ?thesis using rsWellFormedD [OF wf k(3)] by metis
  qed
  have "map ((\<lambda>(x, y). (rsPack rs x, y)) \<circ> (\<lambda>(k, v). (projr (rsUnpack rs k), v))) R = R"
  proof (rule map_idI)
    fix r assume "r \<in> set R"
    then obtain x where "fst r = rsPack rs x" using shape [of "fst r" "snd r"] by auto
    then show "((\<lambda>(x, y). (rsPack rs x, y)) \<circ> (\<lambda>(k, v). (projr (rsUnpack rs k), v))) r = r" by (cases r) simp
  qed
  then have RA: "R = map (\<lambda>(x, y). (rsPack rs x, y)) A" by (simp add: A_def)
  have mem: "(x, y) \<in> set A \<longleftrightarrow> (rsPack rs x, y) \<in> set R" for x y
    unfolding RA by auto
  have "(x, y) \<in> set A \<longleftrightarrow> rsEntries rs V x = Some y \<and> l \<le> x \<and> x < e" for x y
  proof -
    have "rangeSetKeyAfter (rsPack rs b) \<le> rsPack rs x \<longleftrightarrow> b < x"
      using keyAfter_le_iff [of "rsPack rs b"] by (simp add: rangeSetKeyAfter_def keyAfter_def)
    then have "(x, y) \<in> set A \<longleftrightarrow> rsEntries rs V x = Some y \<and> b < x \<and> x < e"
      unfolding mem rowsIn_set [OF R] by (auto simp: rsEntries_def)
    moreover have "b < x \<longleftrightarrow> l \<le> x" if "rsEntries rs V x = Some y"
    proof
      assume "b < x"
      then show "l \<le> x" using gap [of x] that by (cases "x < l") auto
    next
      assume "l \<le> x"
      then show "b < x" using l that by (cases "x = l") auto
    qed
    ultimately show ?thesis by blast
  qed
  moreover have "sorted_wrt (<) (map fst A)"
    using R unfolding rowsIn_def RA by (simp add: sorted_wrt_map case_prod_beta')
  ultimately show ?thesis using RA unfolding entriesFrom_def by blast
qed

section \<open>Loops and gaps\<close>

definition rangeOf :: "bytes \<times> bytes \<Rightarrow> RangeSetRange" where
  "rangeOf g = \<lparr>rsBegin = fst g, rsEnd = snd g\<rparr>"

abbreviation rsRow :: "RangeSet \<Rightarrow> bytes \<times> bytes \<Rightarrow> kv" where
  "rsRow rs \<equiv> \<lambda>(x, y). (rsPack rs x, y)"

lemma missingLoop_gaps:
  assumes "limit \<le> 0 \<or> int (length results) < limit"
  shows "missingLoop rs limit e l results (map (rsRow rs) A) =
    Inr (let G = results @ map rangeOf (gapsTo l A e) in if limit \<le> 0 then G else take (nat limit) G)"
  using assms
proof (induction A arbitrary: l results)
  case Nil
  then show ?case by (auto simp: rangeOf_def Let_def)
next
  case (Cons p A)
  obtain x y where p: "p = (x, y)" by (cases p)
  show ?case
  proof (cases "l < x \<and> limit > 0 \<and> int (length results) + 1 \<ge> limit")
    case True
    with Cons.prems have "nat limit = Suc (length results)" by linarith
    with True show ?thesis by (simp add: p Let_def rangeOf_def)
  next
    case False
    with Cons.prems Cons.IH [of "results @ [rangeOf (l, x)]" y] Cons.IH [of results y] show ?thesis
      by (auto simp: p Let_def rangeOf_def)
  qed
qed

definition insertView :: "RangeSet \<Rightarrow> (bytes \<Rightarrow> bytes option) \<Rightarrow> (bytes \<times> bytes) list \<Rightarrow> bytes \<Rightarrow> bytes option" where
  "insertView rs V G = foldl (\<lambda>V (x, y). V(rsPack rs x := Some y)) V G"

lemma insertView_simps [simp]:
  "insertView rs V [] = V" "insertView rs V ((x, y) # G) = insertView rs (V(rsPack rs x := Some y)) G"
  "insertView rs V (G @ H) = insertView rs (insertView rs V G) H"
  by (simp_all add: insertView_def)

lemma rsEntries_insertView: "rsEntries rs (insertView rs V G) = insertAll (rsEntries rs V) G"
  by (induction G arbitrary: V) (auto simp: rsEntries_update)

lemma insertView_shape:
  assumes "\<forall>k. P k \<and> V k \<noteq> None \<longrightarrow> (\<exists>b. b \<noteq> [] \<and> k = rsPack rs b)" and "\<forall>(x, y) \<in> set G. x \<noteq> []"
  shows "\<forall>k. P k \<and> insertView rs V G k \<noteq> None \<longrightarrow> (\<exists>b. b \<noteq> [] \<and> k = rsPack rs b)"
  using assms
proof (induction G arbitrary: V)
  case (Cons g G)
  obtain x y where g: "g = (x, y)" by (cases g)
  have "\<forall>k. P k \<and> (V(rsPack rs x := Some y)) k \<noteq> None \<longrightarrow> (\<exists>b. b \<noteq> [] \<and> k = rsPack rs b)"
    using Cons.prems g by auto
  then show ?case unfolding g insertView_simps using Cons.prems(2) by (intro Cons.IH) simp_all
qed simp

lemma insertView_outside: "\<forall>x. k \<noteq> rsPack rs x \<Longrightarrow> insertView rs V G k = V k"
  by (induction G arbitrary: V) auto

text \<open>The start of what may be missing: the end of the entry before, if it covers the start of the range.\<close>

definition missingFrom :: "bytes \<Rightarrow> kv list \<Rightarrow> bytes" where
  "missingFrom b before = (case before of [] \<Rightarrow> b | kv # kvs \<Rightarrow> if b < snd kv then snd kv else b)"

definition isBefore :: "RangeSet \<Rightarrow> (bytes \<Rightarrow> bytes option) \<Rightarrow> bytes \<Rightarrow> kv list \<Rightarrow> bool" where
  "isBefore rs V b r \<longleftrightarrow>
     (case r of
        [] \<Rightarrow> \<forall>x. x \<le> b \<longrightarrow> rsEntries rs V x = None
      | kv # r' \<Rightarrow> \<exists>x. fst kv = rsPack rs x \<and> rsEntries rs V x = Some (snd kv) \<and> x \<le> b \<and>
          (\<forall>y. x < y \<and> y \<le> b \<longrightarrow> rsEntries rs V y = None))"

lemma missingFrom_spec:
  assumes wf: "rsWellFormed rs V" and r: "isBefore rs V b r" and l: "l = missingFrom b r"
  shows "aligned (rsEntries rs V) l" and "b \<le> l" and "{b..<l} \<subseteq> rsCovered rs V"
    and "b < l \<or> b = l \<and> rsEntries rs V b = None"
    and "\<And>x. b < x \<Longrightarrow> x < l \<Longrightarrow> rsEntries rs V x = None"
    and "b < l \<longleftrightarrow> b \<in> rsCovered rs V"
proof -
  let ?m = "rsEntries rs V"
  have m: "intervals ?m" using wf by (simp add: rsWellFormed_def)
  have *: "aligned ?m l \<and> b \<le> l \<and> {b..<l} \<subseteq> spanned ?m \<and> (b < l \<or> b = l \<and> ?m b = None) \<and>
      (\<forall>x. b < x \<and> x < l \<longrightarrow> ?m x = None) \<and> (b < l \<longleftrightarrow> b \<in> spanned ?m)"
  proof (cases r)
    case Nil
    then have l: "l = b" and none: "\<And>x. x \<le> b \<Longrightarrow> ?m x = None" using r l by (auto simp: isBefore_def missingFrom_def)
    have "aligned ?m b" using none by (auto simp: aligned_def)
    with none spanned_none [of b ?m] show ?thesis by (auto simp: l)
  next
    case (Cons kv r')
    then obtain x where x: "?m x = Some (snd kv)" "x \<le> b" and none: "\<And>y. x < y \<Longrightarrow> y \<le> b \<Longrightarrow> ?m y = None"
      using r by (auto simp: isBefore_def)
    have cov: "b \<in> spanned ?m \<longleftrightarrow> b < snd kv" using spanned_last [OF m x none] .
    show ?thesis
    proof (cases "b < snd kv")
      case True
      then have l: "l = snd kv" using l Cons by (simp add: missingFrom_def)
      have "aligned ?m l" unfolding aligned_def l
      proof (intro allI impI)
        fix y e assume y: "?m y = Some e" "y < snd kv"
        show "e \<le> snd kv"
        proof (cases "y = x")
          case False
          then consider "y < x" | "x < y" by (meson linorder_neqE)
          then show ?thesis
          proof cases
            case 1
            then have "e \<le> x" using intervalsD(2) [OF m y(1) x(1)] by simp
            then show ?thesis using intervalsD(1) [OF m x(1)] by simp
          next
            case 2
            then have "snd kv \<le> y" using intervalsD(2) [OF m x(1) y(1)] by simp
            with y(2) show ?thesis by simp
          qed
        qed (use x y in auto)
      qed
      moreover have "?m y = None" if "b < y" "y < l" for y
        using intervalsD(2) [OF m x(1), of y] le_less_trans [OF x(2) that(1)] that(2) l
        by (cases "?m y") (auto simp: not_le)
      moreover have "{b..<l} \<subseteq> spanned ?m" using spannedI [of ?m x "snd kv"] x l by (auto intro: order_trans)
      ultimately show ?thesis using True cov l by auto
    next
      case False
      then have l: "l = b" using l Cons by (simp add: missingFrom_def)
      have "?m b = None"
        using none [of b] x(2) False intervalsD(1) [OF m x(1)] x(1) by (cases "x = b") auto
      moreover have "aligned ?m b" unfolding aligned_def
      proof (intro allI impI)
        fix y e assume y: "?m y = Some e" "y < b"
        have "y \<le> x" using none [of y] y less_imp_le [OF y(2)] by (cases "x < y") auto
        then show "e \<le> b"
        proof (cases "y = x")
          case False
          with \<open>y \<le> x\<close> have "e \<le> x" using intervalsD(2) [OF m y(1) x(1)] by simp
          then show ?thesis using x(2) by simp
        qed (use x(1) y False in auto)
      qed
      ultimately show ?thesis using False cov by (auto simp: l)
    qed
  qed
  then show "aligned ?m l" "b \<le> l" "{b..<l} \<subseteq> rsCovered rs V" "b < l \<or> b = l \<and> ?m b = None"
    "\<And>x. b < x \<Longrightarrow> x < l \<Longrightarrow> ?m x = None" "b < l \<longleftrightarrow> b \<in> rsCovered rs V"
    unfolding rsCovered_def by blast+
qed

lemma diff_from: "(b :: bytes) \<le> l \<Longrightarrow> {b..<l} \<subseteq> C \<Longrightarrow> {l..<e} - C = {b..<e} - C"
  by (auto simp: subset_iff not_le [symmetric])

lemma rsCovered_first:
  assumes "rsWellFormed rs V" and "k \<in> rsCovered rs V"
  shows "rangeSetFirstKey \<le> k"
proof -
  obtain b e where b: "rsEntries rs V b = Some e" "b \<le> k" using assms(2) by (auto simp: rsCovered_def spanned_def)
  have "b \<noteq> []" using rsEntries_nonempty(1) [OF assms(1) b(1)] .
  then have "rangeSetFirstKey \<le> b" by (cases b) (auto simp: word_gt_0)
  with b(2) show ?thesis by simp
qed

section \<open>The operations under the contract of a transaction\<close>

context kv_transaction
begin

lemma rsBefore_spec:
  assumes "ready tx" and wf: "rsWellFormed rs (view tx)"
  shows "\<exists>tx' r. rsBefore ops rs tx (rangeSetKeyAfter (rsPack rs b)) = (tx', Inr r) \<and> ready tx' \<and>
    view tx' = view tx \<and> isBefore rs (view tx) b r"
proof -
  let ?lo = "fst (subspace_FDBRangeKeys (rsSubspace rs))" and ?hi = "rangeSetKeyAfter (rsPack rs b)"
  have hi: "k < ?hi \<longleftrightarrow> k \<le> rsPack rs b" for k
    using less_keyAfter_iff [of k "rsPack rs b"] by (simp add: rangeSetKeyAfter_def keyAfter_def)
  obtain tx' r where t: "rsBefore ops rs tx ?hi = (tx', Inr r)" "ready tx'" "view tx' = view tx"
    and r: "case r of
       [] \<Rightarrow> \<forall>k. ?lo \<le> k \<and> k < ?hi \<longrightarrow> view tx k = None
     | (k, v) # r' \<Rightarrow> r' = [] \<and> ?lo \<le> k \<and> k < ?hi \<and> view tx k = Some v \<and>
         (\<forall>k'. k < k' \<and> k' < ?hi \<longrightarrow> view tx k' = None)"
    using range_last [OF assms(1), of "\<lparr>Limit = 1, Mode = 0, Reverse = True\<rparr>" ?lo ?hi True]
    unfolding rsBefore_def by auto
  have "isBefore rs (view tx) b r"
  proof (cases r)
    case Nil
    with r show ?thesis by (simp add: isBefore_def rsEntries_def hi rsPack_window(1))
  next
    case (Cons kv r')
    obtain k v where kv: "kv = (k, v)" by (cases kv)
    with r Cons have k: "?lo \<le> k" "k \<le> rsPack rs b" "view tx k = Some v"
      and none: "\<And>k'. k < k' \<Longrightarrow> k' \<le> rsPack rs b \<Longrightarrow> view tx k' = None" by (auto simp: hi)
    have "k < snd (subspace_FDBRangeKeys (rsSubspace rs))"
      using k(2) rsPack_window(2) [of rs b] by (rule le_less_trans)
    then obtain x where x: "k = rsPack rs x" "rsEntries rs (view tx) x = Some v"
      using rsWellFormedD [OF wf k(3) k(1)] by metis
    then show ?thesis using k(2) none by (auto simp: isBefore_def Cons kv rsEntries_def)
  qed
  with t show ?thesis by blast
qed

lemma rsAfter_spec:
  assumes "ready tx" and "card (dom (view tx)) \<le> maxRows"
    and wf: "rsWellFormed rs (view tx)" and r: "isBefore rs (view tx) b r"
  shows "\<exists>tx' A. opGetRange ops tx (rangeSetKeyAfter (rsPack rs b)) (rsPack rs e)
      \<lparr>Limit = 0, Mode = 0, Reverse = False\<rparr> True = (tx', Inr (map (rsRow rs) A)) \<and> ready tx' \<and>
    view tx' = view tx \<and> entriesFrom (rsEntries rs (view tx)) (missingFrom b r) e A"
proof -
  note m = missingFrom_spec [OF wf r refl]
  obtain tx' R where t: "opGetRange ops tx (rangeSetKeyAfter (rsPack rs b)) (rsPack rs e)
      \<lparr>Limit = 0, Mode = 0, Reverse = False\<rparr> True = (tx', Inr R)" "ready tx'" "view tx' = view tx"
    and R: "rowsIn (view tx) (rangeSetKeyAfter (rsPack rs b)) (rsPack rs e) R"
    using range_all [OF assms(1,2), of "\<lparr>Limit = 0, Mode = 0, Reverse = False\<rparr>" "rangeSetKeyAfter (rsPack rs b)"
      "rsPack rs e" True] by auto
  from rsScan_rows [OF wf R m(4,5)] t show ?thesis by auto
qed

lemma contains_spec:
  assumes "ready tx" and wf: "rsWellFormed rs (view tx)" and "rangeSetCheckKey key = None"
  shows "\<exists>tx'. Contains ops rs tx key = (tx', Inr (key \<in> rsCovered rs (view tx))) \<and> ready tx' \<and> view tx' = view tx"
proof -
  obtain t1 where t1: "opAddReadConflictKey ops tx (rsPack rs key) = (t1, None)" "ready t1" "view t1 = view tx"
    using readConflictKey_view [OF assms(1)] by blast
  obtain t2 r where t2: "rsBefore ops rs t1 (rangeSetKeyAfter (rsPack rs key)) = (t2, Inr r)" "ready t2" "view t2 = view t1"
    and r: "isBefore rs (view tx) key r"
    using rsBefore_spec [OF t1(2), of rs key] wf unfolding t1(3) by blast
  have "Contains ops rs tx key = (t2, Inr (case r of [] \<Rightarrow> False | kv # kvs \<Rightarrow> key < snd kv))"
    using t2(1) by (simp add: Contains_def assms(3) t1(1) rsBefore_def Let_def split: list.split)
  moreover have "(case r of [] \<Rightarrow> False | kv # kvs \<Rightarrow> key < snd kv) \<longleftrightarrow> key < missingFrom key r"
    by (auto simp: missingFrom_def split: list.split)
  ultimately show ?thesis
    using missingFrom_spec(6) [OF wf r refl] t1 t2 by auto
qed

lemma missing_spec:
  assumes "ready tx" and "card (dom (view tx)) \<le> maxRows" and wf: "rsWellFormed rs (view tx)"
    and "rangeSetCheckKey b = None" and "b < e"
  shows "\<exists>tx' G. MissingRanges ops rs tx (Some b) (Some e) limit =
      (tx', Inr (if limit \<le> 0 then map rangeOf G else take (nat limit) (map rangeOf G))) \<and>
    ready tx' \<and> view tx' = view tx \<and> spaced G \<and> unionOf G = {b..<e} - rsCovered rs (view tx)"
proof -
  obtain t1 where t1: "opAddReadConflictRange ops tx (rsPack rs b) (rsPack rs e) = (t1, None)" "ready t1" "view t1 = view tx"
    using readConflict_view [OF assms(1), of "rsPack rs b" "rsPack rs e"] less_imp_le [OF assms(5)] by auto
  obtain t2 r where t2: "rsBefore ops rs t1 (rangeSetKeyAfter (rsPack rs b)) = (t2, Inr r)" "ready t2" "view t2 = view tx"
    and r: "isBefore rs (view tx) b r"
    using rsBefore_spec [OF t1(2), of rs b] wf unfolding t1(3) by blast
  obtain t3 A where t3: "opGetRange ops t2 (rangeSetKeyAfter (rsPack rs b)) (rsPack rs e)
      \<lparr>Limit = 0, Mode = 0, Reverse = False\<rparr> True = (t3, Inr (map (rsRow rs) A))" "ready t3" "view t3 = view tx"
    and A: "entriesFrom (rsEntries rs (view tx)) (missingFrom b r) e A"
    using rsAfter_spec [OF t2(2), of rs b r e] assms(2) wf r unfolding t2(3) by blast
  define l where "l = missingFrom b r"
  note m = missingFrom_spec [OF wf r l_def]
  have "intervals (rsEntries rs (view tx))" using wf by (simp add: rsWellFormed_def)
  note g = gapsTo_spec [OF this m(1) A [folded l_def]]
  have "MissingRanges ops rs tx (Some b) (Some e) limit =
      (t3, missingLoop rs limit e l [] (map (rsRow rs) A))"
    using assms(4,5) less_imp_neq [OF assms(5)]
    by (simp add: MissingRanges_def Let_def t1(1) t2(1) t3(1) l_def missingFrom_def less_not_sym)
  moreover have "{l..<e} - rsCovered rs (view tx) = {b..<e} - rsCovered rs (view tx)"
    using m(2,3) by (rule diff_from)
  ultimately show ?thesis using g t3 missingLoop_gaps [of limit "[]" rs e l A]
    unfolding rsCovered_def by (auto simp: Let_def intro!: exI [of _ "gapsTo l A e"])
qed

lemma fillGaps_spec:
  assumes "ready tx"
  shows "\<exists>tx' l' G. fillGaps ops rs tx (rsPack rs l) changed (map (rsRow rs) A) =
      (tx', Inr (rsPack rs l', changed \<or> G \<noteq> [])) \<and> ready tx' \<and> view tx' = insertView rs (view tx) G \<and>
    gapsTo l A e = G @ gapsTo l' [] e"
  using assms
proof (induction A arbitrary: tx l changed)
  case Nil
  then show ?case by (intro exI [of _ tx] exI [of _ l] exI [of _ "[]"]) simp
next
  case (Cons p A)
  obtain x y where p: "p = (x, y)" by (cases p)
  show ?case
  proof (cases "l < x")
    case False
    with Cons.IH [OF Cons.prems, of y changed] show ?thesis by (simp add: p)
  next
    case True
    let ?t = "opSet ops tx (rsPack rs l) x"
    have s: "ready ?t" "view ?t = (view tx)(rsPack rs l := Some x)" using set_view [OF Cons.prems] by simp_all
    obtain t1 where t1: "opAddWriteConflictRange ops ?t (rsPack rs l) (rsPack rs x) = (t1, None)" "ready t1" "view t1 = view ?t"
      using writeConflict_view [OF s(1), of "rsPack rs l" "rsPack rs x"] less_imp_le [OF True] by auto
    from Cons.IH [OF t1(2), of y True] obtain t2 l' G where
      g: "fillGaps ops rs t1 (rsPack rs y) True (map (rsRow rs) A) = (t2, Inr (rsPack rs l', True))" "ready t2"
        "view t2 = insertView rs (view t1) G" "gapsTo y A e = G @ gapsTo l' [] e" by auto
    have "fillGaps ops rs tx (rsPack rs l) changed (map (rsRow rs) (p # A)) = (t2, Inr (rsPack rs l', True))"
      using True t1(1) g(1) by (simp add: p Let_def)
    moreover have "view t2 = insertView rs (view tx) ((l, x) # G)" using g(3) t1(3) s(2) by simp
    moreover have "gapsTo l (p # A) e = ((l, x) # G) @ gapsTo l' [] e" using True g(4) by (simp add: p)
    ultimately show ?thesis using g(2) by (intro exI [of _ t2] exI [of _ l'] exI [of _ "(l, x) # G"]) simp
  qed
qed

lemma insertMissing_spec:
  assumes "ready tx"
  shows "\<exists>tx'. insertMissing ops rs tx e (rsPack rs e) (rsPack rs l) (map (rsRow rs) A) =
      (tx', Inr (gapsTo l A e \<noteq> [])) \<and> ready tx' \<and> view tx' = insertView rs (view tx) (gapsTo l A e)"
proof -
  obtain t1 l' G where g: "fillGaps ops rs tx (rsPack rs l) False (map (rsRow rs) A) = (t1, Inr (rsPack rs l', G \<noteq> []))"
      "ready t1" "view t1 = insertView rs (view tx) G" "gapsTo l A e = G @ gapsTo l' [] e"
    using fillGaps_spec [OF assms, of rs l False A e] by auto
  show ?thesis
  proof (cases "l' < e")
    case False
    with g show ?thesis by (simp add: insertMissing_def)
  next
    case True
    let ?t = "opSet ops t1 (rsPack rs l') e"
    have s: "ready ?t" "view ?t = (view t1)(rsPack rs l' := Some e)" using set_view [OF g(2)] by simp_all
    obtain t2 where t2: "opAddWriteConflictRange ops ?t (rsPack rs l') (rsPack rs e) = (t2, None)" "ready t2" "view t2 = view ?t"
      using writeConflict_view [OF s(1), of "rsPack rs l'" "rsPack rs e"] less_imp_le [OF True] by auto
    with True g s show ?thesis by (simp add: insertMissing_def Let_def)
  qed
qed

lemma insert_spec:
  assumes "ready tx" and "card (dom (view tx)) \<le> maxRows" and wf: "rsWellFormed rs (view tx)"
    and chk: "rangeSetCheckKey b = None" and be: "b < e"
  shows "\<exists>tx'. InsertRange ops rs tx (Some b) (Some e) False = (tx', Inr (\<not> {b..<e} \<subseteq> rsCovered rs (view tx))) \<and>
    ready tx' \<and> rsWellFormed rs (view tx') \<and> rsCovered rs (view tx') = rsCovered rs (view tx) \<union> {b..<e} \<and>
    (\<forall>k. (\<forall>x. k \<noteq> rsPack rs x) \<longrightarrow> view tx' k = view tx k)"
proof -
  obtain t1 where t1: "opAddReadConflictRange ops tx (rsPack rs b) (rsPack rs e) = (t1, None)" "ready t1" "view t1 = view tx"
    using readConflict_view [OF assms(1), of "rsPack rs b" "rsPack rs e"] less_imp_le [OF be] by auto
  obtain t2 r where t2: "rsBefore ops rs t1 (rangeSetKeyAfter (rsPack rs b)) = (t2, Inr r)" "ready t2" "view t2 = view tx"
    and r: "isBefore rs (view tx) b r"
    using rsBefore_spec [OF t1(2), of rs b] wf unfolding t1(3) by blast
  obtain t3 A where t3: "opGetRange ops t2 (rangeSetKeyAfter (rsPack rs b)) (rsPack rs e)
      \<lparr>Limit = 0, Mode = 0, Reverse = False\<rparr> True = (t3, Inr (map (rsRow rs) A))" "ready t3" "view t3 = view tx"
    and A: "entriesFrom (rsEntries rs (view tx)) (missingFrom b r) e A"
    using rsAfter_spec [OF t2(2), of rs b r e] assms(2) wf r unfolding t2(3) by blast
  define l where "l = missingFrom b r"
  define G where "G = gapsTo l A e"
  note m = missingFrom_spec [OF wf r l_def]
  have i: "intervals (rsEntries rs (view tx))" using wf by (simp add: rsWellFormed_def)
  have g: "unionOf G = {l..<e} - spanned (rsEntries rs (view tx))" "spaced G" "\<forall>(x, y) \<in> set G. l \<le> x"
    using gapsTo_spec [OF i m(1) A [folded l_def]] unfolding G_def by blast+
  have u: "unionOf G = {b..<e} - rsCovered rs (view tx)"
    using g(1) diff_from [OF m(2,3)] by (simp add: rsCovered_def)
  have ins: "intervals (insertAll (rsEntries rs (view tx)) G)"
      "spanned (insertAll (rsEntries rs (view tx)) G) = rsCovered rs (view tx) \<union> {b..<e}"
    using intervals_inserts [OF i g(2)] u by (auto simp: rsCovered_def)
  obtain t4 where t4: "insertMissing ops rs t3 e (rsPack rs e) (rsPack rs l) (map (rsRow rs) A) = (t4, Inr (G \<noteq> []))"
      "ready t4" "view t4 = insertView rs (view tx) G"
    using insertMissing_spec [OF t3(2), of rs e l A] unfolding t3(3) G_def by blast
  have "InsertRange ops rs tx (Some b) (Some e) False =
      insertMissing ops rs t3 e (rsPack rs e) (rsPack rs (missingFrom b r)) (map (rsRow rs) A)"
    using be less_imp_neq [OF be]
    by (cases r) (simp_all add: InsertRange_def Let_def chk t1(1) t2(1) t3(1) less_not_sym missingFrom_def)
  then have "InsertRange ops rs tx (Some b) (Some e) False = (t4, Inr (G \<noteq> []))"
    using t4(1) by (simp add: l_def)
  moreover have "G \<noteq> [] \<longleftrightarrow> \<not> {b..<e} \<subseteq> rsCovered rs (view tx)"
  proof -
    have "G \<noteq> [] \<longleftrightarrow> unionOf G \<noteq> {}" using g(2) by (cases G) (auto simp: spaced_def)
    then show ?thesis using u by blast
  qed
  moreover have "b \<noteq> []" using chk by (auto simp: rangeSetCheckKey_def)
  then have "\<forall>(x, y) \<in> set G. x \<noteq> []" using g(3) m(2) by (fastforce dest: order_trans)
  then have "rsWellFormed rs (view t4)"
    using wf ins(1) insertView_shape [of "\<lambda>k. fst (subspace_FDBRangeKeys (rsSubspace rs)) \<le> k \<and>
        k < snd (subspace_FDBRangeKeys (rsSubspace rs))" "view tx" rs G]
    unfolding rsWellFormed_def t4(3) rsEntries_insertView by blast
  moreover have "rsCovered rs (view t4) = rsCovered rs (view tx) \<union> {b..<e}"
    unfolding t4(3) using ins(2) by (simp add: rsCovered_def rsEntries_insertView)
  moreover have "view t4 k = view tx k" if "\<forall>x. k \<noteq> rsPack rs x" for k
    unfolding t4(3) using that by (rule insertView_outside)
  ultimately show ?thesis using t4(2) by auto
qed

text \<open>The test of \<^verbatim>\<open>requireEmpty\<close>: no entry covers the start and none starts inside.\<close>

lemma rsFirst_spec:
  assumes "ready tx" and wf: "rsWellFormed rs (view tx)" and r: "isBefore rs (view tx) b r"
    and "\<not> b < missingFrom b r"
  shows "\<exists>tx' R. opGetRange ops tx (rangeSetKeyAfter (rsPack rs b)) (rsPack rs e)
      \<lparr>Limit = 1, Mode = 0, Reverse = False\<rparr> True = (tx', Inr R) \<and> ready tx' \<and> view tx' = view tx \<and>
    (R = [] \<longleftrightarrow> rsCovered rs (view tx) \<inter> {b..<e} = {})"
proof -
  note m = missingFrom_spec [OF wf r refl]
  have l: "missingFrom b r = b" using m(4) assms(4) by auto
  have i: "intervals (rsEntries rs (view tx))" using wf by (simp add: rsWellFormed_def)
  obtain tx' R where t: "opGetRange ops tx (rangeSetKeyAfter (rsPack rs b)) (rsPack rs e)
      \<lparr>Limit = 1, Mode = 0, Reverse = False\<rparr> True = (tx', Inr (take 1 R))" "ready tx'" "view tx' = view tx"
    and R: "rowsIn (view tx) (rangeSetKeyAfter (rsPack rs b)) (rsPack rs e) R"
    using range_view [OF assms(1), of "\<lparr>Limit = 1, Mode = 0, Reverse = False\<rparr>" "rangeSetKeyAfter (rsPack rs b)"
      "rsPack rs e" True] by (auto simp: rowLimit_def)
  obtain A where A: "R = map (rsRow rs) A" "entriesFrom (rsEntries rs (view tx)) b e A"
    using rsScan_rows [OF wf R m(4,5)] l by auto
  have "take 1 R = [] \<longleftrightarrow> rsCovered rs (view tx) \<inter> {b..<e} = {}"
  proof (cases A)
    case Nil
    have "unionOf (gapsTo b [] e) = {b..<e} - spanned (rsEntries rs (view tx))"
      using gapsTo_spec [OF i m(1) [unfolded l] A(2)] Nil by blast
    then show ?thesis using A(1) Nil by (auto simp: rsCovered_def split: if_splits)
  next
    case (Cons p A')
    obtain x y where p: "p = (x, y)" by (cases p)
    note c = entriesFrom_Cons [OF i A(2) [unfolded Cons p]]
    have "x \<in> rsCovered rs (view tx)"
      using spannedI [of "rsEntries rs (view tx)" x y x] c(1) intervalsD(1) [OF i c(1)] by (simp add: rsCovered_def)
    moreover have "x \<in> {b..<e}" using c(2,3) by simp
    ultimately show ?thesis using A(1) Cons by auto
  qed
  with t show ?thesis by blast
qed

lemma insertIfEmpty_spec:
  assumes "ready tx" and wf: "rsWellFormed rs (view tx)" and r: "isBefore rs (view tx) b r" and "b \<noteq> []" and be: "b < e"
    and free: "rsCovered rs (view tx) \<inter> {b..<e} = {}"
  shows "\<exists>tx'. insertIfEmpty ops tx b e (rsPack rs b) (rsPack rs e) (case r of [] \<Rightarrow> None | kv # kvs \<Rightarrow> Some kv) [] =
      (tx', Inr True) \<and> ready tx' \<and> rsWellFormed rs (view tx') \<and>
    rsCovered rs (view tx') = rsCovered rs (view tx) \<union> {b..<e} \<and>
    (\<forall>k. (\<forall>x. k \<noteq> rsPack rs x) \<longrightarrow> view tx' k = view tx k)"
proof -
  let ?m = "rsEntries rs (view tx)"
  have i: "intervals ?m" using wf by (simp add: rsWellFormed_def)
  have free': "{b..<e} \<inter> spanned ?m = {}" using free by (auto simp: rsCovered_def)
  have "\<exists>t x. ready t \<and> x \<noteq> [] \<and> view t = (view tx)(rsPack rs x := Some e) \<and> intervals (?m(x := Some e)) \<and>
      spanned (?m(x := Some e)) = spanned ?m \<union> {b..<e} \<and>
      insertIfEmpty ops tx b e (rsPack rs b) (rsPack rs e) (case r of [] \<Rightarrow> None | kv # kvs \<Rightarrow> Some kv) [] =
        (case opAddWriteConflictRange ops t (rsPack rs b) (rsPack rs e) of
           (tr, Some err) \<Rightarrow> (tr, Inl (RangeSetTransaction err)) | (tr, None) \<Rightarrow> (tr, Inr True))"
  proof (cases "\<exists>kv kvs. r = kv # kvs \<and> snd kv = b")
    case True
    then obtain k kvs where kv: "r = (k, b) # kvs" by force
    then obtain x where x: "k = rsPack rs x" "?m x = Some b" using r by (auto simp: isBefore_def)
    obtain t1 where t1: "opAddReadConflictKey ops tx k = (t1, None)" "ready t1" "view t1 = view tx"
      using readConflictKey_view [OF assms(1)] by blast
    have "ready (opSet ops t1 k e)" "view (opSet ops t1 k e) = (view tx)(rsPack rs x := Some e)"
      using set_view [OF t1(2), of k e] t1(3) x(1) by simp_all
    moreover have "x \<noteq> []" using rsEntries_nonempty(1) [OF wf x(2)] .
    ultimately show ?thesis using intervals_extend [OF i x(2) be free'] kv t1(1)
      by (intro exI [of _ "opSet ops t1 k e"] exI [of _ x]) (simp add: insertIfEmpty_def)
  next
    case False
    have "ready (opSet ops tx (rsPack rs b) e)" "view (opSet ops tx (rsPack rs b) e) = (view tx)(rsPack rs b := Some e)"
      using set_view [OF assms(1)] by simp_all
    then show ?thesis using intervals_insert [OF i be free'] False assms(4)
      by (intro exI [of _ "opSet ops tx (rsPack rs b) e"] exI [of _ b]) (auto simp: insertIfEmpty_def split: list.split)
  qed
  then obtain t x where t: "ready t" "x \<noteq> []" "view t = (view tx)(rsPack rs x := Some e)" "intervals (?m(x := Some e))"
      "spanned (?m(x := Some e)) = spanned ?m \<union> {b..<e}"
      "insertIfEmpty ops tx b e (rsPack rs b) (rsPack rs e) (case r of [] \<Rightarrow> None | kv # kvs \<Rightarrow> Some kv) [] =
        (case opAddWriteConflictRange ops t (rsPack rs b) (rsPack rs e) of
           (tr, Some err) \<Rightarrow> (tr, Inl (RangeSetTransaction err)) | (tr, None) \<Rightarrow> (tr, Inr True))"
    by blast
  obtain t2 where t2: "opAddWriteConflictRange ops t (rsPack rs b) (rsPack rs e) = (t2, None)" "ready t2" "view t2 = view t"
    using writeConflict_view [OF t(1), of "rsPack rs b" "rsPack rs e"] less_imp_le [OF be] by auto
  have "rsWellFormed rs (view t2)" unfolding t2(3) t(3) using wf t(4,2) by (rule rsWellFormed_update)
  moreover have "rsCovered rs (view t2) = rsCovered rs (view tx) \<union> {b..<e}"
    unfolding t2(3) t(3) rsCovered_def rsEntries_update using t(5) .
  ultimately show ?thesis using t t2 by auto
qed

lemma insertEmpty_spec:
  assumes "ready tx" and wf: "rsWellFormed rs (view tx)"
    and chk: "rangeSetCheckKey b = None" and be: "b < e"
  shows "\<exists>tx'. InsertRange ops rs tx (Some b) (Some e) True = (tx', Inr (rsCovered rs (view tx) \<inter> {b..<e} = {})) \<and>
    ready tx' \<and> rsWellFormed rs (view tx') \<and>
    (if rsCovered rs (view tx) \<inter> {b..<e} = {}
     then rsCovered rs (view tx') = rsCovered rs (view tx) \<union> {b..<e} \<and>
       (\<forall>k. (\<forall>x. k \<noteq> rsPack rs x) \<longrightarrow> view tx' k = view tx k)
     else view tx' = view tx)"
proof -
  obtain t1 where t1: "opAddReadConflictRange ops tx (rsPack rs b) (rsPack rs e) = (t1, None)" "ready t1" "view t1 = view tx"
    using readConflict_view [OF assms(1), of "rsPack rs b" "rsPack rs e"] less_imp_le [OF be] by auto
  obtain t2 r where t2: "rsBefore ops rs t1 (rangeSetKeyAfter (rsPack rs b)) = (t2, Inr r)" "ready t2" "view t2 = view tx"
    and r: "isBefore rs (view tx) b r"
    using rsBefore_spec [OF t1(2), of rs b] wf unfolding t1(3) by blast
  note m = missingFrom_spec [OF wf r refl]
  have neq: "b \<noteq> e" "\<not> e < b" using be by auto
  show ?thesis
  proof (cases "b < missingFrom b r")
    case True
    obtain t3 R where t3: "opGetRange ops t2 (rangeSetKeyAfter (rsPack rs b)) (rsPack rs e)
      \<lparr>Limit = 1, Mode = 0, Reverse = False\<rparr> True = (t3, Inr R)" "ready t3" "view t3 = view t2"
      using range_view [OF t2(2), of "\<lparr>Limit = 1, Mode = 0, Reverse = False\<rparr>" "rangeSetKeyAfter (rsPack rs b)"
        "rsPack rs e" True] by auto
    from True obtain kv kvs where kv: "r = kv # kvs" "b < snd kv" by (auto simp: missingFrom_def split: list.splits if_splits)
    have "InsertRange ops rs tx (Some b) (Some e) True = (t3, Inr False)"
      by (simp add: InsertRange_def Let_def chk t1(1) t2(1) t3(1) neq kv)
    moreover have "b \<in> rsCovered rs (view tx) \<inter> {b..<e}" using m(6) True be by simp
    ultimately show ?thesis using t2 t3 wf by auto
  next
    case False
    have nc: "\<not> (case case r of [] \<Rightarrow> None | kv # kvs \<Rightarrow> Some kv of None \<Rightarrow> False | Some kv \<Rightarrow> b < snd kv)"
      using False by (auto simp: missingFrom_def split: list.splits if_splits)
    have wf2: "rsWellFormed rs (view t2)" and r2: "isBefore rs (view t2) b r" using wf r t2(3) by simp_all
    obtain t3 R where t3: "opGetRange ops t2 (rangeSetKeyAfter (rsPack rs b)) (rsPack rs e)
      \<lparr>Limit = 1, Mode = 0, Reverse = False\<rparr> True = (t3, Inr R)" "ready t3" "view t3 = view tx"
      and R: "R = [] \<longleftrightarrow> rsCovered rs (view tx) \<inter> {b..<e} = {}"
      using rsFirst_spec [OF t2(2) wf2 r2 False, of e] unfolding t2(3) by blast
    have ins: "InsertRange ops rs tx (Some b) (Some e) True =
        insertIfEmpty ops t3 b e (rsPack rs b) (rsPack rs e) (case r of [] \<Rightarrow> None | kv # kvs \<Rightarrow> Some kv) R"
      using nc by (simp add: InsertRange_def Let_def chk t1(1) t2(1) t3(1) neq)
    show ?thesis
    proof (cases "R = []")
      case True
      have "b \<noteq> []" using chk by (auto simp: rangeSetCheckKey_def)
      with insertIfEmpty_spec [OF t3(2), of rs b r e] t3(3) wf r be R True show ?thesis
        unfolding ins True by auto
    next
      case False
      then show ?thesis unfolding ins using R t3 wf by (auto simp: insertIfEmpty_def)
    qed
  qed
qed

lemma isEmpty_spec:
  assumes "ready tx" and "card (dom (view tx)) \<le> maxRows" and wf: "rsWellFormed rs (view tx)"
  shows "\<exists>tx'. IsEmpty ops rs tx = (tx', Inr (rsCovered rs (view tx) \<inter> {..<rangeSetFinalKey} = {})) \<and>
    ready tx' \<and> view tx' = view tx"
proof -
  have "rangeSetCheckKey rangeSetFirstKey = None" "rangeSetFirstKey < rangeSetFinalKey" by (simp_all add: rangeSetCheckKey_def)
  from missing_spec [OF assms this, of 1] obtain tx' G where
    t: "MissingRanges ops rs tx (Some rangeSetFirstKey) (Some rangeSetFinalKey) 1 = (tx', Inr (take 1 (map rangeOf G)))"
      "ready tx'" "view tx' = view tx"
    and G: "spaced G" "unionOf G = {rangeSetFirstKey..<rangeSetFinalKey} - rsCovered rs (view tx)" by auto
  have "MissingRanges ops rs tx None None 1 = MissingRanges ops rs tx (Some rangeSetFirstKey) (Some rangeSetFinalKey) 1"
    by (simp add: MissingRanges_def)
  with t(1) have "IsEmpty ops rs tx = (tx', Inr (case G of [] \<Rightarrow> False | g # G' \<Rightarrow> g = (rangeSetFirstKey, rangeSetFinalKey)))"
    unfolding IsEmpty_def by (cases G) (auto simp: rangeOf_def)
  moreover have "(case G of [] \<Rightarrow> False | g # G' \<Rightarrow> g = (rangeSetFirstKey, rangeSetFinalKey)) \<longleftrightarrow>
      rsCovered rs (view tx) \<inter> {rangeSetFirstKey..<rangeSetFinalKey} = {}"
    using spaced_whole [OF G(1), of rangeSetFirstKey rangeSetFinalKey] G(2) by auto
  moreover have "rsCovered rs (view tx) \<inter> {rangeSetFirstKey..<rangeSetFinalKey} = rsCovered rs (view tx) \<inter> {..<rangeSetFinalKey}"
    using rsCovered_first [OF wf] by auto
  ultimately show ?thesis using t by auto
qed

lemma rsClear_spec:
  assumes "ready tx"
  shows "ready (rsClear ops rs tx) \<and> rsWellFormed rs (view (rsClear ops rs tx)) \<and> rsCovered rs (view (rsClear ops rs tx)) = {}"
proof -
  have v: "ready (rsClear ops rs tx)" "view (rsClear ops rs tx) =
      (\<lambda>k. if fst (subspace_FDBRangeKeys (rsSubspace rs)) \<le> k \<and> k < snd (subspace_FDBRangeKeys (rsSubspace rs))
           then None else view tx k)"
    using clearRange_view [OF assms] by (simp_all add: rsClear_def split: prod.split)
  then have "rsEntries rs (view (rsClear ops rs tx)) = (\<lambda>b. None)"
    using rsPack_window by (auto simp: rsEntries_def)
  with v show ?thesis by (auto simp: rsWellFormed_def rsCovered_def spanned_def intervals_def)
qed

end

section \<open>Properties\<close>

text \<open>The transactions of the witnesses: a range set in an empty database.\<close>

definition exampleRangeSet :: RangeSet where
  "exampleRangeSet = NewRangeSet (FromBytes [9])"

lemma example_wellFormed: "rsWellFormed rs (simView (newSimDB None) newTxn)" "rsCovered rs (simView (newSimDB None) newTxn) = {}"
  by (auto simp: simView_new rsWellFormed_def rsEntries_def rsCovered_def intervals_def spanned_def)

text \<open>
  (C14) Inserting a range adds exactly its keys.  In a transaction that sees at most \<open>2\<^sup>3\<^sup>1 - 1\<close> keys and whose
  range set is well formed, \<^verbatim>\<open>InsertRange\<close> without \<^verbatim>\<open>requireEmpty\<close> fills the gaps of the range: it reports a
  change exactly when some key of the range was missing, the entries stay disjoint, non-empty and
  well formed, and afterwards \<^verbatim>\<open>Contains\<close> is true of the keys that were in the set or are in the range.
\<close>

theorem InsertRange_Contains:
  assumes "simReady db tx" and "length (buildView db (ensureReadVersion db tx)) \<le> maxRows"
    and "rsWellFormed rs (simView db tx)" and "rangeSetCheckKey b = None" and "b < e"
  shows "\<exists>tx'. InsertRange (simOps db) rs tx (Some b) (Some e) False =
      (tx', Inr (\<not> {b..<e} \<subseteq> rsCovered rs (simView db tx))) \<and>
    simReady db tx' \<and> rsWellFormed rs (simView db tx') \<and>
    (\<forall>key. rangeSetCheckKey key = None \<longrightarrow>
       snd (Contains (simOps db) rs tx' key) = Inr (key \<in> rsCovered rs (simView db tx) \<or> b \<le> key \<and> key < e))"
proof -
  obtain tx' where t: "InsertRange (simOps db) rs tx (Some b) (Some e) False =
      (tx', Inr (\<not> {b..<e} \<subseteq> rsCovered rs (simView db tx)))" "simReady db tx'" "rsWellFormed rs (simView db tx')"
      "rsCovered rs (simView db tx') = rsCovered rs (simView db tx) \<union> {b..<e}"
    using sim.insert_spec [OF assms(1) card_simView [OF assms(1,2)] assms(3-5)] by blast
  have "snd (Contains (simOps db) rs tx' key) = Inr (key \<in> rsCovered rs (simView db tx) \<or> b \<le> key \<and> key < e)"
    if "rangeSetCheckKey key = None" for key
    using sim.contains_spec [OF t(2,3) that] t(4) by auto
  with t show ?thesis by blast
qed

theorem InsertRange_Contains_witness:
  "\<exists>tx'. InsertRange (simOps (newSimDB None)) exampleRangeSet newTxn (Some [2]) (Some [5]) False = (tx', Inr True) \<and>
     snd (Contains (simOps (newSimDB None)) exampleRangeSet tx' [4, 7]) = Inr True \<and>
     snd (Contains (simOps (newSimDB None)) exampleRangeSet tx' [5]) = Inr False"
proof -
  have chk: "rangeSetCheckKey [2] = None" "rangeSetCheckKey [4, 7] = None" "rangeSetCheckKey [5] = None"
    by (simp_all add: rangeSetCheckKey_def)
  have "\<not> {[2] ..< [5 :: byte]} \<subseteq> {}" by (auto intro!: exI [of _ "[2 :: byte]"])
  with InsertRange_Contains [OF simReady_new example_small example_wellFormed(1) chk(1), of "[5]" exampleRangeSet] chk
  show ?thesis by (auto simp: example_wellFormed(2))
qed

text \<open>
  (C7) \<^verbatim>\<open>InsertRange\<close> with \<^verbatim>\<open>requireEmpty\<close> tests and sets: it inserts the whole range and reports true exactly
  when no key of the range was in the set, also where it extends the entry that ends at the start of the
  range, and otherwise reports false and leaves every key of the database as it was.  Keys that are not
  entries of the set are never touched.
\<close>

theorem InsertRange_requireEmpty:
  assumes "simReady db tx" and "rsWellFormed rs (simView db tx)" and "rangeSetCheckKey b = None" and "b < e"
  shows "\<exists>tx'. InsertRange (simOps db) rs tx (Some b) (Some e) True =
      (tx', Inr (rsCovered rs (simView db tx) \<inter> {b..<e} = {})) \<and>
    simReady db tx' \<and> rsWellFormed rs (simView db tx') \<and>
    (if rsCovered rs (simView db tx) \<inter> {b..<e} = {}
     then rsCovered rs (simView db tx') = rsCovered rs (simView db tx) \<union> {b..<e} \<and>
       (\<forall>k. (\<forall>x. k \<noteq> rsPack rs x) \<longrightarrow> simView db tx' k = simView db tx k)
     else simView db tx' = simView db tx)"
  using sim.insertEmpty_spec [OF assms] .

theorem InsertRange_requireEmpty_witness:
  "\<exists>tx' tx''. InsertRange (simOps (newSimDB None)) exampleRangeSet newTxn (Some [2]) (Some [5]) True = (tx', Inr True) \<and>
     InsertRange (simOps (newSimDB None)) exampleRangeSet tx' (Some [4]) (Some [6]) True = (tx'', Inr False)"
proof -
  have chk: "rangeSetCheckKey [2] = None" "rangeSetCheckKey [4] = None" by (simp_all add: rangeSetCheckKey_def)
  obtain tx' where t: "InsertRange (simOps (newSimDB None)) exampleRangeSet newTxn (Some [2]) (Some [5]) True = (tx', Inr True)"
    "simReady (newSimDB None) tx'" "rsWellFormed exampleRangeSet (simView (newSimDB None) tx')"
    "rsCovered exampleRangeSet (simView (newSimDB None) tx') = {[2]..<[5]}"
    using InsertRange_requireEmpty [OF simReady_new example_wellFormed(1) chk(1), of "[5]" exampleRangeSet]
    by (auto simp: example_wellFormed(2))
  have "[4] \<in> {[2]..<[5]} \<inter> {[4 :: byte]..<[6]}" by simp
  then have "{[2]..<[5]} \<inter> {[4 :: byte]..<[6]} \<noteq> {}" by blast
  with InsertRange_requireEmpty [OF t(2,3) chk(2), of "[6]"] t(1,4) show ?thesis by auto
qed

text \<open>
  (C38) \<^verbatim>\<open>MissingRanges\<close> without a limit returns the gaps of the set inside the range: non-empty ranges in
  ascending order, no two of them touching, that together hold exactly the keys of the range which are
  not in the set; with a positive limit it returns the first of them.  \<^verbatim>\<open>IsEmpty\<close> is true exactly when the
  set has no key below the final key, and after \<^verbatim>\<open>Clear\<close> the set has no key at all.
\<close>

theorem MissingRanges_gaps:
  assumes "simReady db tx" and "length (buildView db (ensureReadVersion db tx)) \<le> maxRows"
    and "rsWellFormed rs (simView db tx)" and "rangeSetCheckKey b = None" and "b < e"
  shows "\<exists>G. snd (MissingRanges (simOps db) rs tx (Some b) (Some e) limit) =
      Inr (if limit \<le> 0 then map rangeOf G else take (nat limit) (map rangeOf G)) \<and>
    (\<forall>(x, y) \<in> set G. x < y) \<and> sorted_wrt (\<lambda>(x, y) (x', y'). y < x') G \<and>
    (\<Union>(x, y) \<in> set G. {x..<y}) = {b..<e} - rsCovered rs (simView db tx) \<and>
    snd (IsEmpty (simOps db) rs tx) = Inr (\<forall>k < rangeSetFinalKey. k \<notin> rsCovered rs (simView db tx)) \<and>
    rsCovered rs (simView db (rsClear (simOps db) rs tx)) = {}"
proof -
  note c = card_simView [OF assms(1,2)]
  obtain G where "snd (MissingRanges (simOps db) rs tx (Some b) (Some e) limit) =
      Inr (if limit \<le> 0 then map rangeOf G else take (nat limit) (map rangeOf G))"
      "spaced G" "unionOf G = {b..<e} - rsCovered rs (simView db tx)"
    using sim.missing_spec [OF assms(1) c assms(3-5), of limit] by auto
  moreover have "snd (IsEmpty (simOps db) rs tx) = Inr (\<forall>k < rangeSetFinalKey. k \<notin> rsCovered rs (simView db tx))"
    using sim.isEmpty_spec [OF assms(1) c assms(3)] by auto
  moreover have "rsCovered rs (simView db (rsClear (simOps db) rs tx)) = {}"
    using sim.rsClear_spec [OF assms(1)] by blast
  ultimately show ?thesis unfolding spaced_def unionOf_def by blast
qed

theorem MissingRanges_gaps_witness:
  "\<exists>G. snd (MissingRanges (simOps (newSimDB None)) exampleRangeSet newTxn (Some [2]) (Some [5]) 1) =
      Inr (take 1 (map rangeOf G)) \<and> (\<Union>(x, y) \<in> set G. {x..<y}) = {[2]..<[5]} \<and>
    snd (IsEmpty (simOps (newSimDB None)) exampleRangeSet newTxn) = Inr True"
  using MissingRanges_gaps [OF simReady_new example_small example_wellFormed(1), of "[2]" "[5]" exampleRangeSet 1]
  by (auto simp: example_wellFormed(2) rangeSetCheckKey_def)

end
