(* ===== verification/TupleOrdering.thy ===== *)
theory TupleOrdering
  imports TupleCompare
begin

unbundle bit_operations_syntax

text \<open>
  Directed tuple encodings (\<^verbatim>\<open>pkg/recordlayer/tupleordering/tupleordering.go\<close>): tuples packed so that
  their byte order is ascending or descending with nulls first or last.  Descending order inverts the
  packed bytes and spreads them over 7-bit groups; nulls last replaces a null by a byte above every
  type code.
\<close>

section \<open>Definitions\<close>

record Direction =
  Inverted :: bool
  CounterflowNulls :: bool

definition AscNullsFirst :: Direction where "AscNullsFirst = \<lparr>Inverted = False, CounterflowNulls = False\<rparr>"
definition AscNullsLast :: Direction where "AscNullsLast = \<lparr>Inverted = False, CounterflowNulls = True\<rparr>"
definition DescNullsFirst :: Direction where "DescNullsFirst = \<lparr>Inverted = True, CounterflowNulls = True\<rparr>"
definition DescNullsLast :: Direction where "DescNullsLast = \<lparr>Inverted = True, CounterflowNulls = False\<rparr>"

abbreviation nullLastByte :: byte where "nullLastByte \<equiv> 0xFE"

fun PackNullsLast :: "tuple \<Rightarrow> (pack_panic, bytes) result" where
  "PackNullsLast [] = Inr []"
| "PackNullsLast (elem # t) =
     (if elem = ENil then map_sum id (\<lambda>buf. nullLastByte # buf) (PackNullsLast t)
      else case Pack [elem] of
             Inl e \<Rightarrow> Inl e
           | Inr p \<Rightarrow> map_sum id (\<lambda>buf. p @ buf) (PackNullsLast t))"

subsection \<open>Inverting\<close>

text \<open>
  The accumulator \<^verbatim>\<open>bits\<close> is a Go \<^verbatim>\<open>int\<close>, a 64-bit word whose high bits are shifted out.  The
  preallocated output array is the list of the bytes written so far; writing past its end and ending
  short of it both stop the program, and the comparison of the lengths at the end stands for both.
\<close>

function drain7 :: "64 word \<Rightarrow> nat \<Rightarrow> bytes \<Rightarrow> nat \<times> bytes" where
  "drain7 bits nbits out =
     (if nbits \<ge> 7
      then drain7 bits (nbits - 7) (out @ [ucast (signed_drop_bit (nbits - 7) bits AND 0x7F)])
      else (nbits, out))"
  by pat_completeness auto
termination
  by (relation "measure (\<lambda>(bits, nbits, out). nbits)") auto

declare drain7.simps [simp del]

fun invertLoop :: "bytes \<Rightarrow> 64 word \<Rightarrow> nat \<Rightarrow> bytes \<Rightarrow> 64 word \<times> nat \<times> bytes" where
  "invertLoop [] bits nbits out = (bits, nbits, out)"
| "invertLoop (b # input) bits nbits out =
     (let bits = push_bit 8 bits OR (ucast b XOR 0xFF);
          nbits = nbits + 8;
          (nbits, out) = drain7 bits nbits out
      in invertLoop input bits nbits out)"

datatype invert_panic = WrongOutputLength

definition Invert :: "bytes \<Rightarrow> (invert_panic, bytes) result" where
  "Invert input =
     (let originalLength = length input;
          invertedLength = (originalLength * 8 + 6) div 7 + 1;
          (bits, nbits, out) = invertLoop input 0 0 [];
          out = (if nbits = 0 then out @ [0x80]
                 else let npad = 7 - nbits
                      in out @ [ucast ((push_bit npad bits OR (push_bit npad 1 - 1)) AND 0x7F),
                                ucast (0x80 OR push_bit 4 (of_nat npad :: 64 word))])
      in if length out \<noteq> invertedLength then Inl WrongOutputLength else Inr out)"

datatype uninvert_error =
  BadFormat | OddLength | HighBitSet nat | UninvertLength

function drain8 :: "64 word \<Rightarrow> nat \<Rightarrow> bytes \<Rightarrow> nat \<times> bytes" where
  "drain8 bits nbits out =
     (if nbits \<ge> 8
      then drain8 bits (nbits - 8) (out @ [ucast (signed_drop_bit (nbits - 8) bits)])
      else (nbits, out))"
  by pat_completeness auto
termination
  by (relation "measure (\<lambda>(bits, nbits, out). nbits)") auto

declare drain8.simps [simp del]

text \<open>The loop over all bytes but the last, at offset \<open>i\<close>.\<close>

fun uninvertLoop :: "bytes \<Rightarrow> nat \<Rightarrow> 64 word \<Rightarrow> nat \<Rightarrow> bytes \<Rightarrow> (uninvert_error, bytes) result" where
  "uninvertLoop [] i bits nbits out = Inr out"
| "uninvertLoop (b # inverted) i bits nbits out =
     (let next = (ucast b :: 64 word) XOR 0x7F
      in if next AND 0x80 \<noteq> 0 then Inl (HighBitSet i)
         else let bits = push_bit 7 bits OR next;
                  nbits = nbits + 7;
                  (nbits, out) = drain8 bits nbits out
              in uninvertLoop inverted (i + 1) bits nbits out)"

definition Uninvert :: "bytes \<Rightarrow> (uninvert_error, bytes) result" where
  "Uninvert inverted =
     (let invertedLength = length inverted
      in if invertedLength = 0 \<or> inverted ! (invertedLength - 1) AND 0x80 = 0 then Inl BadFormat
         else let npadBits = int (unat (drop_bit 4 (inverted ! (invertedLength - 1) AND 0x70)));
                  uninvertedBitLength = (int invertedLength - 1) * 7 - npadBits
              in if uninvertedBitLength mod 8 \<noteq> 0 then Inl OddLength
                 else let uninvertedLength = uninvertedBitLength div 8
                      in case uninvertLoop (butlast inverted) 0 0 0 [] of
                           Inl e \<Rightarrow> Inl e
                         | Inr out \<Rightarrow> if int (length out) \<noteq> uninvertedLength then Inl UninvertLength else Inr out)"

subsection \<open>Element boundaries\<close>

datatype endpos_error =
  BeyondData nat | UnterminatedString nat | UnterminatedNested nat | Truncated nat
| UnknownCode byte nat | InNested endpos_error

text \<open>The scan for an unescaped terminator from index \<open>i\<close>.\<close>

function scanString :: "bytes \<Rightarrow> nat \<Rightarrow> nat option" where
  "scanString data i =
     (if i < length data then
        if data ! i = 0x00 then
          (if i + 1 < length data \<and> data ! (i + 1) = 0xFF then scanString data (i + 2) else Some (i + 1))
        else scanString data (i + 1)
      else None)"
  by pat_completeness auto
termination
  by (relation "measure (\<lambda>(data, i). length data - i)") auto

declare scanString.simps [simp del]

definition fixedEnd :: "bytes \<Rightarrow> nat \<Rightarrow> nat \<Rightarrow> (endpos_error, nat) result" where
  "fixedEnd data pos end = (if end > length data then Inl (Truncated pos) else Inr end)"

text \<open>The cases of \<^verbatim>\<open>ElementEndPos\<close> other than a nested tuple.\<close>

definition flatEndPos :: "bytes \<Rightarrow> nat \<Rightarrow> (endpos_error, nat) result" where
  "flatEndPos data pos =
     (let typeCode = data ! pos
      in if typeCode = 0x00 then Inr (pos + 1)
         else if typeCode = 0x01 \<or> typeCode = 0x02 then
           (case scanString data (pos + 1) of None \<Rightarrow> Inl (UnterminatedString pos) | Some e \<Rightarrow> Inr e)
         else if typeCode = 0x14 then Inr (pos + 1)
         else if 0x0C \<le> typeCode \<and> typeCode \<le> 0x13 then
           fixedEnd data pos (pos + 1 + unat (0x14 - typeCode))
         else if 0x15 \<le> typeCode \<and> typeCode \<le> 0x1C then
           fixedEnd data pos (pos + 1 + unat (typeCode - 0x14))
         else if typeCode = 0x0B then
           (if pos + 1 \<ge> length data then Inl (Truncated pos)
            else fixedEnd data pos (pos + 2 + (255 - unat (data ! (pos + 1)))))
         else if typeCode = 0x1D then
           (if pos + 1 \<ge> length data then Inl (Truncated pos)
            else fixedEnd data pos (pos + 2 + unat (data ! (pos + 1))))
         else if typeCode = 0x20 then fixedEnd data pos (pos + 5)
         else if typeCode = 0x21 then fixedEnd data pos (pos + 9)
         else if typeCode = 0x26 then Inr (pos + 1)
         else if typeCode = 0x27 then Inr (pos + 1)
         else if typeCode = 0x30 then fixedEnd data pos (pos + 17)
         else if typeCode = 0x33 then fixedEnd data pos (pos + 13)
         else Inl (UnknownCode typeCode pos))"

lemma scanString_gt: "scanString data i = Some e \<Longrightarrow> i < e"
proof (induction "length data - i" arbitrary: i rule: less_induct)
  case less
  have IH: "scanString data k = Some e \<Longrightarrow> i < k \<Longrightarrow> i < length data \<Longrightarrow> i < e" for k
    using less.hyps [of k] by (simp add: diff_less_mono2)
  from less.prems show ?case
    by (subst (asm) scanString.simps) (auto split: if_splits intro: IH)
qed

lemma flatEndPos_gt: "flatEndPos data pos = Inr e \<Longrightarrow> pos < e"
  by (auto simp: flatEndPos_def fixedEnd_def Let_def split: if_splits option.splits dest: scanString_gt)

text \<open>
  The loop over the inside of a nested tuple.  Its recursive call of \<^verbatim>\<open>ElementEndPos\<close> is at a byte
  other than 0x00 and 0x05, so it is one of the flat cases.
\<close>

function nestedEndLoop :: "bytes \<Rightarrow> nat \<Rightarrow> nat \<Rightarrow> (endpos_error, nat \<times> nat) result" where
  "nestedEndLoop data i depth =
     (if i < length data \<and> depth > 0 then
        if data ! i = 0x05 then nestedEndLoop data (i + 1) (depth + 1)
        else if data ! i = 0x00 then
          (if i + 1 < length data \<and> data ! (i + 1) = 0xFF then nestedEndLoop data (i + 2) depth
           else nestedEndLoop data (i + 1) (depth - 1))
        else case flatEndPos data i of
               Inl err \<Rightarrow> Inl (InNested err)
             | Inr end \<Rightarrow> nestedEndLoop data end depth
      else Inr (i, depth))"
  by pat_completeness auto
termination
  by (relation "measure (\<lambda>(data, i, depth). length data - i)") (auto dest: flatEndPos_gt)

declare nestedEndLoop.simps [simp del]

definition ElementEndPos :: "bytes \<Rightarrow> nat \<Rightarrow> (endpos_error, nat) result" where
  "ElementEndPos data pos =
     (if pos \<ge> length data then Inl (BeyondData pos)
      else if data ! pos = 0x05 then
        (case nestedEndLoop data (pos + 1) 1 of
           Inl e \<Rightarrow> Inl e
         | Inr (i, depth) \<Rightarrow> if depth \<noteq> 0 then Inl (UnterminatedNested pos) else Inr i)
      else flatEndPos data pos)"

lemma nestedEndLoop_ge: "nestedEndLoop data i depth = Inr (j, d) \<Longrightarrow> i \<le> j"
proof (induction "length data - i" arbitrary: i depth rule: less_induct)
  case less
  have IH: "nestedEndLoop data k m = Inr (j, d) \<Longrightarrow> i < k \<Longrightarrow> i < length data \<Longrightarrow> i \<le> j" for k m
    using less.hyps [of k m] by (simp add: diff_less_mono2)
  from less.prems show ?case
    by (subst (asm) nestedEndLoop.simps)
      (auto split: if_splits sum.splits intro: IH dest!: flatEndPos_gt)
qed

lemma ElementEndPos_gt: "ElementEndPos data pos = Inr e \<Longrightarrow> pos < e"
  by (auto simp: ElementEndPos_def split: if_splits sum.splits dest: flatEndPos_gt dest!: nestedEndLoop_ge)

datatype nulls_last_error =
  EndPos nat endpos_error | UnpackElement nat decode_error | ElementCount nat nat

function unpackNullsLastLoop :: "bytes \<Rightarrow> nat \<Rightarrow> tuple \<Rightarrow> (nulls_last_error, tuple) result" where
  "unpackNullsLastLoop data pos res =
     (if pos < length data then
        if data ! pos = nullLastByte then unpackNullsLastLoop data (pos + 1) (res @ [ENil])
        else case ElementEndPos data pos of
               Inl err \<Rightarrow> Inl (EndPos pos err)
             | Inr endPos \<Rightarrow>
                 (case Unpack (drop pos (take endPos data)) of
                    Inl err \<Rightarrow> Inl (UnpackElement pos err)
                  | Inr elemTuple \<Rightarrow>
                      if length elemTuple \<noteq> 1 then Inl (ElementCount pos (length elemTuple))
                      else unpackNullsLastLoop data endPos (res @ [elemTuple ! 0]))
      else Inr res)"
  by pat_completeness auto
termination
  by (relation "measure (\<lambda>(data, pos, res). length data - pos)") (auto dest: ElementEndPos_gt)

declare unpackNullsLastLoop.simps [simp del]

definition UnpackNullsLast :: "bytes \<Rightarrow> (nulls_last_error, tuple) result" where
  "UnpackNullsLast data = unpackNullsLastLoop data 0 []"

subsection \<open>Directions\<close>

datatype ordering_panic = PackPanic pack_panic | InvertPanic invert_panic

definition ordering_Pack :: "tuple \<Rightarrow> Direction \<Rightarrow> (ordering_panic, bytes) result" where
  "ordering_Pack t dir =
     (case (if CounterflowNulls dir then PackNullsLast t else Pack t) of
        Inl e \<Rightarrow> Inl (PackPanic e)
      | Inr b \<Rightarrow> if Inverted dir then map_sum InvertPanic id (Invert b) else Inr b)"

datatype ordering_error =
  UninvertError uninvert_error | NullsLastError nulls_last_error | UnpackError decode_error

definition ordering_Unpack :: "bytes \<Rightarrow> Direction \<Rightarrow> (ordering_error, tuple) result" where
  "ordering_Unpack b dir =
     (case (if Inverted dir then map_sum UninvertError id (Uninvert b) else Inr b) of
        Inl e \<Rightarrow> Inl e
      | Inr data \<Rightarrow>
          if CounterflowNulls dir then map_sum NullsLastError id (UnpackNullsLast data)
          else map_sum UnpackError id (Unpack data))"


section \<open>Inverting is reversing the order of bit strings\<close>

subsection \<open>Low bits, most significant first\<close>

definition low :: "'a :: len word \<Rightarrow> nat \<Rightarrow> bool list" where
  "low w n = map (bit w) (rev [0..<n])"

lemma length_low [simp]: "length (low w n) = n"
  by (simp add: low_def)

lemma low_0 [simp]: "low w 0 = []"
  by (simp add: low_def)

lemma low_nth: "i < n \<Longrightarrow> low w n ! i = bit w (n - Suc i)"
  by (simp add: low_def rev_nth)

lemma low_eqI: "(\<And>i. i < n \<Longrightarrow> bit v i = bit w i) \<Longrightarrow> low v n = low w n"
  by (simp add: low_def)

lemma low_split: "k \<le> n \<Longrightarrow> low w n = take (n - k) (low w n) @ low w k"
  by (intro nth_equalityI) (auto simp: nth_append low_nth)

lemma low_shift:
  fixes bits x :: "64 word"
  assumes "n + k \<le> 64" and "\<And>i. k \<le> i \<Longrightarrow> \<not> bit x i"
  shows "low (push_bit k bits OR x) (n + k) = low bits n @ low x k"
proof (intro nth_equalityI)
  fix i assume "i < length (low (push_bit k bits OR x) (n + k))"
  then show "low (push_bit k bits OR x) (n + k) ! i = (low bits n @ low x k) ! i"
    using assms by (auto simp: nth_append low_nth bit_or_iff bit_push_bit_iff add.commute)
qed simp

lemma low_group:
  fixes bits :: "64 word"
  assumes "k + m \<le> 64" and "m \<le> 8"
  shows "low (ucast (signed_drop_bit k bits) :: byte) m = take m (low bits (k + m))"
proof (intro nth_equalityI)
  fix i assume "i < length (low (ucast (signed_drop_bit k bits) :: byte) m)"
  then show "low (ucast (signed_drop_bit k bits) :: byte) m ! i = take m (low bits (k + m)) ! i"
    using assms by (auto simp: low_nth bit_unsigned_iff bit_signed_drop_bit_iff add.commute)
qed simp

lemma bit_7F: "bit (0x7F :: 64 word) i \<longleftrightarrow> i < 7"
proof -
  have "(0x7F :: 64 word) = mask 7" by (simp add: mask_eq_exp_minus_1)
  then show ?thesis by (subst \<open>_ = mask 7\<close>) (subst bit_mask_iff, auto)
qed

lemma bit_FF: "bit (0xFF :: 64 word) i \<longleftrightarrow> i < 8"
proof -
  have "(0xFF :: 64 word) = mask 8" by (simp add: mask_eq_exp_minus_1)
  then show ?thesis by (subst \<open>_ = mask 8\<close>) (subst bit_mask_iff, auto)
qed

lemma low_group7:
  fixes bits :: "64 word"
  assumes "k + 7 \<le> 64"
  shows "low (ucast (signed_drop_bit k bits AND 0x7F) :: byte) 7 = take 7 (low bits (k + 7))"
    and "\<not> bit (ucast (signed_drop_bit k bits AND 0x7F) :: byte) 7"
proof -
  show "low (ucast (signed_drop_bit k bits AND 0x7F) :: byte) 7 = take 7 (low bits (k + 7))"
    unfolding low_group [OF assms, symmetric, simplified]
    by (rule low_eqI) (simp only: bit_unsigned_iff bit_and_iff bit_7F, simp)
  show "\<not> bit (ucast (signed_drop_bit k bits AND 0x7F) :: byte) 7"
    by (simp only: bit_unsigned_iff bit_and_iff bit_7F, simp)
qed

definition groups7 :: "bytes \<Rightarrow> bool list" where
  "groups7 bs = concat (map (\<lambda>b. low b 7) bs)"

definition groups8 :: "bytes \<Rightarrow> bool list" where
  "groups8 bs = concat (map (\<lambda>b. low b 8) bs)"

lemma groups_simps [simp]:
  "groups7 [] = []" "groups7 (b # bs) = low b 7 @ groups7 bs" "groups7 (as @ bs) = groups7 as @ groups7 bs"
  "groups8 [] = []" "groups8 (b # bs) = low b 8 @ groups8 bs" "groups8 (as @ bs) = groups8 as @ groups8 bs"
  by (simp_all add: groups7_def groups8_def)

lemma length_groups [simp]: "length (groups7 bs) = 7 * length bs" "length (groups8 bs) = 8 * length bs"
  by (induction bs) simp_all

subsection \<open>The two loops\<close>

lemma drain7_spec:
  "n \<le> 64 \<Longrightarrow> \<exists>D. drain7 bits n out = (n mod 7, out @ D) \<and> groups7 D @ low bits (n mod 7) = low bits n \<and>
     (\<forall>d \<in> set D. \<not> bit d 7)"
proof (induction bits n out rule: drain7.induct)
  case (1 bits n out)
  show ?case
  proof (cases "7 \<le> n")
    case True
    let ?d = "ucast (signed_drop_bit (n - 7) bits AND 0x7F) :: byte"
    have m: "(n - 7) mod 7 = n mod 7" "n - 7 \<le> 64" using True "1.prems" by (simp_all add: le_mod_geq)
    obtain D where D: "drain7 bits (n - 7) (out @ [?d]) = (n mod 7, (out @ [?d]) @ D)"
      "groups7 D @ low bits (n mod 7) = low bits (n - 7)" "\<forall>d \<in> set D. \<not> bit d 7"
      using "1.IH" [OF True m(2)] m(1) by auto
    have "low ?d 7 = take 7 (low bits n)" "\<not> bit ?d 7"
      using low_group7 [of "n - 7" bits] True "1.prems" by auto
    moreover have "low bits n = take 7 (low bits n) @ low bits (n - 7)"
      using low_split [of "n - 7" n bits] True by simp
    ultimately have "groups7 (?d # D) @ low bits (n mod 7) = low bits n" "\<forall>d \<in> set (?d # D). \<not> bit d 7"
      using D by auto
    moreover have "drain7 bits n out = (n mod 7, out @ ?d # D)" using D True by (simp add: drain7.simps [of bits n])
    ultimately show ?thesis by blast
  next
    case False
    then show ?thesis by (simp add: drain7.simps [of bits n])
  qed
qed


lemma drain8_spec:
  "n < 16 \<Longrightarrow> \<exists>D. drain8 bits n out = (n mod 8, out @ D) \<and> groups8 D @ low bits (n mod 8) = low bits n"
proof (induction bits n out rule: drain8.induct)
  case (1 bits n out)
  show ?case
  proof (cases "8 \<le> n")
    case True
    let ?d = "ucast (signed_drop_bit (n - 8) bits) :: byte"
    have m: "(n - 8) mod 8 = n mod 8" "n - 8 < 16" using True "1.prems" by (simp_all add: le_mod_geq)
    obtain D where D: "drain8 bits (n - 8) (out @ [?d]) = (n mod 8, (out @ [?d]) @ D)"
      "groups8 D @ low bits (n mod 8) = low bits (n - 8)"
      using "1.IH" [OF True m(2)] m(1) by auto
    have "low ?d 8 = take 8 (low bits n)"
      using low_group [of "n - 8" 8 bits] True "1.prems" by auto
    moreover have "low bits n = take 8 (low bits n) @ low bits (n - 8)"
      using low_split [of "n - 8" n bits] True by simp
    ultimately have "groups8 (?d # D) @ low bits (n mod 8) = low bits n"
      using D by auto
    moreover have "drain8 bits n out = (n mod 8, out @ ?d # D)" using D True by (simp add: drain8.simps [of bits n])
    ultimately show ?thesis by blast
  next
    case False
    then show ?thesis by (simp add: drain8.simps [of bits n])
  qed
qed

lemma low_complement: "low (ucast b XOR 0xFF :: 64 word) 8 = map Not (low (b :: byte) 8)"
  by (intro nth_equalityI) (simp_all only: length_low length_map low_nth nth_map bit_xor_iff bit_FF
    bit_unsigned_iff, auto)

lemma complement_high: "8 \<le> i \<Longrightarrow> \<not> bit (ucast (b :: byte) XOR 0xFF :: 64 word) i"
  using bit_imp_le_length [of b i] by (auto simp only: bit_xor_iff bit_FF bit_unsigned_iff, simp)

lemma invertLoop_spec:
  assumes "n < 7"
  shows "\<exists>bits' D. invertLoop input bits n out = (bits', (n + 8 * length input) mod 7, out @ D) \<and>
    groups7 D @ low bits' ((n + 8 * length input) mod 7) = low bits n @ map Not (groups8 input) \<and>
    (\<forall>d \<in> set D. \<not> bit d 7)"
  using assms
proof (induction input arbitrary: bits n out)
  case (Cons b input)
  let ?bits = "push_bit 8 bits OR (ucast b XOR 0xFF)"
  let ?n = "(n + 8) mod 7"
  obtain D where D: "drain7 ?bits (n + 8) out = (?n, out @ D)"
    "groups7 D @ low ?bits ?n = low ?bits (n + 8)" "\<forall>d \<in> set D. \<not> bit d 7"
    using drain7_spec [of "n + 8" ?bits out] Cons.prems by auto
  have "low ?bits (n + 8) = low bits n @ low (ucast b XOR 0xFF :: 64 word) 8"
    using Cons.prems complement_high by (intro low_shift) auto
  then have shift: "low ?bits (n + 8) = low bits n @ map Not (low b 8)" by (simp only: low_complement)
  obtain bits' E where E: "invertLoop input ?bits ?n (out @ D) = (bits', (?n + 8 * length input) mod 7, (out @ D) @ E)"
    "groups7 E @ low bits' ((?n + 8 * length input) mod 7) = low ?bits ?n @ map Not (groups8 input)"
    "\<forall>d \<in> set E. \<not> bit d 7"
    using Cons.IH [of ?n ?bits "out @ D"] by auto
  have m: "(?n + 8 * length input) mod 7 = (n + 8 * length (b # input)) mod 7"
    by (simp add: mod_add_left_eq add.assoc)
  have "invertLoop (b # input) bits n out = (bits', (n + 8 * length (b # input)) mod 7, out @ D @ E)"
    using D(1) E(1) unfolding m by (simp add: Let_def)
  moreover have "groups7 (D @ E) @ low bits' ((n + 8 * length (b # input)) mod 7) =
      low bits n @ map Not (groups8 (b # input))"
  proof -
    have "groups7 (D @ E) @ low bits' ((n + 8 * length (b # input)) mod 7) =
        groups7 D @ (low ?bits ?n @ map Not (groups8 input))" using E(2) unfolding m by simp
    also have "\<dots> = low ?bits (n + 8) @ map Not (groups8 input)" by (simp flip: D(2))
    finally show ?thesis unfolding shift by simp
  qed
  moreover have "\<forall>d \<in> set (D @ E). \<not> bit d 7" using D(3) E(3) by auto
  ultimately show ?case by blast
qed simp


text \<open>What \<^verbatim>\<open>Invert\<close> writes: the complemented bits, padded with ones to whole 7-bit groups, and the padding.\<close>

definition padding :: "nat \<Rightarrow> nat" where
  "padding n = (7 - 8 * n mod 7) mod 7"

definition terminator :: "nat \<Rightarrow> byte" where
  "terminator npad = 0x80 + 16 * of_nat npad"

definition inverted_form :: "bytes \<Rightarrow> bytes \<Rightarrow> bool" where
  "inverted_form x D \<longleftrightarrow>
     groups7 D = map Not (groups8 x) @ replicate (padding (length x)) True \<and> (\<forall>d \<in> set D. \<not> bit d 7)"

lemma padding_lt: "padding n < 7"
  by (simp add: padding_def)

lemma inverted_length: "inverted_form x D \<Longrightarrow> 7 * length D = 8 * length x + padding (length x)"
  unfolding inverted_form_def using length_groups(1) [of D] by (simp del: length_groups(1))

lemma last_group:
  fixes bits :: "64 word"
  assumes "n + p = 7"
  shows "low (ucast ((push_bit p bits OR (push_bit p 1 - 1)) AND 0x7F) :: byte) 7 = low bits n @ replicate p True"
    and "\<not> bit (ucast ((push_bit p bits OR (push_bit p 1 - 1)) AND 0x7F) :: byte) 7"
proof -
  have m: "(push_bit p 1 - 1 :: 64 word) = mask p" by (simp add: mask_eq_exp_minus_1 push_bit_eq_mult)
  have ones: "low (mask p :: 64 word) p = replicate p True"
    using assms by (intro nth_equalityI) (simp_all add: low_nth bit_mask_iff)
  have "low (ucast ((push_bit p bits OR mask p) AND 0x7F) :: byte) 7 = low (push_bit p bits OR mask p) (n + p)"
    unfolding assms by (intro nth_equalityI) (simp_all only: length_low low_nth bit_unsigned_iff bit_and_iff bit_7F, auto)
  also have "\<dots> = low bits n @ low (mask p :: 64 word) p"
    using assms by (intro low_shift) (auto simp: bit_mask_iff)
  finally show "low (ucast ((push_bit p bits OR (push_bit p 1 - 1)) AND 0x7F) :: byte) 7 = low bits n @ replicate p True"
    unfolding m ones .
  show "\<not> bit (ucast ((push_bit p bits OR (push_bit p 1 - 1)) AND 0x7F) :: byte) 7"
    by (simp only: bit_unsigned_iff bit_and_iff bit_7F, simp)
qed

lemma le_6_cases: "(n :: nat) < 7 \<Longrightarrow> n = 0 \<or> n = 1 \<or> n = 2 \<or> n = 3 \<or> n = 4 \<or> n = 5 \<or> n = 6"
  by arith

lemma terminator_code: "n < 7 \<Longrightarrow> (ucast (0x80 OR push_bit 4 (of_nat n :: 64 word)) :: byte) = terminator n"
  by (drule le_6_cases) (elim disjE; simp add: terminator_def)

lemma Invert_form: "\<exists>D. inverted_form x D \<and> Invert x = Inr (D @ [terminator (padding (length x))])"
proof -
  let ?n = "8 * length x mod 7"
  obtain bits D where D: "invertLoop x 0 0 [] = (bits, ?n, D)"
    "groups7 D @ low bits ?n = map Not (groups8 x)" "\<forall>d \<in> set D. \<not> bit d 7"
    using invertLoop_spec [of 0 x 0 "[]"] by auto
  show ?thesis
  proof (cases "?n = 0")
    case True
    have "length D * 7 = 8 * length x" using arg_cong [OF D(2), of length] True by simp
    then have "length D = (length x * 8 + 6) div 7" by linarith
    with D True show ?thesis
      by (intro exI [of _ D]) (simp add: inverted_form_def padding_def Invert_def Let_def terminator_def)
  next
    case False
    let ?p = "7 - ?n"
    let ?d = "ucast ((push_bit ?p bits OR (push_bit ?p 1 - 1)) AND 0x7F) :: byte"
    have p: "padding (length x) = ?p" "?p < 7" "?n + ?p = 7" using False by (simp_all add: padding_def)
    have g: "groups7 (D @ [?d]) = map Not (groups8 x) @ replicate ?p True" "\<not> bit ?d 7"
      using D(2) last_group [OF p(3), of bits] by (simp_all flip: append_assoc)
    have "7 * length (D @ [?d]) = 8 * length x + ?p" using arg_cong [OF g(1), of length] by simp
    then have "length (D @ [?d]) + 1 = (length x * 8 + 6) div 7 + 1" using p(2) by linarith
    then have "Invert x = Inr (D @ [?d, ucast (0x80 OR push_bit 4 (of_nat ?p :: 64 word))])"
      using D(1) False by (simp add: Invert_def Let_def)
    then have "Invert x = Inr ((D @ [?d]) @ [terminator (padding (length x))])"
      using terminator_code [OF p(2)] p(1) by simp
    moreover have "inverted_form x (D @ [?d])"
      using g D(3) p(1) by (simp add: inverted_form_def)
    ultimately show ?thesis by blast
  qed
qed


subsection \<open>Uninverting\<close>

lemma low_complement7: "low (ucast b XOR 0x7F :: 64 word) 7 = map Not (low (b :: byte) 7)"
  by (intro nth_equalityI) (simp_all only: length_low length_map low_nth nth_map bit_xor_iff bit_7F
    bit_unsigned_iff, auto)

lemma complement7_high: "\<not> bit b 7 \<Longrightarrow> 7 \<le> i \<Longrightarrow> \<not> bit (ucast (b :: byte) XOR 0x7F :: 64 word) i"
  using bit_imp_le_length [of b i]
  by (cases "i = 7") (auto simp only: bit_xor_iff bit_7F bit_unsigned_iff, simp)

lemma and_80_eq_0: "\<not> bit (w :: 64 word) 7 \<Longrightarrow> w AND 0x80 = 0"
  using bit_iff_and_push_bit_not_eq_0 [of w 7] by simp

lemma uninvertLoop_spec:
  assumes "n < 8" and "\<forall>d \<in> set D. \<not> bit d 7"
  shows "\<exists>E r. uninvertLoop D i bits n out = Inr (out @ E) \<and> length r < 8 \<and>
    groups8 E @ r = low bits n @ map Not (groups7 D)"
  using assms
proof (induction D arbitrary: i bits n out)
  case (Cons b D)
  let ?next = "ucast b XOR 0x7F :: 64 word"
  let ?bits = "push_bit 7 bits OR ?next"
  let ?n = "(n + 7) mod 8"
  have b: "\<not> bit b 7" using Cons.prems by simp
  obtain E where E: "drain8 ?bits (n + 7) out = (?n, out @ E)" "groups8 E @ low ?bits ?n = low ?bits (n + 7)"
    using drain8_spec [of "n + 7" ?bits out] Cons.prems by auto
  have "low ?bits (n + 7) = low bits n @ low ?next 7"
    using Cons.prems complement7_high [OF b] by (intro low_shift) auto
  then have shift: "low ?bits (n + 7) = low bits n @ map Not (low b 7)" by (simp only: low_complement7)
  obtain F r where F: "uninvertLoop D (i + 1) ?bits ?n (out @ E) = Inr ((out @ E) @ F)" "length r < 8"
    "groups8 F @ r = low ?bits ?n @ map Not (groups7 D)"
    using Cons.IH [of ?n "i + 1" ?bits "out @ E"] Cons.prems by auto
  have "?next AND 0x80 = 0" using complement7_high [OF b, of 7] by (intro and_80_eq_0) simp
  then have "uninvertLoop (b # D) i bits n out = Inr (out @ E @ F)"
    using E(1) F(1) by (simp add: Let_def)
  moreover have "groups8 (E @ F) @ r = low bits n @ map Not (groups7 (b # D))"
  proof -
    have "groups8 (E @ F) @ r = (groups8 E @ low ?bits ?n) @ map Not (groups7 D)" using F(3) by simp
    then show ?thesis unfolding E(2) shift by simp
  qed
  ultimately show ?case using F(2) by blast
qed (auto intro: exI [of _ "[]"])

lemma groups8_inject: "groups8 x = groups8 y \<Longrightarrow> x = y"
proof (induction x arbitrary: y)
  case Nil
  then have "length (groups8 y) = 0" by simp
  then show ?case by simp
next
  case (Cons a x)
  have "length (groups8 y) = length (groups8 (a # x))" using Cons.prems by simp
  then obtain b y' where y: "y = b # y'" by (cases y) auto
  with Cons.prems have "low a 8 = low b 8" "groups8 x = groups8 y'" by simp_all
  moreover have "a = b"
  proof (rule bit_word_eqI)
    fix i assume "i < LENGTH(8)"
    then show "bit a i = bit b i"
      using arg_cong [OF \<open>low a 8 = low b 8\<close>, of "\<lambda>l. l ! (7 - i)"] by (simp add: low_nth)
  qed
  ultimately show ?case using Cons.IH y by simp
qed

lemma terminator_pad: "n < 7 \<Longrightarrow> unat (drop_bit 4 (terminator n AND 0x70)) = n \<and> terminator n AND 0x80 \<noteq> 0"
  by (drule le_6_cases) (elim disjE; simp add: terminator_def)

lemma Uninvert_Invert: "Invert x = Inr y \<Longrightarrow> Uninvert y = Inr x"
proof -
  assume "Invert x = Inr y"
  then obtain D where D: "inverted_form x D" "y = D @ [terminator (padding (length x))]"
    using Invert_form [of x] by auto
  let ?p = "padding (length x)"
  obtain E r where E: "uninvertLoop D 0 0 0 [] = Inr E" "length r < 8" "groups8 E @ r = map Not (groups7 D)"
    using uninvertLoop_spec [of 0 D 0 0 "[]"] D(1) by (auto simp: inverted_form_def)
  have eq: "groups8 E @ r = groups8 x @ replicate ?p False"
    using E(3) D(1) by (simp add: inverted_form_def comp_def)
  then have "length (groups8 E @ r) = length (groups8 x @ replicate ?p False)" by (rule arg_cong)
  then have "8 * length E + length r = 8 * length x + ?p" by simp
  then have len: "length E = length x" using E(2) padding_lt [of "length x"] by linarith
  with eq have "groups8 E = groups8 x" by (simp add: append_eq_append_conv)
  then have "E = x" by (rule groups8_inject)
  moreover have "int (length D) * 7 - int ?p = 8 * int (length x)"
    using inverted_length [OF D(1)] by linarith
  ultimately show ?thesis using E(1) terminator_pad [OF padding_lt, of "length x"] D(2)
    by (simp add: Uninvert_def Let_def)
qed


subsection \<open>Order\<close>

lemma bits_nat_less:
  "map (bit a) (rev [0..<n]) < map (bit b) (rev [0..<n]) \<longleftrightarrow> take_bit n a < take_bit n (b :: nat)"
proof (induction n)
  case (Suc n)
  obtain x y where xy: "take_bit n a = x" "take_bit n b = y" by simp
  then have "x < 2 ^ n" "y < 2 ^ n" by auto
  with Suc show ?case unfolding take_bit_Suc_from_most xy
    by (cases "bit a n"; cases "bit b n") simp_all
qed simp

lemma low_less: "low (v :: 'a word) n < low w n \<longleftrightarrow> take_bit n (unat v) < take_bit n (unat (w :: 'a :: len word))"
proof -
  have "low w n = map (bit (unat w)) (rev [0..<n])" for w :: "'a word"
    by (simp add: low_def bit_unsigned_iff fun_eq_iff)
  then show ?thesis by (simp only: bits_nat_less)
qed

lemma low8_less: "low v 8 < low w 8 \<longleftrightarrow> v < (w :: byte)"
  by (simp add: low_less word_less_nat_alt take_bit_nat_eq_self)

lemma not_bit7_lt: "\<not> bit (d :: byte) 7 \<Longrightarrow> unat d < 128"
  by (simp add: bit7_iff)

lemma low7_less: "\<not> bit v 7 \<Longrightarrow> \<not> bit w 7 \<Longrightarrow> low v 7 < low w 7 \<longleftrightarrow> v < (w :: byte)"
  by (simp add: low_less word_less_nat_alt take_bit_nat_eq_self not_bit7_lt)

lemma low_inject_lt: "(low v n < low w n \<longleftrightarrow> v < w) \<Longrightarrow> (low w n < low v n \<longleftrightarrow> w < v) \<Longrightarrow> low v n = low w n \<longleftrightarrow> v = w"
  by (metis less_irrefl linorder_neqE)

lemma groups8_mono: "y < x \<Longrightarrow> groups8 y < groups8 x"
proof (induction y arbitrary: x)
  case Nil
  then obtain a x' where "x = a # x'" by (cases x) auto
  moreover have "low a 8 \<noteq> []" using length_low [of a 8] by force
  ultimately show ?case by (cases "low a 8") auto
next
  case (Cons b y)
  then obtain a x' where "x = a # x'" "b < a \<or> b = a \<and> y < x'" by (cases x) auto
  then show ?case using Cons.IH [of x'] by (auto simp: lex_append_eq_length low8_less)
qed

lemma groups7_less:
  assumes "length D = length E" "\<forall>d \<in> set D. \<not> bit d 7" "\<forall>d \<in> set E. \<not> bit d 7"
  shows "groups7 D < groups7 E \<longleftrightarrow> D < E"
  using assms
proof (induction D E rule: list_induct2)
  case (Cons d D e E)
  then have "low d 7 = low e 7 \<longleftrightarrow> d = e" by (intro low_inject_lt) (simp_all add: low7_less)
  with Cons show ?case by (auto simp: lex_append_eq_length low7_less)
qed simp

lemma groups7_take: "groups7 (take m D) = take (7 * m) (groups7 D)"
proof (induction m arbitrary: D)
  case (Suc m)
  show ?case by (cases D) (simp_all add: Suc)
qed simp

lemma bools_less_cases:
  assumes "(b :: bool list) < a"
  obtains w where "a = b @ w" "w \<noteq> []"
  | c u v where "b = c @ False # u" "a = c @ True # v"
  using assms by (auto simp: list_less_def lexord_def)

lemma bools_le_replicate: "l \<le> replicate (length l) True"
  by (induction l) auto

lemma terminator_val: "n < 7 \<Longrightarrow> unat (terminator n) = 128 + 16 * n"
  by (drule le_6_cases) (elim disjE; simp add: terminator_def)

lemma tail_less:
  assumes "p < 7" "q < 7" "\<forall>d \<in> set D. \<not> bit d 7" "D = [] \<longrightarrow> p < q"
  shows "D @ [terminator p] < [terminator q]"
proof (cases D)
  case Nil
  then show ?thesis using assms by (simp add: word_less_nat_alt terminator_val)
next
  case (Cons d D')
  then show ?thesis using assms not_bit7_lt [of d] by (simp add: word_less_nat_alt terminator_val)
qed

lemma Invert_less:
  assumes x: "inverted_form x D" and y: "inverted_form y E" and "y < x"
  shows "D @ [terminator (padding (length x))] < E @ [terminator (padding (length y))]"
proof -
  have D: "groups7 D = map Not (groups8 x) @ replicate (padding (length x)) True" "\<forall>d \<in> set D. \<not> bit d 7"
    and E: "groups7 E = map Not (groups8 y) @ replicate (padding (length y)) True" "\<forall>d \<in> set E. \<not> bit d 7"
    using x y by (simp_all add: inverted_form_def)
  from groups8_mono [OF assms(3)] show ?thesis
  proof (cases rule: bools_less_cases)
    case (2 c u v)
    define m where "m = min (length D) (length E)"
    have "length c < length (groups8 x)" "length c < length (groups8 y)" using 2 by simp_all
    then have c: "length c < 7 * m"
      using inverted_length [OF x] inverted_length [OF y] by (simp add: m_def)
    then obtain k where k: "7 * m = length c + Suc k" by (metis less_imp_Suc_add add_Suc_right)
    have "take (7 * m) (groups7 D) < take (7 * m) (groups7 E)"
      unfolding D(1) E(1) k using 2 by (simp add: lex_simps)
    then have "groups7 (take m D) < groups7 (take m E)" by (simp add: groups7_take)
    then have "take m D < take m E"
      using D(2) E(2) by (subst (asm) groups7_less) (auto simp: m_def dest: in_set_takeD)
    then have "take m D @ drop m D @ [terminator (padding (length x))] <
        take m E @ drop m E @ [terminator (padding (length y))]"
      by (subst lex_append_eq_length) (simp_all add: m_def)
    then show ?thesis by (simp only: append_assoc [symmetric] append_take_drop_id)
  next
    case (1 w)
    let ?m = "length E" and ?tx = "terminator (padding (length x))" and ?ty = "terminator (padding (length y))"
    have lt: "length y < length x"
      using arg_cong [OF 1(1), of length] 1(2) length_greater_0_conv [of w] by (simp del: length_greater_0_conv)
    then have le: "?m \<le> length D"
      using inverted_length [OF x] inverted_length [OF y] padding_lt [of "length x"] padding_lt [of "length y"]
      by linarith
    define r where "r = take (padding (length y)) (map Not w @ replicate (padding (length x)) True)"
    have "groups7 (take ?m D) = map Not (groups8 y) @ r"
      using inverted_length [OF y] by (simp add: groups7_take D(1) 1(1) r_def)
    moreover have "length r = padding (length y)"
      using arg_cong [OF calculation, of length] le inverted_length [OF y] by simp
    then have "r \<le> replicate (padding (length y)) True" using bools_le_replicate [of r] by simp
    ultimately have "groups7 (take ?m D) \<le> groups7 E" by (simp add: E(1) lex_simps)
    then have "\<not> E < take ?m D"
      using D(2) E(2) le by (subst groups7_less [symmetric]) (auto dest: in_set_takeD)
    then consider "take ?m D < E" | "take ?m D = E" by fastforce
    then have "take ?m D @ drop ?m D @ [?tx] < E @ [?ty]"
    proof cases
      case 1
      then show ?thesis using le by (subst lex_append_eq_length) simp_all
    next
      case 2
      have "drop ?m D @ [?tx] < [?ty]"
        using D(2) lt inverted_length [OF x] inverted_length [OF y]
        by (intro tail_less) (auto simp: padding_lt dest: in_set_dropD)
      then show ?thesis using 2 by (simp add: lex_simps)
    qed
    then show ?thesis by (simp only: append_assoc [symmetric] append_take_drop_id)
  qed
qed

lemma Invert_order:
  assumes "Invert x = Inr a" and "Invert y = Inr b"
  shows "a < b \<longleftrightarrow> y < x"
proof -
  obtain D where D: "inverted_form x D" "a = D @ [terminator (padding (length x))]"
    using Invert_form [of x] assms(1) by auto
  obtain E where E: "inverted_form y E" "b = E @ [terminator (padding (length y))]"
    using Invert_form [of y] assms(2) by auto
  consider "y < x" | "x = y" | "x < y" by (meson linorder_neqE)
  then show ?thesis
  proof cases
    case 1
    with Invert_less [OF D(1) E(1)] D E show ?thesis by simp
  next
    case 2
    with assms show ?thesis by simp
  next
    case 3
    with Invert_less [OF E(1) D(1)] D E have "b < a" by simp
    with 3 show ?thesis by auto
  qed
qed

lemma Invert_total: "\<exists>y. Invert x = Inr y"
  using Invert_form [of x] by blast


section \<open>Element boundaries of packed tuples\<close>

lemma scanString_escape:
  "ok_rest r \<Longrightarrow> scanString (pre @ escape b @ 0 # r) (length pre) = Some (length pre + length (escape b) + 1)"
proof (induction b arbitrary: pre)
  case Nil
  then show ?case by (subst scanString.simps) (auto simp: nth_append ok_rest_def neq_Nil_conv)
next
  case (Cons x b)
  have *: "scanString ((pre @ p) @ escape b @ 0 # r) (length (pre @ p)) =
      Some (length (pre @ p) + length (escape b) + 1)" for p
    using Cons by blast
  show ?case
  proof (cases "x = 0")
    case True
    then show ?thesis using * [of "[0, 0xFF]"]
      by (subst scanString.simps) (simp add: nth_append)
  next
    case False
    then show ?thesis using * [of "[x]"]
      by (subst scanString.simps) (simp add: nth_append)
  qed
qed

lemma flatEndPos_pos:
  assumes "0x15 \<le> c" "c \<le> 0x1C"
  shows "flatEndPos (pre @ c # s) (length pre) =
    fixedEnd (pre @ c # s) (length pre) (length pre + 1 + unat (c - 0x14))"
proof -
  have "c \<noteq> 0" "c \<noteq> 1" "c \<noteq> 2" "c \<noteq> 0x14" "\<not> c \<le> 0x13" using assms by (auto simp: word_le_nat_alt)
  with assms show ?thesis by (simp add: flatEndPos_def Let_def)
qed

lemma flatEndPos_neg:
  assumes "0x0C \<le> c" "c \<le> 0x13"
  shows "flatEndPos (pre @ c # s) (length pre) =
    fixedEnd (pre @ c # s) (length pre) (length pre + 1 + unat (0x14 - c))"
proof -
  have "c \<noteq> 0" "c \<noteq> 1" "c \<noteq> 2" "c \<noteq> 0x14" using assms by (auto simp: word_le_nat_alt)
  with assms show ?thesis by (simp add: flatEndPos_def Let_def)
qed

lemma flatEndPos_big:
  "flatEndPos (pre @ 0x1D # l # s) (length pre) =
     fixedEnd (pre @ 0x1D # l # s) (length pre) (length pre + 2 + unat l)"
  "flatEndPos (pre @ 0x0B # l # s) (length pre) =
     fixedEnd (pre @ 0x0B # l # s) (length pre) (length pre + 2 + (255 - unat l))"
  by (simp_all add: flatEndPos_def Let_def nth_append)

lemma unat_xor_FF: "n \<le> 255 \<Longrightarrow> unat (of_nat n XOR 0xFF :: byte) = 255 - n"
  using unat_complement [of "of_nat n"] by (simp add: unat_of_nat)

lemma flatEndPos_int:
  assumes "magnitude_ok i"
  shows "flatEndPos (pre @ int_code i @ r) (length pre) = Inr (length pre + length (int_code i))"
proof -
  define n where "n = nbytes (nat \<bar>i\<bar>)"
  have n255: "n \<le> 255" using assms by (simp add: magnitude_ok_def n_def)
  consider "i = 0" | "0 < i" "n \<le> 8" | "0 < i" "8 < n" | "i < 0" "n \<le> 8" | "i < 0" "8 < n" by linarith
  then show ?thesis
  proof cases
    case 1
    then show ?thesis by (simp add: flatEndPos_def int_code_def)
  next
    case 2
    then have n: "0 < n" by (simp add: n_def)
    have code: "int_code i = (intZeroCode + of_nat n) # be_bytes n (nat i)"
      using 2 by (simp add: int_code_def Let_def n_def)
    have "0x15 \<le> (intZeroCode + of_nat n :: byte)" "(intZeroCode + of_nat n :: byte) \<le> 0x1C"
      using 2 n by (simp_all add: word_le_nat_alt byte_pos_code)
    note flatEndPos_pos [OF this]
    moreover have "unat (intZeroCode + of_nat n - 0x14 :: byte) = n" using n255 by (simp add: unat_of_nat)
    ultimately show ?thesis unfolding code by (simp add: fixedEnd_def)
  next
    case 3
    have code: "int_code i = posIntEnd # of_nat n # be_bytes n (nat i)"
      using 3 by (simp add: int_code_def Let_def n_def)
    show ?thesis unfolding code using n255 by (simp add: flatEndPos_big fixedEnd_def unat_of_nat)
  next
    case 4
    then have n: "0 < n" by (simp add: n_def)
    obtain v where code: "int_code i = (intZeroCode - of_nat n) # be_bytes n v"
      using 4 by (simp add: int_code_def Let_def n_def)
    have "0x0C \<le> (intZeroCode - of_nat n :: byte)" "(intZeroCode - of_nat n :: byte) \<le> 0x13"
      using 4 n by (auto simp: word_le_nat_alt byte_neg_code)
    note flatEndPos_neg [OF this]
    moreover have "unat (0x14 - (intZeroCode - of_nat n) :: byte) = n" using n255 by (simp add: unat_of_nat)
    ultimately show ?thesis unfolding code by (simp add: fixedEnd_def)
  next
    case 5
    obtain v where code: "int_code i = negIntStart # (of_nat n XOR 0xFF) # be_bytes n v"
      using 5 by (simp add: int_code_def Let_def n_def)
    show ?thesis unfolding code using n255 by (simp add: flatEndPos_big fixedEnd_def unat_xor_FF)
  qed
qed

lemma flatEndPos_scalar:
  assumes "is_scalar e" "element_wf e" "elem_packable e" "ok_rest r"
  shows "flatEndPos (pre @ elem_code nested e @ r) (length pre) = Inr (length pre + length (elem_code nested e))"
proof -
  have str: "scanString (pre @ c # escape b @ 0 # r) (Suc (length pre)) =
      Some (length pre + length (escape b) + 2)" for c b
    using scanString_escape [OF assms(4), of "pre @ [c]" b] by simp
  show ?thesis
    by (cases e) (use assms str in \<open>simp_all add: flatEndPos_int flatEndPos_def [of "pre @ _ # _"] Let_def
      fixedEnd_def versionstampBytes_def\<close>)
qed

definition endsAt :: "tuple_element \<Rightarrow> bool" where
  "endsAt e \<longleftrightarrow> (\<forall>pre r depth. ok_rest r \<longrightarrow> depth > 0 \<longrightarrow>
     nestedEndLoop (pre @ elem_code True e @ r) (length pre) depth =
     nestedEndLoop (pre @ elem_code True e @ r) (length pre + length (elem_code True e)) depth)"

lemma nestedEndLoop_elems:
  assumes "\<forall>e \<in> set ts. endsAt e" and "ok_rest r" and "depth > 0"
  shows "nestedEndLoop (pre @ tuple_code True ts @ r) (length pre) depth =
    nestedEndLoop (pre @ tuple_code True ts @ r) (length pre + length (tuple_code True ts)) depth"
  using assms
proof (induction ts arbitrary: pre)
  case (Cons e ts)
  let ?r = "tuple_code True ts @ r"
  have "ok_rest ?r" using Cons.prems by (simp add: ok_rest_code)
  with Cons.prems have "nestedEndLoop (pre @ elem_code True e @ ?r) (length pre) depth =
    nestedEndLoop ((pre @ elem_code True e) @ ?r) (length (pre @ elem_code True e)) depth"
    by (simp add: endsAt_def)
  also note Cons.IH [of "pre @ elem_code True e"]
  finally show ?case using Cons.prems by (simp add: add.assoc)
qed simp

lemma nestedEndLoop_end:
  "ok_rest r \<Longrightarrow> depth > 0 \<Longrightarrow>
     nestedEndLoop (pre @ 0 # r) (length pre) depth = nestedEndLoop (pre @ 0 # r) (length pre + 1) (depth - 1)"
  by (subst nestedEndLoop.simps) (auto simp: nth_append ok_rest_def neq_Nil_conv)

lemma nestedEndLoop_tuple:
  assumes "\<forall>e \<in> set ts. endsAt e" and "ok_rest r" and "depth > 0"
  shows "nestedEndLoop (pre @ tuple_code True ts @ 0 # r) (length pre) depth =
    nestedEndLoop (pre @ tuple_code True ts @ 0 # r) (length pre + length (tuple_code True ts) + 1) (depth - 1)"
  using nestedEndLoop_elems [OF assms(1) _ assms(3), of "0 # r" pre]
    nestedEndLoop_end [OF assms(2,3), of "pre @ tuple_code True ts"] by simp

lemma endsAt_scalar:
  assumes "is_scalar e" "element_wf e" "elem_packable e"
  shows "endsAt e"
  unfolding endsAt_def
proof (intro allI impI)
  fix pre r and depth :: nat
  assume r: "ok_rest r" and d: "depth > 0"
  obtain c s where c: "elem_code True e = c # s" "c \<noteq> nilCode" "c \<noteq> nestedCode"
    using elem_code_hd [of True e] assms(1) by (cases e) auto
  note flatEndPos_scalar [OF assms r, of pre True]
  with c d show "nestedEndLoop (pre @ elem_code True e @ r) (length pre) depth =
    nestedEndLoop (pre @ elem_code True e @ r) (length pre + length (elem_code True e)) depth"
    by (subst nestedEndLoop.simps) simp
qed

lemma endsAt_elem: "element_wf e \<Longrightarrow> elem_packable e \<Longrightarrow> endsAt e"
proof (induction e)
  case (ETuple ts)
  then have ts: "\<forall>e \<in> set ts. endsAt e" by simp
  show ?case unfolding endsAt_def elem_code_tuple
  proof (intro allI impI)
    fix pre r and depth :: nat
    assume "ok_rest r" and d: "depth > 0"
    from nestedEndLoop_tuple [OF ts this(1), of "Suc depth" "pre @ [nestedCode]"]
    show "nestedEndLoop (pre @ (nestedCode # tuple_code True ts @ [0]) @ r) (length pre) depth =
      nestedEndLoop (pre @ (nestedCode # tuple_code True ts @ [0]) @ r)
        (length pre + length (nestedCode # tuple_code True ts @ [0])) depth"
      using d by (subst nestedEndLoop.simps) simp
  qed
next
  case ENil
  show ?case unfolding endsAt_def
    by (intro allI impI, subst nestedEndLoop.simps) (simp add: nth_append)
qed (simp_all add: endsAt_scalar)

lemma ElementEndPos_code:
  assumes "e \<noteq> ENil" "element_wf e" "elem_packable e" "ok_rest r"
  shows "ElementEndPos (pre @ elem_code False e @ r) (length pre) =
    Inr (length pre + length (elem_code False e))"
proof (cases "\<exists>ts. e = ETuple ts")
  case True
  then obtain ts where e: "e = ETuple ts" by blast
  have ts: "\<forall>e \<in> set ts. endsAt e" using assms e by (simp add: endsAt_elem)
  from nestedEndLoop_tuple [OF ts assms(4), of 1 "pre @ [nestedCode]"]
  have "nestedEndLoop (pre @ nestedCode # tuple_code True ts @ 0 # r) (length pre + 1) 1 =
      Inr (length pre + length (tuple_code True ts) + 2, 0)"
    by (simp add: nestedEndLoop.simps [of _ _ 0])
  then show ?thesis unfolding e elem_code_tuple by (simp add: ElementEndPos_def)
next
  case False
  then have "is_scalar e" using assms(1) by (cases e) auto
  moreover obtain c s where "elem_code False e = c # s" "c \<noteq> nestedCode"
    using elem_code_hd [of False e] False by auto
  ultimately show ?thesis using flatEndPos_scalar [of e r pre False] assms
    by (simp add: ElementEndPos_def)
qed

section \<open>Nulls last\<close>

definition nl_elem :: "tuple_element \<Rightarrow> bytes" where
  "nl_elem e = (if e = ENil then [nullLastByte] else elem_code False e)"

definition nl_code :: "tuple \<Rightarrow> bytes" where
  "nl_code t = concat (map nl_elem t)"

lemma nl_code_simps [simp]: "nl_code [] = []" "nl_code (e # t) = nl_elem e @ nl_code t"
  by (simp_all add: nl_code_def)

lemma PackNullsLast_code: "PackNullsLast t = Inr b \<longleftrightarrow> packable t \<and> b = nl_code t"
proof (induction t arbitrary: b)
  case (Cons e t)
  show ?case
  proof (cases "PackNullsLast t")
    case (Inl x)
    then have "\<not> packable t" using Cons [of "nl_code t"] by auto
    with Inl show ?thesis by (auto split: sum.splits)
  next
    case (Inr x)
    then have "packable t" "x = nl_code t" using Cons [of x] by auto
    show ?thesis
    proof (cases "elem_packable e")
      case True
      then have "Pack [e] = Inr (elem_code False e)" by (simp add: Pack_packable)
      with Inr True \<open>packable t\<close> \<open>x = nl_code t\<close> show ?thesis by (auto simp: nl_elem_def)
    next
      case False
      then obtain err where "Pack [e] = Inl err" using Pack_unpackable [of "[e]"] by auto
      moreover have "e \<noteq> ENil" using False by auto
      ultimately show ?thesis using False by simp
    qed
  qed
qed auto

lemma nl_elem_hd: "\<exists>c s. nl_elem e = c # s \<and> c \<noteq> 0xFF"
  using elem_code_hd [of False e] by (auto simp: nl_elem_def)

lemma ok_rest_nl: "ok_rest (nl_code t)"
proof (cases t)
  case (Cons e u)
  then show ?thesis using nl_elem_hd [of e] by auto
qed simp

lemma elem_code_small: "elem_code False e = c # s \<Longrightarrow> c < nullLastByte"
proof -
  assume "elem_code False e = c # s"
  then have "uint c \<le> lead_hi (tupleItemCode e)" using elem_code_lead [of False e] by auto
  moreover have "lead_hi (tupleItemCode e) \<le> 0x33" using tupleItemCode_mem [of e] by auto
  ultimately show ?thesis by (simp add: word_less_alt)
qed

lemma unpackNullsLastLoop_code:
  assumes "tuple_wf t" "packable t"
  shows "unpackNullsLastLoop (pre @ nl_code t) (length pre) res = Inr (res @ map norm_elem t)"
  using assms
proof (induction t arbitrary: pre res)
  case Nil
  show ?case by (subst unpackNullsLastLoop.simps) simp
next
  case (Cons e t)
  have IH: "unpackNullsLastLoop ((pre @ nl_elem e) @ nl_code t) (length (pre @ nl_elem e)) (res @ [norm_elem e]) =
      Inr ((res @ [norm_elem e]) @ map norm_elem t)"
    using Cons.prems by (intro Cons.IH) simp_all
  show ?case
  proof (cases "e = ENil")
    case True
    then show ?thesis using IH by (subst unpackNullsLastLoop.simps) (simp add: nl_elem_def)
  next
    case False
    obtain c s where c: "elem_code False e = c # s" using elem_code_hd [of False e] by auto
    then have "c \<noteq> nullLastByte" using elem_code_small [of e] by blast
    moreover have "ElementEndPos (pre @ elem_code False e @ nl_code t) (length pre) =
        Inr (length pre + length (elem_code False e))"
      using False Cons.prems ok_rest_nl by (intro ElementEndPos_code) auto
    moreover have "Unpack (elem_code False e) = Inr [norm_elem e]"
      using Unpack_code [of "[e]"] Cons.prems by simp
    ultimately show ?thesis using IH False c
      by (subst unpackNullsLastLoop.simps) (simp add: nl_elem_def)
  qed
qed


text \<open>The order of tuples in which a null is the greatest element, at the top level only.\<close>

definition itemNullsLast :: "tuple_element \<Rightarrow> tuple_element \<Rightarrow> int" where
  "itemNullsLast x y =
     (if x = ENil \<and> y = ENil then 0 else if x = ENil then 1 else if y = ENil then - 1
      else compareTupleItems x y)"

fun compareNullsLast :: "tuple \<Rightarrow> tuple \<Rightarrow> int" where
  "compareNullsLast (x # a) (y # b) =
     (let c = itemNullsLast x y in if c \<noteq> 0 then c else compareNullsLast a b)"
| "compareNullsLast a b = cmp_compare (length a) (length b)"

lemma verdict_nl:
  assumes "element_wf x" "element_wf y" "elem_packable x" "elem_packable y"
  shows "verdict (itemNullsLast x y) (nl_elem x) (nl_elem y)"
proof -
  have *: "below (elem_code False e) [nullLastByte]" for e
    using elem_code_hd [of False e] elem_code_small [of e] by (auto intro!: below_hd)
  show ?thesis
    using compare_items [OF assms, of False] * by (auto simp: itemNullsLast_def nl_elem_def verdict_def)
qed

lemma compareNullsLast_code:
  assumes "\<forall>x \<in> set a. element_wf x \<and> elem_packable x" "\<forall>x \<in> set b. element_wf x \<and> elem_packable x"
  shows "compareNullsLast a b = cmp_compare (nl_code a) (nl_code b)"
  using assms
proof (induction a b rule: list_induct2')
  case (2 x a)
  then show ?case using nl_elem_hd [of x] by (auto simp: cmp_compare_def)
next
  case (3 y b)
  then show ?case using nl_elem_hd [of y] by (auto simp: cmp_compare_def)
next
  case (4 x a y b)
  have IH: "compareNullsLast a b = cmp_compare (nl_code a) (nl_code b)" using 4 by simp
  have hd: "verdict (itemNullsLast x y) (nl_elem x) (nl_elem y)" using 4 by (intro verdict_nl) auto
  show ?case
  proof (cases "itemNullsLast x y = 0")
    case True
    with hd have "nl_elem x = nl_elem y" by (simp add: verdict_def)
    with True IH show ?thesis by (simp add: cmp_compare_def lex_simps)
  next
    case False
    with hd have "itemNullsLast x y = - 1 \<and> nl_elem x @ nl_code a < nl_elem y @ nl_code b \<or>
        itemNullsLast x y = 1 \<and> nl_elem y @ nl_code b < nl_elem x @ nl_code a"
      using ok_rest_nl by (auto simp: verdict_def below_def)
    then show ?thesis by (auto simp: cmp_compare_def)
  qed
qed simp

section \<open>The four directions as ordered codecs\<close>

definition direction_before :: "Direction \<Rightarrow> tuple \<Rightarrow> tuple \<Rightarrow> bool" where
  "direction_before dir a b =
     (let c = if CounterflowNulls dir then compareNullsLast else compareTuples
      in if Inverted dir then c b a < 0 else c a b < 0)"

definition ordered :: "Direction \<Rightarrow> tuple \<Rightarrow> bytes" where
  "ordered dir t = projr (ordering_Pack t dir)"

definition unordered :: "Direction \<Rightarrow> bytes \<Rightarrow> tuple option" where
  "unordered dir b = (case ordering_Unpack b dir of Inl e \<Rightarrow> None | Inr t \<Rightarrow> Some t)"

interpretation nulls_last: ordered_codec tuple_valid nl_code
  "\<lambda>b. case UnpackNullsLast b of Inl e \<Rightarrow> None | Inr t \<Rightarrow> Some t" "map norm_elem"
  "\<lambda>a b. compareNullsLast a b < 0"
proof
  fix a b :: tuple
  assume a: "tuple_valid a"
  show "(case UnpackNullsLast (nl_code a) of Inl e \<Rightarrow> None | Inr t \<Rightarrow> Some t) = Some (map norm_elem a)"
    using unpackNullsLastLoop_code [of a "[]" "[]"] a by (simp add: UnpackNullsLast_def tuple_valid_def)
  assume b: "tuple_valid b"
  show "nl_code a < nl_code b \<longleftrightarrow> compareNullsLast a b < 0"
    using a b by (simp add: compareNullsLast_code tuple_valid_def tuple_wf_def packable_def)
qed

definition inverted :: "bytes \<Rightarrow> bytes" where
  "inverted b = projr (Invert b)"

definition uninverted :: "bytes \<Rightarrow> bytes option" where
  "uninverted b = (case Uninvert b of Inl e \<Rightarrow> None | Inr x \<Rightarrow> Some x)"

lemma inverted_laws:
  "Invert b = Inr (inverted b)" "uninverted (inverted b) = Some b" "inverted a < inverted b \<longleftrightarrow> b < a"
proof -
  have *: "Invert x = Inr (inverted x)" for x using Invert_total [of x] by (auto simp: inverted_def)
  then show "Invert b = Inr (inverted b)" by blast
  show "uninverted (inverted b) = Some b" using Uninvert_Invert [OF *] by (simp add: uninverted_def)
  show "inverted a < inverted b \<longleftrightarrow> b < a" using Invert_order [OF * *] .
qed

lemma base_codec:
  "ordered_codec tuple_valid (\<lambda>t. if cf then nl_code t else packed t)
     (\<lambda>b. if cf then (case UnpackNullsLast b of Inl e \<Rightarrow> None | Inr t \<Rightarrow> Some t) else unpacked b)
     (map norm_elem) (\<lambda>a b. (if cf then compareNullsLast else compareTuples) a b < 0)"
  using nulls_last.ordered_codec_axioms tuples.ordered_codec_axioms by (cases cf) simp_all

lemma ordered_eq:
  "tuple_valid t \<Longrightarrow> ordering_Pack t dir =
     Inr ((if Inverted dir then inverted else id) (if CounterflowNulls dir then nl_code t else packed t))"
  using PackNullsLast_code [of t "nl_code t"]
  by (auto simp: ordering_Pack_def inverted_laws packed_code tuple_valid_def Pack_packable)

lemma unordered_eq:
  "unordered dir b = Option.bind (if Inverted dir then uninverted b else Some b)
     (\<lambda>b. if CounterflowNulls dir then (case UnpackNullsLast b of Inl e \<Rightarrow> None | Inr t \<Rightarrow> Some t) else unpacked b)"
  by (auto simp: unordered_def ordering_Unpack_def uninverted_def unpacked_def split: sum.splits)

interpretation orderings: ordered_codec tuple_valid "ordered dir" "unordered dir" "map norm_elem"
  "direction_before dir" for dir
proof -
  have e: "tuple_valid t \<Longrightarrow> ordered dir t =
      (if Inverted dir then inverted else id) (if CounterflowNulls dir then nl_code t else packed t)" for t
    by (simp add: ordered_def ordered_eq)
  have c: "direction_before dir = (if Inverted dir
      then (\<lambda>a b. (if CounterflowNulls dir then compareNullsLast else compareTuples) b a < 0)
      else (\<lambda>a b. (if CounterflowNulls dir then compareNullsLast else compareTuples) a b < 0))"
    by (simp add: direction_before_def fun_eq_iff)
  have u: "unordered dir = (\<lambda>b. Option.bind (if Inverted dir then uninverted b else Some b)
     (\<lambda>b. if CounterflowNulls dir then (case UnpackNullsLast b of Inl e \<Rightarrow> None | Inr t \<Rightarrow> Some t) else unpacked b))"
    by (rule ext) (rule unordered_eq)
  note base = base_codec [of "CounterflowNulls dir"]
  note rev = ordered_codec.reversed [OF base, of uninverted inverted, OF inverted_laws(2,3)]
  show "ordered_codec tuple_valid (ordered dir) (unordered dir) (map norm_elem) (direction_before dir)"
    by unfold_locales (use base rev in \<open>cases "Inverted dir"; simp add: ordered_codec_def e u c\<close>)+
qed

section \<open>Properties\<close>

text \<open>
  Inverting loses nothing and reverses the order.  \<^verbatim>\<open>Invert\<close> never stops on its length check,
  \<^verbatim>\<open>Uninvert\<close> gives the bytes back, and the inverted keys of two byte strings compare the other way
  round, also when one of them is a prefix of the other.
\<close>

lemma Invert_reverses:
  "\<exists>a b. Invert x = Inr a \<and> Invert y = Inr b \<and> Uninvert a = Inr x \<and> (a < b) = (y < x)"
  using Invert_total [of x] Invert_total [of y] Uninvert_Invert Invert_order by metis

text \<open>
  (C27) Directed encodings come back: in each of the four directions, what \<^verbatim>\<open>Pack\<close> wrote for a
  tuple \<^verbatim>\<open>Unpack\<close> decodes to the tuple, nulls at the top level and inside nested tuples included.
\<close>

theorem ordering_Unpack_Pack:
  assumes "tuple_wf t" and "ordering_Pack t dir = Inr b"
  shows "ordering_Unpack b dir = Inr (map norm_elem t)"
proof -
  have "packable t" using assms(2) PackNullsLast_code [of t]
    by (auto simp: ordering_Pack_def Pack_code split: sum.splits if_splits)
  then have "tuple_valid t" using assms(1) by (simp add: tuple_valid_def)
  from orderings.dec_enc [OF this, of dir] assms(2) show ?thesis
    by (auto simp: ordered_def unordered_def split: sum.splits)
qed

theorem ordering_Unpack_Pack_witness:
  "ordering_Unpack [0x00, 0x7A, 0x5F, 0x2F, 0x6F, 0x7F, 0xA0] DescNullsFirst = Inr [ENil, EInt64 5, EString []]"
proof -
  have "ordering_Pack [ENil, EInt 5, EString []] DescNullsFirst =
    Inr [0x00, 0x7A, 0x5F, 0x2F, 0x6F, 0x7F, 0xA0]" by code_simp
  from ordering_Unpack_Pack [OF _ this] show ?thesis by (simp add: int_elem_def)
qed

text \<open>
  (C28) Directed encodings sort as their direction says: ascending or descending element order, with
  nulls below everything else in the natural placement and above it in the counterflow placement
  before the inversion.
\<close>

theorem ordering_Pack_order:
  assumes "tuple_valid t" "tuple_valid u"
    and "ordering_Pack t dir = Inr b" "ordering_Pack u dir = Inr c"
  shows "b < c \<longleftrightarrow> direction_before dir t u"
  using orderings.enc_less [OF assms(1,2), of dir] assms(3,4) by (simp add: ordered_def)

theorem ordering_Pack_order_witness:
  "[0x15, 5] < [0xFE :: byte] \<longleftrightarrow> direction_before AscNullsLast [EInt 5] [ENil]"
proof -
  have "ordering_Pack [EInt 5] AscNullsLast = Inr [0x15, 5]" "ordering_Pack [ENil] AscNullsLast = Inr [0xFE]"
    by code_simp+
  from ordering_Pack_order [OF _ _ this] show ?thesis by (simp add: tuple_valid_def)
qed

end
