(* ===== verification/SimCommit.thy ===== *)
theory SimCommit
  imports SimView
begin

text \<open>
  Commit of the simulated database (\<^verbatim>\<open>pkg/simfdb/conflict.go\<close>, \<^verbatim>\<open>pkg/simfdb/simfdb.go\<close>): size limits, the
  resolution of conflicts under serializable snapshot isolation, the assignment of versions, the
  application of the mutations with their versionstamps, injected faults, and the retry loops.  The
  draws of the fault generator and the coin of an unknown result are arguments.
\<close>

section \<open>Limits and sizes\<close>

abbreviation valueSizeLimit :: nat where "valueSizeLimit \<equiv> 100000"
abbreviation txnSizeLimit :: int where "txnSizeLimit \<equiv> 10000000"
abbreviation versionsPerSecond :: int where "versionsPerSecond \<equiv> 1000000"
abbreviation mvccWindow :: int where "mvccWindow \<equiv> 5 * versionsPerSecond"
abbreviation sizeofMutationRef :: int where "sizeofMutationRef \<equiv> 44"
abbreviation sizeofKeyRangeRef :: int where "sizeofKeyRangeRef \<equiv> 24"

definition mutationBytes :: "mutation \<Rightarrow> int" where
  "mutationBytes m =
     (case mkind m of
        mutClear \<Rightarrow> int (2 * length (mkey m) + 1)
      | mutClearRange \<Rightarrow> int (length (mkey m) + length (mend m))
      | _ \<Rightarrow> int (length (mkey m) + length (presentBytes (mvalue m))))"

definition conflictRangeBytes :: "keyRange list \<Rightarrow> int" where
  "conflictRangeBytes rs = foldl (\<lambda>n r. n + (int (length (rbegin r) + length (rend r)) + sizeofKeyRangeRef)) 0 rs"

definition commitSize :: "simTxn \<Rightarrow> int" where
  "commitSize tx =
     (let n = foldl (\<lambda>n m. n + (mutationBytes m + sizeofMutationRef)) 0 (buffer tx)
      in n + conflictRangeBytes (readConflicts tx) + conflictRangeBytes (writeConflicts tx))"

text \<open>The loop of \<^verbatim>\<open>checkSizeLimits\<close> over the buffer.\<close>

fun checkMutations :: "mutation list \<Rightarrow> int option" where
  "checkMutations [] = None"
| "checkMutations (m # ms) =
     (if length (mkey m) > keySizeLimit \<or> length (mend m) > keySizeLimit then Some 2102
      else if length (presentBytes (mvalue m)) > valueSizeLimit then Some 2103
      else checkMutations ms)"

text \<open>The limits as integers, whose numerals evaluate fast.\<close>

lemma checkMutations_code [code]:
  "checkMutations [] = None"
  "checkMutations (m # ms) =
     (if int (length (mkey m)) > 10000 \<or> int (length (mend m)) > 10000 then Some 2102
      else if int (length (presentBytes (mvalue m))) > 100000 then Some 2103
      else checkMutations ms)"
  by auto

definition checkSizeLimits :: "simTxn \<Rightarrow> int option" where
  "checkSizeLimits tx =
     (case checkMutations (buffer tx) of
        Some e \<Rightarrow> Some e
      | None \<Rightarrow> if commitSize tx > txnSizeLimit then Some 2101 else None)"

definition GetApproximateSize :: "simTxn \<Rightarrow> int" where
  "GetApproximateSize tx =
     (let singleKeyClears = foldl (\<lambda>n m. if mkind m = mutClear then n + 1 else n) 0 (buffer tx)
      in commitSize tx - singleKeyClears * (sizeofMutationRef - sizeofKeyRangeRef))"

section \<open>Conflicts\<close>

definition rangesOverlap :: "keyRange \<Rightarrow> keyRange \<Rightarrow> bool" where
  "rangesOverlap a b \<longleftrightarrow> rbegin a < rend b \<and> rbegin b < rend a"

text \<open>The three nested loops over the log of committed writes.\<close>

definition hasConflict :: "simDB \<Rightarrow> simTxn \<Rightarrow> bool" where
  "hasConflict db tx =
     list_ex (\<lambda>cw. \<not> cwVersion cw \<le> readVersion tx \<and>
       list_ex (\<lambda>rc. list_ex (\<lambda>wr. rangesOverlap rc wr) (cwRanges cw)) (readConflicts tx)) (recentWrites db)"

section \<open>Versionstamps\<close>

definition versionstampBytes_sim :: "int \<Rightarrow> nat \<Rightarrow> bytes" where
  "versionstampBytes_sim commitVersion batchOrder =
     be_bytes 8 (nat (commitVersion mod 2 ^ 64)) @ be_bytes 2 batchOrder"

text \<open>The result is nil when nothing is copied into it.\<close>

definition stampVersionstamp :: "bytes \<Rightarrow> bytes \<Rightarrow> bytes option" where
  "stampVersionstamp buf stamp =
     (if length buf < 4 then appendNil buf
      else
        let offset = le_val (drop (length buf - 4) buf);
            out = take (length buf - 4) buf
        in if offset + length stamp \<le> length out
           then Some (take offset out @ stamp @ drop (offset + length stamp) out)
           else appendNil out)"

section \<open>Applying the mutations\<close>

text \<open>One turn of the loop of \<^verbatim>\<open>applyMutations\<close>, with the store and the write conflict ranges.\<close>

definition applyMutation ::
  "int \<Rightarrow> mvccStore \<times> keyRange list \<Rightarrow> mutation \<Rightarrow> mvccStore \<times> keyRange list" where
  "applyMutation cv st m =
     (case st of (s, wcr) \<Rightarrow>
       let stamp = versionstampBytes_sim cv 0
       in case mkind m of
            mutSet \<Rightarrow> (storePut s (mkey m) (mvalue m) cv, wcr)
          | mutClear \<Rightarrow> (storePut s (mkey m) None cv, wcr)
          | mutClearRange \<Rightarrow> (storeClearRange s (mkey m) (mend m) cv, wcr)
          | mutAtomic \<Rightarrow>
              (let existing = valueAt s (mkey m) cv;
                   (nv, clear) = applyAtomic (mop m) existing (presentBytes (mvalue m))
               in if clear then (storePut s (mkey m) None cv, wcr) else (storePut s (mkey m) nv cv, wcr))
          | mutVersionstampedKey \<Rightarrow>
              (let stampedKey = presentBytes (stampVersionstamp (mkey m) stamp)
               in (storePut s stampedKey (mvalue m) cv,
                   wcr @ [\<lparr>rbegin = stampedKey, rend = keyAfter stampedKey\<rparr>]))
          | mutVersionstampedValue \<Rightarrow>
              (storePut s (mkey m) (stampVersionstamp (presentBytes (mvalue m)) stamp) cv, wcr))"

definition applyMutations :: "simDB \<Rightarrow> simTxn \<Rightarrow> int \<Rightarrow> simDB \<times> keyRange list" where
  "applyMutations db tx cv =
     (let (s, wcr) = foldl (applyMutation cv) (store db, writeConflicts tx) (buffer tx)
      in (db\<lparr>store := s\<rparr>, wcr))"

section \<open>Commit\<close>

abbreviation injectCommitUnknownApplied :: int where "injectCommitUnknownApplied \<equiv> -1021"
abbreviation injectCommitUnknownDiscarded :: int where "injectCommitUnknownDiscarded \<equiv> -1022"

definition InjectOnce :: "simDB \<Rightarrow> int \<Rightarrow> simDB" where
  "InjectOnce db code = db\<lparr>pendingInject := code\<rparr>"

definition InjectSequence :: "simDB \<Rightarrow> int list \<Rightarrow> simDB" where
  "InjectSequence db codes = db\<lparr>injectQueue := injectQueue db @ codes\<rparr>"

definition takeInject :: "simDB \<Rightarrow> int \<times> simDB" where
  "takeInject db =
     (if pendingInject db \<noteq> 0 then (pendingInject db, db\<lparr>pendingInject := 0\<rparr>)
      else case injectQueue db of
             c # cs \<Rightarrow> (c, db\<lparr>injectQueue := cs\<rparr>)
           | [] \<Rightarrow> (0, db))"

text \<open>What \<^verbatim>\<open>env.Fault\<close> and \<^verbatim>\<open>env.Coin\<close> return at the sites of one commit.\<close>

record commitDraws =
  faultConflict :: bool
  faultTooOld :: bool
  faultUnknown :: bool
  coinApplied :: bool

definition noFaults :: commitDraws where
  "noFaults = \<lparr>faultConflict = False, faultTooOld = False, faultUnknown = False, coinApplied = False\<rparr>"

text \<open>The commit version and the application, after the verdict.\<close>

definition commitVersionOf :: "simDB \<Rightarrow> int" where
  "commitVersionOf db =
     (let cv = lastVersion db + 1; c = clockVersion db in if c > cv then c else cv)"

definition applyCommit :: "simDB \<Rightarrow> simTxn \<Rightarrow> simDB" where
  "applyCommit db tx =
     (let cv = commitVersionOf db;
          (db, wcr) = applyMutations db tx cv
      in db\<lparr>recentWrites := recentWrites db @ [\<lparr>cwVersion = cv, cwRanges = wcr\<rparr>], lastVersion := cv\<rparr>)"

text \<open>The commit from the draws of the faults on, once the resolver has found no conflict.\<close>

definition commitRest :: "simDB \<Rightarrow> simTxn \<Rightarrow> commitDraws \<Rightarrow> simDB \<times> simTxn \<times> int option" where
  "commitRest db tx draws =
     (let (inject, db) = takeInject db
      in if inject \<noteq> 0 \<and> inject \<noteq> 1021 \<and> inject \<noteq> injectCommitUnknownApplied \<and>
            inject \<noteq> injectCommitUnknownDiscarded
         then (db, tx, Some inject)
         else if faultConflict draws then (db, tx, Some 1020)
         else if faultTooOld draws then (db, tx, Some 1007)
         else
           let unknown = (inject = 1021 \<or> faultUnknown draws);
               (unknown, applied) =
                 (if inject = injectCommitUnknownApplied then (True, True)
                  else if inject = injectCommitUnknownDiscarded then (True, False)
                  else if unknown then (unknown, coinApplied draws)
                  else (unknown, True));
               db = (if unknown then db\<lparr>lastUnknownApplied := applied\<rparr> else db)
           in if unknown \<and> \<not> applied then (db, tx, Some 1021)
              else
                let cv = commitVersionOf db;
                    db = applyCommit db tx
                in if unknown then (db, tx, Some 1021)
                   else (db,
                         postCommitReset (tx\<lparr>committed := True, committedVersion := cv,
                           txVersionstamp := Some (versionstampBytes_sim cv 0)\<rparr>),
                         None))"

definition commit :: "simDB \<Rightarrow> simTxn \<Rightarrow> commitDraws \<Rightarrow> simDB \<times> simTxn \<times> int option" where
  "commit db tx draws =
     (let tx = ensureReadVersion db tx
      in if dbClosed db then (db, tx, Some 1025)
         else if length (buffer tx) = 0 \<and> length (writeConflicts tx) = 0
         then (db, postCommitReset (tx\<lparr>committed := True, committedVersion := -1\<rparr>), None)
         else case checkSizeLimits tx of
           Some err \<Rightarrow> (db, tx, Some err)
         | None \<Rightarrow>
           if length (readConflicts tx) > 0 \<and> readVersion tx < latestVersion db - mvccWindow
           then (db, tx, Some 1007)
           else if hasConflict db tx then (db, tx, Some 1020)
           else commitRest db tx draws)"

definition Commit :: "simDB \<Rightarrow> simTxn \<Rightarrow> commitDraws \<Rightarrow> simDB \<times> simTxn \<times> int option" where
  "Commit db tx draws =
     (if cancelled tx then (db, tx, Some 1025)
      else if committed tx \<and> length (buffer tx) = 0 then (db, tx, None)
      else let tx = (if committed tx then tx\<lparr>committed := False\<rparr> else tx) in commit db tx draws)"

definition Close :: "simDB \<Rightarrow> simDB" where
  "Close db = db\<lparr>dbClosed := True\<rparr>"


section \<open>What a commit does to one key\<close>

definition commitStep :: "int \<Rightarrow> bytes \<Rightarrow> bytes option \<Rightarrow> mutation \<Rightarrow> bytes option" where
  "commitStep cv k cur m =
     (case mkind m of
        mutVersionstampedKey \<Rightarrow>
          if presentBytes (stampVersionstamp (mkey m) (versionstampBytes_sim cv 0)) = k then mvalue m else cur
      | mutVersionstampedValue \<Rightarrow>
          if mkey m = k then stampVersionstamp (presentBytes (mvalue m)) (versionstampBytes_sim cv 0) else cur
      | _ \<Rightarrow> replayStep k cur m)"

text \<open>The keys a mutation writes at a commit version.\<close>

definition writesKey :: "int \<Rightarrow> mutation \<Rightarrow> bytes \<Rightarrow> bool" where
  "writesKey cv m k \<longleftrightarrow>
     (case mkind m of
        mutClearRange \<Rightarrow> mkey m \<le> k \<and> k < mend m
      | mutVersionstampedKey \<Rightarrow> presentBytes (stampVersionstamp (mkey m) (versionstampBytes_sim cv 0)) = k
      | _ \<Rightarrow> mkey m = k)"

lemma commitStep_untouched: "\<not> writesKey cv m k \<Longrightarrow> commitStep cv k cur m = cur"
  by (cases "mkind m") (auto simp: commitStep_def writesKey_def replayStep_def)

lemma applyMutation_spec:
  assumes "store_inv s cv" and "applyMutation cv (s, wcr) m = (s', wcr')"
  shows "store_inv s' cv" and "w < cv \<Longrightarrow> valueAt s' k w = valueAt s k w"
    and "cv \<le> w \<Longrightarrow> valueAt s' k w = commitStep cv k (valueAt s k cv) m"
proof -
  have *: "valueAt s k w = valueAt s k cv" if "cv \<le> w" for w using simstore.get_beyond [OF assms(1) that] .
  show "store_inv s' cv"
    using assms(2) simstore.put_inv [OF assms(1)] simstore.clear_inv [OF assms(1)]
    by (cases "mkind m") (auto simp: applyMutation_def Let_def split: prod.splits if_splits)
  show "w < cv \<Longrightarrow> valueAt s' k w = valueAt s k w"
    using assms(2) simstore.get_put [OF assms(1)] simstore.get_clear [OF assms(1)]
    by (cases "mkind m") (auto simp: applyMutation_def Let_def split: prod.splits if_splits)
  show "cv \<le> w \<Longrightarrow> valueAt s' k w = commitStep cv k (valueAt s k cv) m"
    using assms(2) simstore.get_put [OF assms(1)] simstore.get_clear [OF assms(1)] * [of w]
    by (cases "mkind m")
      (auto simp: applyMutation_def commitStep_def replayStep_def Let_def split: prod.splits if_splits)
qed

lemma applyMutation_wcr:
  assumes "applyMutation cv (s, wcr) m = (s', wcr')"
  shows "set wcr \<subseteq> set wcr'" and "mkind m = mutVersionstampedKey \<Longrightarrow> writesKey cv m k \<Longrightarrow> covered wcr' k"
proof -
  show "set wcr \<subseteq> set wcr'"
    using assms by (cases "mkind m") (auto simp: applyMutation_def Let_def split: prod.splits if_splits)
  show "mkind m = mutVersionstampedKey \<Longrightarrow> writesKey cv m k \<Longrightarrow> covered wcr' k"
    using assms less_keyAfter_same by (auto simp: applyMutation_def Let_def writesKey_def covered_def)
qed

lemma covered_mono: "set rs \<subseteq> set rs' \<Longrightarrow> covered rs k \<Longrightarrow> covered rs' k"
  by (auto simp: covered_def)

lemma applyMutations_spec:
  assumes "store_inv s cv" and "foldl (applyMutation cv) (s, wcr) ms = (s', wcr')"
  shows "store_inv s' cv" and "w < cv \<Longrightarrow> valueAt s' k w = valueAt s k w"
    and "cv \<le> w \<Longrightarrow> valueAt s' k w = foldl (commitStep cv k) (valueAt s k cv) ms"
    and "set wcr \<subseteq> set wcr'"
    and "m \<in> set ms \<Longrightarrow> mkind m = mutVersionstampedKey \<Longrightarrow> writesKey cv m k \<Longrightarrow> covered wcr' k"
proof -
  have "store_inv s' cv \<and> (w < cv \<longrightarrow> valueAt s' k w = valueAt s k w) \<and>
    (cv \<le> w \<longrightarrow> valueAt s' k w = foldl (commitStep cv k) (valueAt s k cv) ms) \<and> set wcr \<subseteq> set wcr' \<and>
    (\<forall>m \<in> set ms. mkind m = mutVersionstampedKey \<longrightarrow> writesKey cv m k \<longrightarrow> covered wcr' k)"
    using assms
  proof (induction ms arbitrary: s wcr)
    case Nil
    then show ?case using simstore.get_beyond [of s cv w k] by auto
  next
    case (Cons m ms)
    obtain s1 wcr1 where 1: "applyMutation cv (s, wcr) m = (s1, wcr1)" by fastforce
    note a = applyMutation_spec [OF Cons.prems(1) 1]
    have IH: "store_inv s' cv \<and> (w < cv \<longrightarrow> valueAt s' k w = valueAt s1 k w) \<and>
      (cv \<le> w \<longrightarrow> valueAt s' k w = foldl (commitStep cv k) (valueAt s1 k cv) ms) \<and> set wcr1 \<subseteq> set wcr' \<and>
      (\<forall>m \<in> set ms. mkind m = mutVersionstampedKey \<longrightarrow> writesKey cv m k \<longrightarrow> covered wcr' k)"
      using Cons.IH [OF a(1)] Cons.prems(2) 1 by simp
    moreover have "mkind m = mutVersionstampedKey \<longrightarrow> writesKey cv m k \<longrightarrow> covered wcr' k"
      using applyMutation_wcr(2) [OF 1] covered_mono IH by blast
    moreover have "set wcr \<subseteq> set wcr'" using applyMutation_wcr(1) [OF 1] IH by blast
    ultimately show ?case using a(2) [of w k] a(3) [of cv k] by simp
  qed
  then show "store_inv s' cv" "w < cv \<Longrightarrow> valueAt s' k w = valueAt s k w"
    "cv \<le> w \<Longrightarrow> valueAt s' k w = foldl (commitStep cv k) (valueAt s k cv) ms" "set wcr \<subseteq> set wcr'"
    "m \<in> set ms \<Longrightarrow> mkind m = mutVersionstampedKey \<Longrightarrow> writesKey cv m k \<Longrightarrow> covered wcr' k" by auto
qed

lemma foldl_commitStep_untouched:
  "\<forall>m \<in> set ms. \<not> writesKey cv m k \<Longrightarrow> foldl (commitStep cv k) cur ms = cur"
  by (induction ms arbitrary: cur) (simp_all add: commitStep_untouched)


section \<open>The invariant of the database\<close>

text \<open>
  The store holds no version above the last one committed, and whatever changed between two versions
  is in the log of committed writes.
\<close>

definition changesLogged :: "simDB \<Rightarrow> bool" where
  "changesLogged db \<longleftrightarrow>
     (\<forall>k v w. v \<le> w \<longrightarrow> valueAt (store db) k v \<noteq> valueAt (store db) k w \<longrightarrow>
        (\<exists>cw \<in> set (recentWrites db). v < cwVersion cw \<and> cwVersion cw \<le> w \<and> covered (cwRanges cw) k))"

definition db_inv :: "simDB \<Rightarrow> bool" where
  "db_inv db \<longleftrightarrow> store_inv (store db) (lastVersion db) \<and> 0 \<le> lastVersion db \<and>
     (\<forall>cw \<in> set (recentWrites db). cwVersion cw \<le> lastVersion db)"

text \<open>Every buffered write has its write conflict range, as it has unless an option turned it off.\<close>

definition mutationLogged :: "keyRange list \<Rightarrow> mutation \<Rightarrow> bool" where
  "mutationLogged wcs m \<longleftrightarrow>
     (case mkind m of
        mutVersionstampedKey \<Rightarrow> True
      | mutClearRange \<Rightarrow> \<lparr>rbegin = mkey m, rend = mend m\<rparr> \<in> set wcs
      | _ \<Rightarrow> \<lparr>rbegin = mkey m, rend = keyAfter (mkey m)\<rparr> \<in> set wcs)"

definition writesLogged :: "simTxn \<Rightarrow> bool" where
  "writesLogged tx \<longleftrightarrow> (\<forall>m \<in> set (buffer tx). mutationLogged (writeConflicts tx) m)"

lemma mutationLogged_covers:
  "mutationLogged wcs m \<Longrightarrow> mkind m \<noteq> mutVersionstampedKey \<Longrightarrow> writesKey cv m k \<Longrightarrow> covered wcs k"
  using less_keyAfter_same
  by (cases "mkind m") (auto simp: mutationLogged_def writesKey_def covered_def intro!: bexI)

lemma commitVersionOf_gt: "lastVersion db < commitVersionOf db"
  by (simp add: commitVersionOf_def Let_def)

lemma applyCommit_sel:
  "lastVersion (applyCommit db tx) = commitVersionOf db"
  "envClock (applyCommit db tx) = envClock db"
  "dbClosed (applyCommit db tx) = dbClosed db"
  by (simp_all add: applyCommit_def applyMutations_def Let_def split: prod.splits)

text \<open>The parts of an applied commit.\<close>

lemma applyCommit_parts:
  obtains s wcr where "foldl (applyMutation (commitVersionOf db)) (store db, writeConflicts tx) (buffer tx) = (s, wcr)"
    "store (applyCommit db tx) = s"
    "recentWrites (applyCommit db tx) = recentWrites db @ [\<lparr>cwVersion = commitVersionOf db, cwRanges = wcr\<rparr>]"
  by (cases "foldl (applyMutation (commitVersionOf db)) (store db, writeConflicts tx) (buffer tx)")
    (simp add: applyCommit_def applyMutations_def Let_def)

lemma db_inv_store:
  assumes "db_inv db"
  shows "store_inv (store db) (commitVersionOf db)"
    and "valueAt (store db) k (commitVersionOf db) = valueAt (store db) k (lastVersion db)"
proof -
  have inv0: "store_inv (store db) (lastVersion db)" using assms by (simp add: db_inv_def)
  then show "store_inv (store db) (commitVersionOf db)"
    using simstore.inv_mono commitVersionOf_gt [of db] by (blast intro: less_imp_le)
  show "valueAt (store db) k (commitVersionOf db) = valueAt (store db) k (lastVersion db)"
    using simstore.get_beyond [OF inv0, of "commitVersionOf db" k] commitVersionOf_gt [of db] by simp
qed

lemma applyCommit_spec:
  assumes "db_inv db"
  shows "db_inv (applyCommit db tx)"
    and "w < commitVersionOf db \<Longrightarrow> valueAt (store (applyCommit db tx)) k w = valueAt (store db) k w"
    and "commitVersionOf db \<le> w \<Longrightarrow> valueAt (store (applyCommit db tx)) k w =
      foldl (commitStep (commitVersionOf db) k) (valueAt (store db) k (lastVersion db)) (buffer tx)"
proof -
  let ?db = "applyCommit db tx"
  obtain s wcr where f: "foldl (applyMutation (commitVersionOf db)) (store db, writeConflicts tx) (buffer tx) = (s, wcr)"
    and db: "store ?db = s" "recentWrites ?db = recentWrites db @ [\<lparr>cwVersion = commitVersionOf db, cwRanges = wcr\<rparr>]"
    by (rule applyCommit_parts)
  note a = applyMutations_spec [OF db_inv_store(1) [OF assms] f]
  show "db_inv ?db" using assms a(1) commitVersionOf_gt [of db] by (force simp: db_inv_def db applyCommit_sel)
  show "w < commitVersionOf db \<Longrightarrow> valueAt (store ?db) k w = valueAt (store db) k w"
    using a(2) [of w k] by (simp add: db)
  show "commitVersionOf db \<le> w \<Longrightarrow> valueAt (store ?db) k w =
      foldl (commitStep (commitVersionOf db) k) (valueAt (store db) k (lastVersion db)) (buffer tx)"
    using a(3) [of w k] by (simp add: db db_inv_store(2) [OF assms])
qed

lemma applyCommit_covers:
  assumes "db_inv db" "writesLogged tx" "m \<in> set (buffer tx)" "writesKey (commitVersionOf db) m k"
  shows "\<exists>cw \<in> set (recentWrites (applyCommit db tx)). cwVersion cw = commitVersionOf db \<and> covered (cwRanges cw) k"
proof -
  obtain s wcr where f: "foldl (applyMutation (commitVersionOf db)) (store db, writeConflicts tx) (buffer tx) = (s, wcr)"
    and db: "recentWrites (applyCommit db tx) = recentWrites db @ [\<lparr>cwVersion = commitVersionOf db, cwRanges = wcr\<rparr>]"
    by (rule applyCommit_parts)
  note a = applyMutations_spec [OF db_inv_store(1) [OF assms(1)] f]
  have "covered wcr k"
    using a(4) a(5) assms(2-4) mutationLogged_covers covered_mono unfolding writesLogged_def by blast
  then show ?thesis by (simp add: db)
qed

lemma changesLogged_applyCommit:
  assumes "db_inv db" and "changesLogged db" and "writesLogged tx"
  shows "changesLogged (applyCommit db tx)"
  unfolding changesLogged_def
proof (intro allI impI)
  let ?cv = "commitVersionOf db" and ?db = "applyCommit db tx"
  note below = applyCommit_spec(2) [OF assms(1), of _ tx] and above = applyCommit_spec(3) [OF assms(1), of _ tx]
  fix k v w assume vw: "v \<le> w" and ne: "valueAt (store ?db) k v \<noteq> valueAt (store ?db) k w"
  have "set (recentWrites db) \<subseteq> set (recentWrites ?db)" by (rule applyCommit_parts [of db tx]) auto
  then have old: "\<exists>cw \<in> set (recentWrites ?db). v < cwVersion cw \<and> cwVersion cw \<le> w \<and> covered (cwRanges cw) k"
    if "v \<le> w'" "w' \<le> w" "valueAt (store db) k v \<noteq> valueAt (store db) k w'" for w'
    using assms(2) that unfolding changesLogged_def by fastforce
  consider (before) "w < ?cv" | (across) "v < ?cv" "?cv \<le> w" | (after) "?cv \<le> v" by linarith
  then show "\<exists>cw \<in> set (recentWrites ?db). v < cwVersion cw \<and> cwVersion cw \<le> w \<and> covered (cwRanges cw) k"
  proof cases
    case before
    then show ?thesis using old [of w] vw ne below [of v k] below [of w k] by simp
  next
    case across
    show ?thesis
    proof (cases "\<exists>m \<in> set (buffer tx). writesKey ?cv m k")
      case True
      then obtain m where "m \<in> set (buffer tx)" "writesKey ?cv m k" ..
      from applyCommit_covers [OF assms(1,3) this] across show ?thesis by (auto intro!: bexI)
    next
      case False
      then have "valueAt (store ?db) k w = valueAt (store db) k ?cv"
        using above [OF across(2)] foldl_commitStep_untouched db_inv_store(2) [OF assms(1)] by simp
      then show ?thesis using old [of ?cv] across ne below [of v k] by simp
    qed
  next
    case after
    then show ?thesis using ne above [of v k] above [of w k] vw by simp
  qed
qed

section \<open>The verdict of a commit\<close>

text \<open>What the invariants depend on: faults and their injection change nothing of it.\<close>

definition dbData :: "simDB \<Rightarrow> mvccStore \<times> int \<times> committedWrites list \<times> int option \<times> bool" where
  "dbData db = (store db, lastVersion db, recentWrites db, envClock db, dbClosed db)"

lemma dbData_takeInject: "takeInject db = (c, db') \<Longrightarrow> dbData db' = dbData db"
  by (auto simp: takeInject_def dbData_def split: if_splits list.splits)

lemma commitVersionOf_data: "dbData db' = dbData db \<Longrightarrow> commitVersionOf db' = commitVersionOf db"
  by (simp add: dbData_def commitVersionOf_def clockVersion_def)

lemma applyCommit_data: "dbData db' = dbData db \<Longrightarrow> dbData (applyCommit db' tx) = dbData (applyCommit db tx)"
  using commitVersionOf_data [of db' db]
  by (auto simp: dbData_def applyCommit_def applyMutations_def Let_def split: prod.splits)

lemma db_inv_data: "dbData db' = dbData db \<Longrightarrow> db_inv db' = db_inv db"
  by (simp add: dbData_def db_inv_def)

lemma changesLogged_data: "dbData db' = dbData db \<Longrightarrow> changesLogged db' = changesLogged db"
  by (simp add: dbData_def changesLogged_def)

lemma commitRest_cases:
  assumes "commitRest db tx draws = (db', tx', r)"
  shows "dbData db' = dbData db \<and> tx' = tx \<and> r \<noteq> None \<or>
    dbData db' = dbData (applyCommit db tx) \<and>
      (r = Some 1021 \<and> tx' = tx \<or>
       r = None \<and> tx' = postCommitReset (tx\<lparr>committed := True, committedVersion := commitVersionOf db,
         txVersionstamp := Some (versionstampBytes_sim (commitVersionOf db) 0)\<rparr>))"
proof -
  obtain inject db1 where t: "takeInject db = (inject, db1)" by fastforce
  have d: "dbData db1 = dbData db" "dbData (db1\<lparr>lastUnknownApplied := a\<rparr>) = dbData db" for a
    using dbData_takeInject [OF t] by (simp_all add: dbData_def)
  note ac = applyCommit_data [OF d(1), of tx] applyCommit_data [OF d(2), of _ tx]
    commitVersionOf_data [OF d(1)] commitVersionOf_data [OF d(2)]
  show ?thesis
    using assms d ac unfolding commitRest_def t by (auto simp: Let_def split: if_splits)
qed


lemma ensureReadVersion_sel [simp]:
  "rvSet (ensureReadVersion db tx)"
  "buffer (ensureReadVersion db tx) = buffer tx"
  "readConflicts (ensureReadVersion db tx) = readConflicts tx"
  "writeConflicts (ensureReadVersion db tx) = writeConflicts tx"
  "rywDisabled (ensureReadVersion db tx) = rywDisabled tx"
  "writesLogged (ensureReadVersion db tx) = writesLogged tx"
  "rvSet tx \<Longrightarrow> ensureReadVersion db tx = tx"
  by (simp_all add: ensureReadVersion_def writesLogged_def)

lemma commit_cases:
  assumes "commit db tx draws = (db', tx', r)"
  obtains (refused) "dbData db' = dbData db" "tx' = ensureReadVersion db tx" "r \<noteq> None"
  | (empty) "db' = db" "buffer tx = []" "writeConflicts tx = []" "r = None" "\<not> dbClosed db"
      "tx' = postCommitReset ((ensureReadVersion db tx)\<lparr>committed := True, committedVersion := -1\<rparr>)"
  | (applied) "dbData db' = dbData (applyCommit db (ensureReadVersion db tx))" "\<not> dbClosed db"
      "buffer tx \<noteq> [] \<or> writeConflicts tx \<noteq> []" "checkSizeLimits (ensureReadVersion db tx) = None"
      "\<not> hasConflict db (ensureReadVersion db tx)"
      "r = Some 1021 \<and> tx' = ensureReadVersion db tx \<or>
       r = None \<and> tx' = postCommitReset ((ensureReadVersion db tx)\<lparr>committed := True,
         committedVersion := commitVersionOf db, txVersionstamp := Some (versionstampBytes_sim (commitVersionOf db) 0)\<rparr>)"
proof -
  let ?tx = "ensureReadVersion db tx"
  consider "dbClosed db" | "\<not> dbClosed db" "buffer tx = []" "writeConflicts tx = []"
    | "\<not> dbClosed db" "buffer tx \<noteq> [] \<or> writeConflicts tx \<noteq> []" "checkSizeLimits ?tx \<noteq> None \<or>
        length (readConflicts ?tx) > 0 \<and> readVersion ?tx < latestVersion db - mvccWindow \<or> hasConflict db ?tx"
    | "\<not> dbClosed db" "buffer tx \<noteq> [] \<or> writeConflicts tx \<noteq> []" "checkSizeLimits ?tx = None"
      "\<not> (length (readConflicts ?tx) > 0 \<and> readVersion ?tx < latestVersion db - mvccWindow)" "\<not> hasConflict db ?tx"
    by blast
  then show ?thesis
  proof cases
    case 1
    then have "db' = db \<and> tx' = ?tx \<and> r \<noteq> None" using assms by (auto simp: commit_def Let_def)
    then show ?thesis using refused by simp
  next
    case 2
    then have "db' = db \<and> tx' = postCommitReset (?tx\<lparr>committed := True, committedVersion := -1\<rparr>) \<and> r = None"
      using assms by (auto simp: commit_def Let_def)
    then show ?thesis using empty 2 by blast
  next
    case 3
    then have "\<exists>err. commit db tx draws = (db, ?tx, Some err)"
      by (cases "checkSizeLimits ?tx") (auto simp: commit_def Let_def)
    then show ?thesis using assms refused by auto
  next
    case 4
    then have "commitRest db ?tx draws = (db', tx', r)" using assms by (auto simp: commit_def Let_def)
    from commitRest_cases [OF this] show ?thesis using 4 refused applied by blast
  qed
qed

lemma commit_data:
  assumes "commit db tx draws = (db', tx', r)"
  shows "dbData db' = dbData db \<or> dbData db' = dbData (applyCommit db (ensureReadVersion db tx))"
  using assms by (rule commit_cases) simp_all

lemma commit_inv:
  assumes "commit db tx draws = (db', tx', r)" and "db_inv db"
  shows "db_inv db'" and "lastVersion db \<le> lastVersion db'"
    and "w \<le> lastVersion db \<Longrightarrow> valueAt (store db') k w = valueAt (store db) k w"
    and "changesLogged db \<Longrightarrow> writesLogged tx \<Longrightarrow> changesLogged db'"
    and "envClock db' = envClock db"
proof -
  let ?tx = "ensureReadVersion db tx"
  note a = applyCommit_spec [OF assms(2), where tx = ?tx] and gt = commitVersionOf_gt [of db]
  have "db_inv db' \<and> lastVersion db \<le> lastVersion db' \<and> envClock db' = envClock db \<and>
    (w \<le> lastVersion db \<longrightarrow> valueAt (store db') k w = valueAt (store db) k w) \<and>
    (changesLogged db \<longrightarrow> writesLogged tx \<longrightarrow> changesLogged db')"
    using commit_data [OF assms(1)]
  proof
    assume d: "dbData db' = dbData db"
    then show ?thesis using assms(2) db_inv_data [OF d] changesLogged_data [OF d] by (simp add: dbData_def)
  next
    assume d: "dbData db' = dbData (applyCommit db ?tx)"
    then have "store db' = store (applyCommit db ?tx)" "lastVersion db' = commitVersionOf db" "envClock db' = envClock db"
      by (simp_all add: dbData_def applyCommit_sel)
    then show ?thesis
      using a(1) a(2) [of w k] gt changesLogged_applyCommit [OF assms(2), of ?tx] db_inv_data [OF d] changesLogged_data [OF d]
      by simp
  qed
  then show "db_inv db'" "lastVersion db \<le> lastVersion db'" "envClock db' = envClock db"
    "w \<le> lastVersion db \<Longrightarrow> valueAt (store db') k w = valueAt (store db) k w"
    "changesLogged db \<Longrightarrow> writesLogged tx \<Longrightarrow> changesLogged db'" by simp_all
qed

text \<open>The resolver finds every change of a key that the transaction read.\<close>

lemma no_conflict_unchanged:
  assumes "db_inv db" "changesLogged db" "\<not> hasConflict db tx" "covered (readConflicts tx) k"
  shows "valueAt (store db) k (readVersion tx) = valueAt (store db) k (lastVersion db)"
proof (cases "readVersion tx \<le> lastVersion db")
  case False
  have "store_inv (store db) (lastVersion db)" using assms(1) by (simp add: db_inv_def)
  then show ?thesis using simstore.get_beyond [of "store db" "lastVersion db" "readVersion tx" k] False by simp
next
  case True
  show ?thesis
  proof (rule ccontr)
    assume "valueAt (store db) k (readVersion tx) \<noteq> valueAt (store db) k (lastVersion db)"
    then obtain cw where cw: "cw \<in> set (recentWrites db)" "readVersion tx < cwVersion cw" "covered (cwRanges cw) k"
      using assms(2) True unfolding changesLogged_def by blast
    obtain wr where wr: "wr \<in> set (cwRanges cw)" "within wr k" using cw(3) by (auto simp: covered_def)
    obtain rc where rc: "rc \<in> set (readConflicts tx)" "within rc k" using assms(4) by (auto simp: covered_def)
    have "rangesOverlap rc wr"
      using wr(2) rc(2) by (auto simp: rangesOverlap_def within_def intro: le_less_trans)
    then have "hasConflict db tx"
      using cw(1,2) wr(1) rc(1) unfolding hasConflict_def list_ex_iff by force
    with assms(3) show False ..
  qed
qed

end
