(* ===== verification/SimSerial.thy ===== *)
theory SimSerial
  imports SimCommit SimRange
begin

text \<open>
  Concurrent transactions of the simulated database.  A system is a database with any number of open
  transactions whose operations interleave; every read that takes conflicts is logged with what it
  returned.  Without a clock the commits are serializable: when a transaction commits, each of its logged
  reads would return the same in the state it commits into.  With a clock they are not, as an example shows.
\<close>

section \<open>Reads that later writes cannot change unnoticed\<close>

text \<open>
  A key is guarded when the transaction has a read conflict on it, or when its own pending writes decide
  the value whatever the database holds.
\<close>

definition guarded :: "simTxn \<Rightarrow> bytes \<Rightarrow> bool" where
  "guarded tx k \<longleftrightarrow> covered (readConflicts tx) k \<or> \<not> rywDisabled tx \<and> \<not> conflictForKeyDirect (buffer tx) k"

definition growsConflicts :: "simTxn \<Rightarrow> simTxn \<Rightarrow> bool" where
  "growsConflicts tx' tx \<longleftrightarrow> set (readConflicts tx) \<subseteq> set (readConflicts tx')"

lemma growsConflicts_refl [simp]: "growsConflicts tx tx"
  by (simp add: growsConflicts_def)

lemma growsConflicts_trans: "growsConflicts a b \<Longrightarrow> growsConflicts b c \<Longrightarrow> growsConflicts a c"
  by (auto simp: growsConflicts_def)

lemma guarded_grows: "guarded tx k \<Longrightarrow> sameView tx' tx \<Longrightarrow> growsConflicts tx' tx \<Longrightarrow> guarded tx' k"
  by (auto simp: guarded_def sameView_def growsConflicts_def dest: covered_mono)

lemma readConflicts_adds:
  "readConflicts (foldl (\<lambda>tx r. addReadConflict tx (rbegin r) (rend r)) tx rs) = readConflicts tx @ rs"
  by (induction rs arbitrary: tx) (auto simp: addReadConflict_def)

lemma readConflicts_filtered:
  "readConflicts (addFilteredReadConflict tx b e) =
     readConflicts tx @ (if b \<ge> e then [] else if rywDisabled tx then [\<lparr>rbegin = b, rend = e\<rparr>]
       else conflictRanges (buildWriteMap (buffer tx)) b e)"
proof -
  have "readConflicts (addReadConflict tx b e) = readConflicts tx @ [\<lparr>rbegin = b, rend = e\<rparr>]"
    by (simp add: addReadConflict_def)
  then show ?thesis by (simp add: addFilteredReadConflict_def readConflicts_adds)
qed

lemma addFilteredReadConflict_guards:
  assumes "b \<le> k" "k < e"
  shows "guarded (addFilteredReadConflict tx b e) k"
proof (cases "rywDisabled tx")
  case True
  then show ?thesis using assms le_less_trans [OF assms] by (simp add: guarded_def readConflicts_filtered within_def)
next
  case False
  moreover have "b < e" using assms by (rule le_less_trans)
  ultimately show ?thesis
    using assms conflictRanges_spec [OF separated_buildWriteMap, of "buffer tx" b e k] conflictForKeyDirect_eq [of "buffer tx" k]
      sameView_addFilteredReadConflict [of tx b e]
    by (auto simp: guarded_def readConflicts_filtered sameView_def)
qed

lemma growsConflicts_addFiltered [simp]: "growsConflicts (addFilteredReadConflict tx b e) tx"
  by (simp add: growsConflicts_def readConflicts_filtered)

lemma growsConflicts_addConflict [simp]: "growsConflicts (addConflict tx opts b e kvs m) tx"
  by (simp add: addConflict_def split: prod.split)

lemma growsConflicts_rememberRead [simp]: "growsConflicts (rememberRead tx b e) tx"
  by (simp add: growsConflicts_def rememberRead_def)

lemma growsConflicts_fetchRange:
  "fetchRange db tx b e limit bt reverse = (tx', r) \<Longrightarrow> growsConflicts tx' tx"
  by (auto simp: fetchRange_def rememberRangeRead_def Let_def split: if_splits option.splits prod.splits)

text \<open>The keys of a range up to the last row of a batch, in the direction of the read.\<close>

definition reachedBy :: "bool \<Rightarrow> row list \<Rightarrow> bytes \<Rightarrow> bool" where
  "reachedBy reverse kvs k \<longleftrightarrow> kvs \<noteq> [] \<and> (if reverse then fst (last kvs) \<le> k else k \<le> fst (last kvs))"

lemma addConflict_guards:
  assumes "b \<le> k" "k < e" and "hasMore \<Longrightarrow> kvs \<noteq> [] \<Longrightarrow> reachedBy (Reverse opts) kvs k"
  shows "guarded (addConflict tx opts b e kvs hasMore) k"
proof -
  obtain cb ce where ext: "rangeConflictExtent b e kvs hasMore (Reverse opts) = (cb, ce)" by fastforce
  then have "cb \<le> k" "k < ce"
    using assms by (auto simp: rangeConflictExtent_def reachedBy_def Let_def less_keyAfter_iff split: if_splits)
  then show ?thesis
    using addFilteredReadConflict_guards [of cb k ce tx] le_less_trans ext by (fastforce simp: addConflict_def)
qed

lemma sliceLoop_guards:
  assumes "store_inv (store db) u" and "readable tx" and "kvs \<noteq> []"
    and "sliceLoop db tx opts False b e remaining kvs hasMore = (tx', Inr kvs')"
    and "\<not> hasMore \<Longrightarrow> (\<And>k. b \<le> k \<Longrightarrow> k < e \<Longrightarrow> \<not> reachedBy (Reverse opts) kvs k \<Longrightarrow> guarded tx k)"
  shows "sameView tx' tx \<and> growsConflicts tx' tx \<and>
    (\<forall>k. b \<le> k \<and> k < e \<and> \<not> reachedBy (Reverse opts) kvs k \<and>
       (int (length kvs') < int (length kvs) + remaining \<or> reachedBy (Reverse opts) kvs' k) \<longrightarrow> guarded tx' k)"
  using assms
proof (induction "nat remaining" arbitrary: tx b e remaining kvs hasMore rule: less_induct)
  case less
  let ?b = "if Reverse opts then b else keyAfter (fst (last kvs))"
    and ?e = "if Reverse opts then fst (last kvs) else e"
  show ?case
  proof (cases "hasMore \<and> remaining > 0 \<and> length kvs > 0")
    case False
    then have eq: "tx' = tx" "kvs' = kvs"
      using less.prems(4) trans [OF sliceLoop.simps [of db tx opts False b e remaining kvs hasMore] if_not_P [OF False]] by simp_all
    from False less.prems(3) have "\<not> hasMore \<or> remaining \<le> 0" by auto
    then show ?thesis unfolding eq using less.prems(5) by auto
  next
    case True
    have win: "?b \<le> k \<and> k < ?e" if "b \<le> k" "k < e" "\<not> reachedBy (Reverse opts) kvs k" for k
      using that less.prems(3) by (auto simp: reachedBy_def keyAfter_le_iff not_le split: if_splits)
    obtain tx1 rest m where f: "fetchRange db tx ?b ?e remaining ByteLimitUnlimited (Reverse opts) = (tx1, Inr (rest, m, ?b, ?e))"
      and same: "sameView tx1 tx"
      using fetchRange_page [OF less.prems(1,2), of remaining ByteLimitUnlimited ?b ?e "Reverse opts"] True by metis
    define tx2 where "tx2 = addConflict tx1 opts ?b ?e rest m"
    have same2: "sameView tx2 tx" unfolding tx2_def by (rule sameView_trans [OF sameView_addConflict same])
    have grow2: "growsConflicts tx2 tx"
      unfolding tx2_def by (rule growsConflicts_trans [OF growsConflicts_addConflict growsConflicts_fetchRange [OF f]])
    have guard2: "guarded tx2 k" if "b \<le> k" "k < e" "\<not> reachedBy (Reverse opts) kvs k"
        "m \<Longrightarrow> rest \<noteq> [] \<Longrightarrow> reachedBy (Reverse opts) rest k" for k
      unfolding tx2_def using addConflict_guards win that by blast
    show ?thesis
    proof (cases "rest = []")
      case empty: True
      then have "tx' = tx2" using True f less.prems(4)
        by (simp add: sliceLoop.simps [of db tx opts False b e] Let_def tx2_def)
      then show ?thesis using same2 grow2 guard2 empty by simp
    next
      case False
      let ?kvs = "kvs @ rest" and ?rem = "remaining - int (length rest)"
      have step: "sliceLoop db tx2 opts False ?b ?e ?rem ?kvs m = (tx', Inr kvs')"
        using True f False less.prems(4) by (simp add: sliceLoop.simps [of db tx opts False b e] Let_def tx2_def)
      have reach: "reachedBy (Reverse opts) ?kvs k = reachedBy (Reverse opts) rest k" for k
        using False by (simp add: reachedBy_def)
      have "nat ?rem < nat remaining" using True False by (cases rest) auto
      moreover have "guarded tx2 k" if "\<not> m" "?b \<le> k" "k < ?e" for k
        unfolding tx2_def by (rule addConflict_guards [OF that(2,3)]) (use that in simp)
      ultimately have IH: "sameView tx' tx2 \<and> growsConflicts tx' tx2 \<and>
          (\<forall>k. ?b \<le> k \<and> k < ?e \<and> \<not> reachedBy (Reverse opts) ?kvs k \<and>
            (int (length kvs') < int (length ?kvs) + ?rem \<or> reachedBy (Reverse opts) kvs' k) \<longrightarrow> guarded tx' k)"
        using less.hyps [OF _ less.prems(1) _ _ step] readable_sameView [OF same2] less.prems(2) False by simp
      have "guarded tx' k" if k: "b \<le> k" "k < e" "\<not> reachedBy (Reverse opts) kvs k"
          "int (length kvs') < int (length kvs) + remaining \<or> reachedBy (Reverse opts) kvs' k" for k
      proof (cases "reachedBy (Reverse opts) rest k")
        case True
        then have "guarded tx2 k" using guard2 k by blast
        then show ?thesis using guarded_grows IH by blast
      next
        case False
        then show ?thesis using IH win [OF k(1-3)] k(4) unfolding reach by simp
      qed
      then show ?thesis
        using IH sameView_trans [OF _ same2, of tx'] growsConflicts_trans [OF _ grow2, of tx'] by blast
    qed
  qed
qed


lemma issueFirst_guards:
  assumes inv: "store_inv (store db) u" and v: "validOptions opts" and rd: "readable (ensureReadVersion db tx)"
    and i: "issueFirst db tx opts False (FirstGreaterOrEqual b) (FirstGreaterOrEqual e) = (tx', f)"
  shows "growsConflicts tx' tx" and "b \<le> k \<Longrightarrow> k < e \<Longrightarrow>
    (fbMore f \<Longrightarrow> fbBatch f \<noteq> [] \<Longrightarrow> reachedBy (Reverse opts) (fbBatch f) k) \<Longrightarrow> guarded tx' k"
    and "fbBegin f = (if e < b then [] else b)" "fbEnd f = (if e < b then [] else e)"
proof -
  let ?tx = "ensureReadVersion db tx" and ?L = "EffectiveRowLimit (Limit opts)"
  obtain bt where bt: "modeTargetBytes (Mode opts) 1 = Inr bt" and lim: "-1 \<le> Limit opts"
    using v by (auto simp: validOptions_def)
  define b' e' where "b' = (if e < b then [] else b)" and "e' = (if e < b then [] else e)"
  have c: "\<not> cancelled tx" using rd by (simp add: readable_def ensureReadVersion_def split: if_splits)
  have want: "0 < min ?L replyByteLimit" using EffectiveRowLimit_pos [OF lim] by simp
  obtain tx1 batch m where fetch: "fetchRange db ?tx b' e' (min ?L replyByteLimit) bt (Reverse opts) = (tx1, Inr (batch, m, b', e'))"
    using fetchRange_page [OF inv rd want modeTargetBytes_pos [OF bt], of b' e' "Reverse opts"] by metis
  have eq: "tx' = addConflict tx1 opts b' e' batch m" "fbBatch f = batch" "fbMore f = m" "fbBegin f = b'" "fbEnd f = e'"
    using issueFirst_exact [OF v c bt fetch [unfolded b'_def e'_def], of False] i unfolding b'_def e'_def by auto
  have "growsConflicts tx1 ?tx" by (rule growsConflicts_fetchRange [OF fetch])
  then show "growsConflicts tx' tx"
    unfolding eq(1) using growsConflicts_trans [OF growsConflicts_addConflict] by (fastforce simp: growsConflicts_def)
  show "guarded tx' k" if k: "b \<le> k" "k < e" "fbMore f \<Longrightarrow> fbBatch f \<noteq> [] \<Longrightarrow> reachedBy (Reverse opts) (fbBatch f) k"
  proof -
    have "b' = b" "e' = e" using le_less_trans [OF k(1,2)] unfolding b'_def e'_def by auto
    then show ?thesis unfolding eq(1) using addConflict_guards k eq by auto
  qed
  show "fbBegin f = (if e < b then [] else b)" "fbEnd f = (if e < b then [] else e)"
    unfolding eq b'_def e'_def by (rule refl)+
qed

lemma getRangeSlice_guards:
  assumes inv: "store_inv (store db) u" and v: "validOptions opts" and rd: "readable (ensureReadVersion db tx)"
    and g: "getRangeSlice db tx opts False (FirstGreaterOrEqual b) (FirstGreaterOrEqual e) = (tx', Inr kvs)"
  shows "growsConflicts tx' tx"
    and "b \<le> k \<Longrightarrow> k < e \<Longrightarrow> int (length kvs) < EffectiveRowLimit (Limit opts) \<or> reachedBy (Reverse opts) kvs k \<Longrightarrow> guarded tx' k"
proof -
  let ?tx = "ensureReadVersion db tx" and ?L = "EffectiveRowLimit (Limit opts)"
  define D where "D = rowsOf db ?tx (Reverse opts) b e"
  obtain tx1 c f where i: "issueFirst db tx opts False (FirstGreaterOrEqual b) (FirstGreaterOrEqual e) = (tx1, f)"
    and same: "sameView tx1 ?tx" and f: "fbErr f = None" "fbBatch f = take c D" "\<not> selOn (fbSel f)" "fbLimit f = ?L"
    using issueFirst_page [OF inv v rd D_def, of False] by metis
  note first = issueFirst_guards [OF inv v rd i]
  have rd1: "readable tx1" using rd readable_sameView [OF same] by simp
  let ?rem = "fbLimit f - int (length (fbBatch f))"
  have loop: "sliceLoop db tx1 opts False (fbBegin f) (fbEnd f) ?rem (fbBatch f) (fbMore f) = (tx', Inr kvs)"
    using i f rd1 g by (simp add: getRangeSlice_def GetSliceWithError_def takeFirst_def readable_def)
  have "growsConflicts tx' tx \<and> (b \<le> k \<longrightarrow> k < e \<longrightarrow>
      int (length kvs) < ?L \<or> reachedBy (Reverse opts) kvs k \<longrightarrow> guarded tx' k)"
  proof (cases "fbBatch f = []")
    case True
    then have "tx' = tx1" using loop by (simp add: sliceLoop.simps)
    then show ?thesis using first(1) first(2) [of k] True by simp
  next
    case False
    have "sameView tx' tx1 \<and> growsConflicts tx' tx1 \<and>
      (\<forall>k. fbBegin f \<le> k \<and> k < fbEnd f \<and> \<not> reachedBy (Reverse opts) (fbBatch f) k \<and>
       (int (length kvs) < int (length (fbBatch f)) + ?rem \<or> reachedBy (Reverse opts) kvs k) \<longrightarrow> guarded tx' k)"
    proof (rule sliceLoop_guards [OF inv rd1 False loop])
      fix k
      assume k: "\<not> fbMore f" "fbBegin f \<le> k" "k < fbEnd f"
      then have "\<not> e < b" unfolding first by auto
      then show "guarded tx1 k" using first(2) [of k] k unfolding first(3,4) by simp
    qed
    note loop_guards = this
    have "guarded tx' k" if k: "b \<le> k" "k < e" "int (length kvs) < ?L \<or> reachedBy (Reverse opts) kvs k"
    proof (cases "reachedBy (Reverse opts) (fbBatch f) k")
      case True
      then have "guarded tx1 k" using first(2) k by blast
      then show ?thesis using guarded_grows loop_guards by blast
    next
      case False
      moreover have "fbBegin f = b" "fbEnd f = e" using le_less_trans [OF k(1,2)] unfolding first(3,4) by auto
      ultimately show ?thesis using loop_guards k f(4) by simp
    qed
    then show ?thesis using loop_guards growsConflicts_trans [OF _ first(1)] by blast
  qed
  then show "growsConflicts tx' tx" and "b \<le> k \<Longrightarrow> k < e \<Longrightarrow> int (length kvs) < ?L \<or> reachedBy (Reverse opts) kvs k \<Longrightarrow> guarded tx' k"
    by blast+
qed


section \<open>The log of reads\<close>

text \<open>An entry holds the transaction as it was when it read, what it read, and the result.\<close>

datatype readEntry =
    ReadKey simTxn bytes "bytes option"
  | ReadRange simTxn RangeOptions bytes bytes "row list"

text \<open>Reading again at a version gives the same.\<close>

fun replays :: "simDB \<Rightarrow> int \<Rightarrow> readEntry \<Rightarrow> bool" where
  "replays db v (ReadKey t k r) = (resolveKey db (t\<lparr>readVersion := v\<rparr>) k = r)"
| "replays db v (ReadRange t opts b e kvs) =
     (take (nat (EffectiveRowLimit (Limit opts))) (rowsOf db (t\<lparr>readVersion := v\<rparr>) (Reverse opts) b e) = kvs)"

text \<open>A later state of the transaction has conflicts on what the entry depends on.\<close>

definition kept :: "simTxn \<Rightarrow> simTxn \<Rightarrow> bytes \<Rightarrow> bool" where
  "kept tx t k \<longleftrightarrow> covered (readConflicts tx) k \<or> \<not> rywDisabled t \<and> \<not> conflictForKeyDirect (buffer t) k"

fun protects :: "simTxn \<Rightarrow> readEntry \<Rightarrow> bool" where
  "protects tx (ReadKey t k r) = kept tx t k"
| "protects tx (ReadRange t opts b e kvs) =
     (\<forall>k. b \<le> k \<and> k < e \<and> (int (length kvs) < EffectiveRowLimit (Limit opts) \<or> reachedBy (Reverse opts) kvs k) \<longrightarrow> kept tx t k)"

lemma protects_grows: "protects tx en \<Longrightarrow> growsConflicts tx' tx \<Longrightarrow> protects tx' en"
  by (cases en) (auto simp: kept_def growsConflicts_def dest: covered_mono)

lemma directStep_independent_view:
  "case foldl (directStep k) (False, False, False) ms of (hasOp, dep, cleared) \<Rightarrow>
     (hasOp \<and> \<not> dep \<longrightarrow> foldl (viewStep k) x ms = foldl (viewStep k) y ms) \<and>
     (\<not> hasOp \<and> cleared \<longrightarrow> foldl (viewStep k) x ms = None \<and> foldl (viewStep k) y ms = None)"
proof (induction ms rule: rev_induct)
  case (snoc m ms)
  define X Y where "X = foldl (viewStep k) x ms" and "Y = foldl (viewStep k) y ms"
  obtain h d c where st: "foldl (directStep k) (False, False, False) ms = (h, d, c)"
    by (cases "foldl (directStep k) (False, False, False) ms")
  have "h \<and> \<not> d \<longrightarrow> X = Y" "\<not> h \<and> c \<longrightarrow> X = None \<and> Y = None"
    using snoc unfolding st X_def Y_def by simp_all
  then show ?case
    unfolding foldl_append foldl_Cons foldl_Nil st X_def [symmetric] Y_def [symmetric]
    by (cases "mkind m") (auto simp: directStep_def viewStep_def)
qed simp

lemma conflictForKeyDirect_view:
  "\<not> conflictForKeyDirect ms k \<Longrightarrow> foldl (viewStep k) x ms = foldl (viewStep k) y ms"
  using directStep_independent_view [where k = k and ms = ms and x = x and y = y]
  by (auto simp: conflictForKeyDirect_def split: prod.splits if_splits)

lemma viewOf_kept:
  assumes "db_inv db" "changesLogged db" "\<not> hasConflict db tx" "kept tx t k"
  shows "viewOf db (t\<lparr>readVersion := readVersion tx\<rparr>) k = viewOf db (t\<lparr>readVersion := lastVersion db\<rparr>) k"
proof (cases "covered (readConflicts tx) k")
  case True
  then show ?thesis using no_conflict_unchanged [OF assms(1-3) True] by (simp add: viewOf_def Let_def)
next
  case False
  then have "\<not> rywDisabled t" "\<not> conflictForKeyDirect (buffer t) k" using assms(4) by (auto simp: kept_def)
  then show ?thesis using conflictForKeyDirect_view [of "buffer t" k] by (simp add: viewOf_def Let_def)
qed

lemma filter_takeWhile:
  "sorted_wrt Q xs \<Longrightarrow> (\<And>x y. Q x y \<Longrightarrow> P y \<Longrightarrow> P x) \<Longrightarrow> filter P xs = takeWhile P xs"
proof (induction xs)
  case (Cons x xs)
  have "\<not> P x \<Longrightarrow> filter P xs = []" unfolding filter_empty_conv using Cons.prems by auto
  then show ?case using Cons by auto
qed simp

lemma take_agree:
  assumes "sorted_wrt Q D" "sorted_wrt Q D'" "\<And>x y. Q x y \<Longrightarrow> P y \<Longrightarrow> P x"
    and "filter P D = filter P D'" "n \<le> length D" "\<forall>x \<in> set (take n D). P x"
  shows "take n D' = take n D"
proof -
  have f: "filter P D = takeWhile P D" "filter P D' = takeWhile P D'"
    using filter_takeWhile assms(1-3) by blast+
  have "n \<le> length (takeWhile P D)"
    using assms(5,6) by (metis append_take_drop_id length_take min.absorb2 takeWhile_append2 length_append le_add1)
  moreover have "take n (takeWhile P xs) = take n xs" if "n \<le> length (takeWhile P xs)" for xs :: "'a list"
    using that by (metis takeWhile_eq_take take_take min.absorb1)
  ultimately show ?thesis using assms(4) f by metis
qed

lemma last_sorted:
  "sorted_wrt (\<lambda>x y. if r then fst y < fst x else fst x < fst y) xs \<Longrightarrow> x \<in> set xs \<Longrightarrow>
     if r then fst (last xs) \<le> fst x else fst x \<le> fst (last xs)" for xs :: "row list"
  by (induction xs) (auto simp: less_imp_le split: if_splits)

lemma replays_commit:
  assumes db: "db_inv db" "changesLogged db" and tx: "\<not> hasConflict db tx"
    and en: "protects tx en" "replays db (readVersion tx) en"
  shows "replays db (lastVersion db) en"
proof (cases en)
  case (ReadKey t k r)
  then show ?thesis
    using viewOf_kept [OF db tx, of t k] en viewOf_resolveKey by (metis protects.simps(1) replays.simps(1))
next
  case (ReadRange t opts b e kvs)
  have inv: "store_inv (store db) (lastVersion db)" using db by (simp add: db_inv_def)
  define V where "V v = buildView db (t\<lparr>readVersion := v\<rparr>)" for v
  define n where "n = nat (EffectiveRowLimit (Limit opts))"
  define P where "P k \<longleftrightarrow> int (length kvs) < EffectiveRowLimit (Limit opts) \<or> reachedBy (Reverse opts) kvs k" for k
  let ?D = "\<lambda>v. rowsOf db (t\<lparr>readVersion := v\<rparr>) (Reverse opts) b e"
  have kvs: "kvs = take n (?D (readVersion tx))" using en ReadRange by (simp add: n_def)
  define A where "A k \<longleftrightarrow> b \<le> k \<and> k < e" for k
  have D: "?D v = (if Reverse opts then rev else id) (filter (\<lambda>x. A (fst x)) (V v))" for v
    by (simp add: rowsOf_def V_def A_def)
  have sorted: "sorted_wrt (\<lambda>x y. fst x < fst y) (V v)" for v
    using buildView_spec(1) [OF inv] by (simp add: V_def sorted_wrt_map)
  have "filter (\<lambda>x. A (fst x) \<and> P (fst x)) (V (readVersion tx)) = filter (\<lambda>x. A (fst x) \<and> P (fst x)) (V (lastVersion db))"
  proof (rule rows_eqI)
    show "map_of (filter (\<lambda>x. A (fst x) \<and> P (fst x)) (V (readVersion tx))) =
        map_of (filter (\<lambda>x. A (fst x) \<and> P (fst x)) (V (lastVersion db)))"
    proof
      fix k
      have "P k \<and> A k \<Longrightarrow> map_of (V (readVersion tx)) k = map_of (V (lastVersion db)) k"
        using viewOf_kept [OF db tx, of t k] en(1) ReadRange by (auto simp: V_def buildView_spec(2) [OF inv] P_def A_def)
      then show "map_of (filter (\<lambda>x. A (fst x) \<and> P (fst x)) (V (readVersion tx))) k =
          map_of (filter (\<lambda>x. A (fst x) \<and> P (fst x)) (V (lastVersion db))) k"
        by (simp add: map_of_filter_key [of "\<lambda>k. A k \<and> P k"])
    qed
  qed (use sorted in \<open>auto simp: sorted_wrt_map intro: sorted_wrt_filter\<close>)
  then have same: "filter (\<lambda>x. P (fst x)) (?D (readVersion tx)) = filter (\<lambda>x. P (fst x)) (?D (lastVersion db))"
    unfolding D by (simp add: rev_filter [symmetric])
  let ?Q = "\<lambda>x y :: row. if Reverse opts then fst y < fst x else fst x < fst y"
  have sortedD: "sorted_wrt ?Q (?D v)" for v
    unfolding D using sorted_wrt_filter [OF sorted] by (simp add: sorted_wrt_rev)
  have "take n (?D (lastVersion db)) = take n (?D (readVersion tx))"
  proof (cases "int (length kvs) < EffectiveRowLimit (Limit opts)")
    case True
    then show ?thesis using same by (simp add: P_def)
  next
    case False
    then have n: "n \<le> length (?D (readVersion tx))" using kvs by (auto simp: n_def)
    have "sorted_wrt ?Q kvs" unfolding kvs using sortedD by (rule sorted_wrt_take)
    then have "\<forall>x \<in> set kvs. P (fst x)" using last_sorted by (auto simp: P_def reachedBy_def)
    then have "\<forall>x \<in> set (take n (?D (readVersion tx))). P (fst x)" unfolding kvs .
    moreover have "P (fst x)" if "?Q x y" "P (fst y)" for x y
      using that False by (auto simp: P_def reachedBy_def split: if_splits)
    ultimately show ?thesis using take_agree [OF sortedD sortedD _ same n] by blast
  qed
  then show ?thesis using kvs ReadRange by (simp add: n_def)
qed


section \<open>What the operations change\<close>

text \<open>Reads only add to the conflicts and to what is known.\<close>

definition readStep :: "simTxn \<Rightarrow> simTxn \<Rightarrow> bool" where
  "readStep tx' tx \<longleftrightarrow> sameView tx' tx \<and> growsConflicts tx' tx \<and> writeConflicts tx' = writeConflicts tx \<and>
     nextWriteNoConflict tx' = nextWriteNoConflict tx \<and> writeConflictsDisabled tx' = writeConflictsDisabled tx"

lemma readStep_refl [simp]: "readStep tx tx"
  by (simp add: readStep_def)

lemma readStep_trans: "readStep a b \<Longrightarrow> readStep b c \<Longrightarrow> readStep a c"
  by (auto simp: readStep_def intro: sameView_trans growsConflicts_trans)

lemma readStep_addReadConflict [simp]: "readStep (addReadConflict tx b e) tx"
  by (auto simp: readStep_def addReadConflict_def sameView_def growsConflicts_def)

lemma readStep_adds: "readStep (foldl (\<lambda>tx r. addReadConflict tx (rbegin r) (rend r)) tx rs) tx"
  by (induction rs arbitrary: tx) (auto intro: readStep_trans [OF _ readStep_addReadConflict])

lemma readStep_rememberRead [simp]: "readStep (rememberRead tx b e) tx"
  by (auto simp: readStep_def rememberRead_def sameView_def growsConflicts_def)

lemma readStep_filtered [simp]: "readStep (addFilteredReadConflict tx b e) tx"
  by (simp add: addFilteredReadConflict_def readStep_adds)

lemma readStep_filteredKey [simp]: "readStep (addFilteredReadConflictKey tx k) tx"
  by (simp add: addFilteredReadConflictKey_def)

lemma readStep_getKeyConflict [simp]: "readStep (addGetKeyConflictRange tx ks r) tx"
  by (auto simp: addGetKeyConflictRange_def Let_def)

lemma readStep_addConflict [simp]: "readStep (addConflict tx opts b e kvs m) tx"
  by (simp add: addConflict_def split: prod.split)

lemma readStep_fetchRange: "fetchRange db tx b e limit bt reverse = (tx', r) \<Longrightarrow> readStep tx' tx"
  by (auto simp: fetchRange_def rememberRangeRead_def Let_def split: if_splits option.splits prod.splits)

lemma readStep_get: "get db tx k snapshot = (tx', r) \<Longrightarrow> readStep tx' tx \<or> readStep tx' (ensureReadVersion db tx)"
  by (auto simp: get_def Let_def intro: readStep_trans [OF readStep_rememberRead] split: if_splits)

lemma readStep_getKey: "getKey db tx ks snapshot = (tx', r) \<Longrightarrow> readStep tx' tx \<or> readStep tx' (ensureReadVersion db tx)"
  by (auto simp: getKey_def Let_def intro: readStep_trans [OF readStep_rememberRead] split: if_splits prod.splits)

lemma readStep_selectorFetchRows:
  "selectorFetchRows db tx view segs rb re b e limit bt reverse snapshot = (tx', r) \<Longrightarrow> readStep tx' tx"
proof -
  assume a: "selectorFetchRows db tx view segs rb re b e limit bt reverse snapshot = (tx', r)"
  obtain tx1 fetched where f: "(if resolveRangeBound view b < resolveRangeBound view e
      then fetchRange db tx (resolveRangeBound view b) (resolveRangeBound view e) limit bt reverse
      else (tx, Inr ([], False, [], []))) = (tx1, fetched)" by fastforce
  then have "readStep tx1 tx" by (auto split: if_splits dest: readStep_fetchRange)
  moreover have "readStep tx' tx1"
    using a unfolding selectorFetchRows_def Let_def f
    by (auto split: sum.splits prod.splits option.splits if_splits)
  ultimately show ?thesis by (rule readStep_trans [rotated])
qed

lemma readStep_selectorFetch:
  "selectorFetch db tx b e limit bt reverse snapshot = (tx', r) \<Longrightarrow> readStep tx' tx \<or> readStep tx' (ensureReadVersion db tx)"
  by (auto simp: selectorFetch_def Let_def split: if_splits
      dest!: readStep_selectorFetchRows intro: readStep_trans [OF _ readStep_getKeyConflict])

lemma readStep_sliceLoop:
  "sliceLoop db tx opts snapshot b e remaining kvs m = (tx', r) \<Longrightarrow> readStep tx' tx"
proof (induction "nat remaining" arbitrary: tx b e remaining kvs m rule: less_induct)
  case less
  let ?b = "if Reverse opts then b else keyAfter (fst (last kvs))" and ?e = "if Reverse opts then fst (last kvs) else e"
  obtain tx1 x where f: "fetchRange db tx ?b ?e remaining ByteLimitUnlimited (Reverse opts) = (tx1, x)" by fastforce
  have r1: "readStep tx1 tx" by (rule readStep_fetchRange [OF f])
  show ?case
  proof (cases "m \<and> remaining > 0 \<and> length kvs > 0")
    case False
    then show ?thesis
      using less.prems trans [OF sliceLoop.simps [of db tx opts snapshot b e remaining kvs m] if_not_P [OF False]] by simp
  next
    case True
    note eq = trans [OF sliceLoop.simps [of db tx opts snapshot b e remaining kvs m] if_P [OF True], unfolded Let_def, unfolded f]
    show ?thesis
    proof (cases x)
      case (Inl err)
      then show ?thesis using less.prems r1 unfolding eq by simp
    next
      case (Inr y)
      obtain rest m' cb ce where y: "y = (rest, m', cb, ce)" by (cases y)
      let ?tx2 = "if \<not> snapshot then addConflict tx1 opts cb ce rest m' else tx1"
      have r2: "readStep ?tx2 tx" using r1 readStep_trans [OF readStep_addConflict r1] by simp
      show ?thesis
      proof (cases "length rest = 0")
        case True
        then show ?thesis using less.prems r2 unfolding eq Inr y by auto
      next
        case False
        then have "sliceLoop db ?tx2 opts snapshot ?b ?e (remaining - int (length rest)) (kvs @ rest) m' = (tx', r)"
          using less.prems unfolding eq Inr y by simp
        moreover have "nat (remaining - int (length rest)) < nat remaining" using True False by (cases rest) auto
        ultimately show ?thesis using less.hyps readStep_trans [OF _ r2] by blast
      qed
    qed
  qed
qed

lemma ensureReadVersion_idem: "ensureReadVersion db (ensureReadVersion db tx) = ensureReadVersion db tx"
  by (simp add: ensureReadVersion_def)

text \<open>A read pins the read version first, or fails before it does.\<close>

definition reads :: "simDB \<Rightarrow> simTxn \<Rightarrow> simTxn \<Rightarrow> bool" where
  "reads db tx' tx \<longleftrightarrow> readStep tx' tx \<or> readStep tx' (ensureReadVersion db tx)"

lemma reads_ensure: "readStep tx' tx \<Longrightarrow> readStep (ensureReadVersion db tx') (ensureReadVersion db tx)"
  by (auto simp: readStep_def sameView_def growsConflicts_def ensureReadVersion_def)

lemma reads_trans: "reads db a b \<Longrightarrow> reads db b c \<Longrightarrow> reads db a c"
  unfolding reads_def by (metis readStep_trans reads_ensure ensureReadVersion_idem)

lemma reads_readStep: "readStep a b \<Longrightarrow> reads db a b"
  by (simp add: reads_def)

lemma reads_selectorSliceLoop:
  "selectorSliceLoop db tx opts snapshot sel remaining kvs m = (tx', r) \<Longrightarrow> reads db tx' tx"
proof (induction "nat remaining" arbitrary: tx sel remaining kvs m rule: less_induct)
  case less
  let ?sel = "advance sel (fst (last kvs)) (Reverse opts)"
  obtain tx1 x where f: "selectorFetch db tx (selBegin ?sel) (selEnd ?sel) remaining ByteLimitUnlimited (Reverse opts) snapshot = (tx1, x)"
    by fastforce
  have r1: "reads db tx1 tx" using readStep_selectorFetch [OF f] by (simp add: reads_def)
  show ?case
  proof (cases "m \<and> remaining > 0 \<and> length kvs > 0")
    case False
    then show ?thesis
      using less.prems trans [OF selectorSliceLoop.simps [of db tx opts snapshot sel remaining kvs m] if_not_P [OF False]]
      by (simp add: reads_def)
  next
    case True
    note eq = trans [OF selectorSliceLoop.simps [of db tx opts snapshot sel remaining kvs m] if_P [OF True], unfolded Let_def, unfolded f]
    show ?thesis
    proof (cases x)
      case (Inl err)
      then show ?thesis using less.prems r1 unfolding eq by simp
    next
      case (Inr y)
      obtain rest m' where y: "y = (rest, m')" by (cases y)
      show ?thesis
      proof (cases "length rest = 0")
        case True
        then show ?thesis using less.prems r1 unfolding eq Inr y by auto
      next
        case False
        then have "selectorSliceLoop db tx1 opts snapshot ?sel (remaining - int (length rest)) (kvs @ rest) m' = (tx', r)"
          using less.prems unfolding eq Inr y by simp
        moreover have "nat (remaining - int (length rest)) < nat remaining" using True False by (cases rest) auto
        ultimately show ?thesis using less.hyps reads_trans [OF _ r1] by blast
      qed
    qed
  qed
qed

lemma reads_issueFirst:
  assumes "issueFirst db tx opts snapshot bks eks = (tx', f)"
  shows "reads db tx' tx"
proof -
  have "reads db tx1 tx" if "resolveRangeForRead db tx bks eks = (tx1, x)" for tx1 x
    using that by (auto simp: resolveRangeForRead_def reads_def Let_def split: if_splits)
  moreover have "reads db tx1 t" if "fetchRange db t b e limit bt reverse = (tx1, x)" for t tx1 x b e limit bt reverse
    using readStep_fetchRange [OF that] by (rule reads_readStep)
  moreover have "reads db (addConflict t opts b e kvs m) t" for t b e kvs m
    by (rule reads_readStep) simp
  moreover have "reads db tx1 tx" if "selectorFetch db tx bks eks limit bt reverse snapshot = (tx1, x)" for tx1 x limit bt reverse
    using readStep_selectorFetch [OF that] by (simp add: reads_def)
  moreover have "reads db tx tx" by (simp add: reads_def)
  ultimately show ?thesis using assms
    unfolding issueFirst_def issueFirstSelectors_def Let_def
    by (simp split: if_splits sum.splits prod.splits) (meson reads_trans)+
qed

lemma reads_getRangeSlice:
  assumes "getRangeSlice db tx opts snapshot bks eks = (tx', r)"
  shows "reads db tx' tx"
proof -
  obtain tx1 f where i: "issueFirst db tx opts snapshot bks eks = (tx1, f)" by fastforce
  have "reads db tx' tx1" using assms reads_selectorSliceLoop reads_readStep [OF readStep_sliceLoop] reads_readStep [OF readStep_refl]
    unfolding getRangeSlice_def i GetSliceWithError_def Let_def
    by (auto split: option.splits sum.splits if_splits)
  then show ?thesis using reads_issueFirst [OF i] by (rule reads_trans)
qed


section \<open>A system of transactions\<close>

record session =
  sTx :: simTxn
  sLog :: "readEntry list"

text \<open>
  The calls a client makes on a transaction.  The key of a versionstamped write may be written without a
  write conflict, as the option allows, since the commit adds the conflict of the finished key.
\<close>

datatype txnOp =
    OpGet bytes bool
  | OpGetKey KeySelector bool
  | OpGetRange RangeOptions bool bytes bytes
  | OpGetRangeSelectors RangeOptions bool KeySelector KeySelector
  | OpGetReadVersion
  | OpSetReadVersion int
  | OpSet bytes "bytes option"
  | OpClear bytes
  | OpClearRange bytes bytes
  | OpAtomic atomicOp bytes "bytes option"
  | OpVersionstampedKey bool bytes "bytes option"
  | OpVersionstampedValue bytes "bytes option"
  | OpReadConflictRange bytes bytes
  | OpReadConflictKey bytes
  | OpWriteConflictRange bytes bytes
  | OpWriteConflictKey bytes
  | OpReadYourWritesDisable
  | OpBypassUnreadable
  | OpRetryLimit int
  | OpCommit commitDraws
  | OpOnError int
  | OpReset
  | OpCancel

definition keep :: "simDB \<Rightarrow> session \<Rightarrow> simTxn \<Rightarrow> simDB \<times> session" where
  "keep db s tx = (db, s\<lparr>sTx := tx\<rparr>)"

fun runOp :: "simDB \<Rightarrow> session \<Rightarrow> txnOp \<Rightarrow> simDB \<times> session" where
  "runOp db s (OpGet k snapshot) =
     (case get db (sTx s) k snapshot of
        (tx, Inl err) \<Rightarrow> keep db s tx
      | (tx, Inr v) \<Rightarrow>
          (db, \<lparr>sTx = tx, sLog = (if snapshot then sLog s else sLog s @ [ReadKey (ensureReadVersion db (sTx s)) k v])\<rparr>))"
| "runOp db s (OpGetKey ks snapshot) = keep db s (fst (getKey db (sTx s) ks snapshot))"
| "runOp db s (OpGetRange opts snapshot b e) =
     (case getRangeSlice db (sTx s) opts snapshot (FirstGreaterOrEqual b) (FirstGreaterOrEqual e) of
        (tx, Inl err) \<Rightarrow> keep db s tx
      | (tx, Inr kvs) \<Rightarrow>
          (db, \<lparr>sTx = tx, sLog = (if snapshot \<or> \<not> readable (ensureReadVersion db (sTx s)) \<or> \<not> validOptions opts then sLog s
             else sLog s @ [ReadRange (ensureReadVersion db (sTx s)) opts b e kvs])\<rparr>))"
| "runOp db s (OpGetRangeSelectors opts snapshot bks eks) = keep db s (fst (getRangeSlice db (sTx s) opts snapshot bks eks))"
| "runOp db s OpGetReadVersion = keep db s (fst (GetReadVersion db (sTx s)))"
| "runOp db s (OpSetReadVersion v) = keep db s (SetReadVersion (sTx s) v)"
| "runOp db s (OpSet k v) = keep db s (txnSet (sTx s) k v)"
| "runOp db s (OpClear k) = keep db s (txnClear (sTx s) k)"
| "runOp db s (OpClearRange b e) = keep db s (txnClearRange (sTx s) b e)"
| "runOp db s (OpAtomic op k v) = keep db s (txnAtomic (sTx s) op k v)"
| "runOp db s (OpVersionstampedKey quiet k v) =
     keep db s (SetVersionstampedKey (if quiet then SetNextWriteNoWriteConflictRange (sTx s) else sTx s) k v)"
| "runOp db s (OpVersionstampedValue k v) = keep db s (SetVersionstampedValue (sTx s) k v)"
| "runOp db s (OpReadConflictRange b e) = keep db s (fst (AddReadConflictRange (sTx s) b e))"
| "runOp db s (OpReadConflictKey k) = keep db s (AddReadConflictKey (sTx s) k)"
| "runOp db s (OpWriteConflictRange b e) = keep db s (fst (AddWriteConflictRange (sTx s) b e))"
| "runOp db s (OpWriteConflictKey k) = keep db s (AddWriteConflictKey (sTx s) k)"
| "runOp db s OpReadYourWritesDisable = keep db s (SetReadYourWritesDisable (sTx s))"
| "runOp db s OpBypassUnreadable = keep db s (SetBypassUnreadable (sTx s))"
| "runOp db s (OpRetryLimit n) = keep db s (SetRetryLimit (sTx s) n)"
| "runOp db s (OpCommit draws) =
     (case Commit db (sTx s) draws of
        (db, tx, r) \<Rightarrow> (db, \<lparr>sTx = tx, sLog = (if rvSet tx then sLog s else [])\<rparr>))"
| "runOp db s (OpOnError err) =
     (case OnError (sTx s) err of
        (tx, Some e) \<Rightarrow> keep db s tx
      | (tx, None) \<Rightarrow> (db, \<lparr>sTx = tx, sLog = []\<rparr>))"
| "runOp db s OpReset = (db, \<lparr>sTx = Reset (sTx s), sLog = []\<rparr>)"
| "runOp db s OpCancel = keep db s (Cancel (sTx s))"

text \<open>A read version is set by hand only before the first read, and to a version that was committed.\<close>

fun opAllowed :: "simDB \<Rightarrow> session \<Rightarrow> txnOp \<Rightarrow> bool" where
  "opAllowed db s (OpSetReadVersion v) = (sLog s = [] \<and> v \<le> lastVersion db)"
| "opAllowed db s op = True"

text \<open>The state of the system, with the commits so far: their versions and their mutations.\<close>

record simSystem =
  sysDB :: simDB
  sysSessions :: "session list"
  sysHist :: "(int \<times> mutation list) list"

definition newSystem :: simSystem where
  "newSystem = \<lparr>sysDB = newSimDB None, sysSessions = [], sysHist = []\<rparr>"

inductive sysStep :: "simSystem \<Rightarrow> simSystem \<Rightarrow> bool" where
  opens: "sysStep S (S\<lparr>sysSessions := sysSessions S @ [\<lparr>sTx = newTxn, sLog = []\<rparr>]\<rparr>)"
| injects: "sysStep S (S\<lparr>sysDB := InjectSequence (sysDB S) codes\<rparr>)"
| injectsOnce: "sysStep S (S\<lparr>sysDB := InjectOnce (sysDB S) code\<rparr>)"
| closes: "sysStep S (S\<lparr>sysDB := Close (sysDB S)\<rparr>)"
| runs: "sysStep S \<lparr>sysDB = db', sysSessions = (sysSessions S)[i := s'],
     sysHist = sysHist S @ (if lastVersion db' = lastVersion (sysDB S) then []
       else [(lastVersion db', buffer (sTx (sysSessions S ! i)))])\<rparr>"
  if "i < length (sysSessions S)" and "opAllowed (sysDB S) (sysSessions S ! i) op"
    and "runOp (sysDB S) (sysSessions S ! i) op = (db', s')"

inductive reachable :: "simSystem \<Rightarrow> bool" where
  start: "reachable newSystem"
| step: "reachable S \<Longrightarrow> sysStep S S' \<Longrightarrow> reachable S'"

section \<open>The invariant\<close>

text \<open>The value of a key at a version, from the commits alone.\<close>

definition histValue :: "(int \<times> mutation list) list \<Rightarrow> int \<Rightarrow> bytes \<Rightarrow> bytes option" where
  "histValue hist v k =
     foldl (\<lambda>cur (cv, ms). foldl (commitStep cv k) cur ms) None (filter (\<lambda>(cv, ms). cv \<le> v) hist)"

definition tx_inv :: "simDB \<Rightarrow> simTxn \<Rightarrow> bool" where
  "tx_inv db tx \<longleftrightarrow> (rvSet tx \<longrightarrow> readVersion tx \<le> lastVersion db) \<and> writesLogged tx \<and>
     \<not> nextWriteNoConflict tx \<and> \<not> writeConflictsDisabled tx"

definition session_inv :: "simDB \<Rightarrow> session \<Rightarrow> bool" where
  "session_inv db s \<longleftrightarrow> tx_inv db (sTx s) \<and> (sLog s \<noteq> [] \<longrightarrow> rvSet (sTx s)) \<and>
     (\<forall>en \<in> set (sLog s). protects (sTx s) en \<and> replays db (readVersion (sTx s)) en)"

definition sys_inv :: "simSystem \<Rightarrow> bool" where
  "sys_inv S \<longleftrightarrow> db_inv (sysDB S) \<and> changesLogged (sysDB S) \<and> envClock (sysDB S) = None \<and>
     (\<forall>s \<in> set (sysSessions S). session_inv (sysDB S) s) \<and>
     (\<forall>k v. valueAt (store (sysDB S)) k v = histValue (sysHist S) v k) \<and>
     sorted_wrt (<) (map fst (sysHist S)) \<and> (\<forall>cv \<in> set (map fst (sysHist S)). cv \<le> lastVersion (sysDB S))"

lemma latestVersion_noClock: "envClock db = None \<Longrightarrow> db_inv db \<Longrightarrow> latestVersion db = lastVersion db"
  by (simp add: latestVersion_def clockVersion_def currentReadVersion_def db_inv_def Let_def)

lemma tx_inv_ensure: "envClock db = None \<Longrightarrow> db_inv db \<Longrightarrow> tx_inv db tx \<Longrightarrow> tx_inv db (ensureReadVersion db tx)"
  by (auto simp: tx_inv_def ensureReadVersion_def latestVersion_noClock writesLogged_def)

lemma tx_inv_readStep: "readStep tx' tx \<Longrightarrow> tx_inv db tx \<Longrightarrow> tx_inv db tx'"
  by (auto simp: tx_inv_def readStep_def sameView_def writesLogged_def)

lemma session_keep:
  assumes "session_inv db s" "tx_inv db tx'" "growsConflicts tx' (sTx s)"
    and "rvSet (sTx s) \<Longrightarrow> rvSet tx' \<and> readVersion tx' = readVersion (sTx s)"
  shows "session_inv db (s\<lparr>sTx := tx'\<rparr>)"
  using assms protects_grows unfolding session_inv_def by auto

lemma session_reads:
  assumes db: "db_inv db" "envClock db = None" and s: "session_inv db s" and r: "reads db tx' (sTx s)"
  shows "session_inv db (s\<lparr>sTx := tx'\<rparr>)"
proof (rule session_keep [OF s])
  have inv: "tx_inv db (sTx s)" using s by (simp add: session_inv_def)
  show "tx_inv db tx'"
    using r inv tx_inv_readStep tx_inv_ensure [OF db(2,1)] unfolding reads_def by blast
  show "growsConflicts tx' (sTx s)"
    using r by (auto simp: reads_def readStep_def growsConflicts_def)
  show "rvSet tx' \<and> readVersion tx' = readVersion (sTx s)" if "rvSet (sTx s)"
    using r that by (auto simp: reads_def readStep_def sameView_def)
qed

lemma session_log:
  assumes "session_inv db \<lparr>sTx = tx', sLog = log\<rparr>" "rvSet tx'" "protects tx' en" "replays db (readVersion tx') en"
  shows "session_inv db \<lparr>sTx = tx', sLog = log @ [en]\<rparr>"
  using assms by (auto simp: session_inv_def)

lemma resolveKey_sameView: "sameView tx' tx \<Longrightarrow> resolveKey db tx' k = resolveKey db tx k"
  by (simp add: sameView_def resolveKey_def snapshotValue_def Let_def)

lemma kept_guarded: "guarded tx' k \<Longrightarrow> sameView tx' t \<Longrightarrow> kept tx' t k"
  by (simp add: guarded_def kept_def sameView_def)

lemma readVersion_same: "sameView tx' t \<Longrightarrow> t\<lparr>readVersion := readVersion tx'\<rparr> = t"
  by (simp add: sameView_def)

lemma session_get:
  assumes db: "db_inv db" "envClock db = None" and s: "session_inv db s"
    and g: "get db (sTx s) k snapshot = (tx', r)"
  shows "session_inv db (snd (runOp db s (OpGet k snapshot)))"
proof -
  let ?t = "ensureReadVersion db (sTx s)"
  have inv: "session_inv db (s\<lparr>sTx := tx'\<rparr>)"
    using session_reads [OF db s] readStep_get [OF g] by (simp add: reads_def)
  then have log: "session_inv db \<lparr>sTx = tx', sLog = sLog s\<rparr>" by (cases s) simp
  show ?thesis
  proof (cases "snapshot \<or> (\<exists>err. r = Inl err)")
    case True
    then show ?thesis using inv log g by (auto simp: keep_def split: sum.splits)
  next
    case False
    then obtain v where v: "r = Inr v" by (cases r) auto
    let ?c = "addFilteredReadConflictKey ?t k"
    have tx': "tx' = rememberRead ?c k (keyAfter k)" "v = resolveKey db ?c k"
      using g v False by (auto simp: get_def Let_def split: if_splits)
    have step: "readStep tx' ?t" unfolding tx' by (rule readStep_trans [OF readStep_rememberRead readStep_filteredKey])
    then have same: "sameView tx' ?t" by (simp add: readStep_def)
    have "guarded ?c k" by (simp add: guarded_def addFilteredReadConflictKey_def addReadConflict_def within_def less_keyAfter)
    then have "guarded tx' k" unfolding tx' by (rule guarded_grows) simp_all
    moreover have "v = resolveKey db ?t k"
      unfolding tx' using resolveKey_sameView readStep_filteredKey [of ?t k] by (simp add: readStep_def)
    moreover have "rvSet tx'" using same by (simp add: sameView_def)
    ultimately have "session_inv db \<lparr>sTx = tx', sLog = sLog s @ [ReadKey ?t k v]\<rparr>"
      using log kept_guarded same readVersion_same [OF same] by (intro session_log) auto
    then show ?thesis using g v False by simp
  qed
qed

lemma session_getRange:
  assumes db: "db_inv db" "envClock db = None" and s: "session_inv db s"
  shows "session_inv db (snd (runOp db s (OpGetRange opts snapshot b e)))"
proof -
  let ?t = "ensureReadVersion db (sTx s)"
  obtain tx' r where g: "getRangeSlice db (sTx s) opts snapshot (FirstGreaterOrEqual b) (FirstGreaterOrEqual e) = (tx', r)"
    by fastforce
  have inv: "session_inv db (s\<lparr>sTx := tx'\<rparr>)" using session_reads [OF db s reads_getRangeSlice [OF g]] .
  then have log: "session_inv db \<lparr>sTx = tx', sLog = sLog s\<rparr>" by (cases s) simp
  show ?thesis
  proof (cases "snapshot \<or> \<not> readable ?t \<or> \<not> validOptions opts \<or> (\<exists>err. r = Inl err)")
    case True
    then show ?thesis using inv log g by (auto simp: keep_def split: sum.splits)
  next
    case False
    then obtain kvs where kvs: "r = Inr kvs" by (cases r) auto
    have st: "store_inv (store db) (lastVersion db)" using db by (simp add: db_inv_def)
    have ok: "validOptions opts" "readable ?t" and g': "getRangeSlice db (sTx s) opts False (FirstGreaterOrEqual b) (FirstGreaterOrEqual e) = (tx', Inr kvs)"
      using False g kvs by auto
    have same: "sameView tx' ?t" and rows: "kvs = take (nat (EffectiveRowLimit (Limit opts))) (rowsOf db ?t (Reverse opts) b e)"
      using getRangeSlice_spec [OF st ok refl, of False b e] g' by auto
    have "kept tx' ?t k" if "b \<le> k" "k < e" "int (length kvs) < EffectiveRowLimit (Limit opts) \<or> reachedBy (Reverse opts) kvs k" for k
      using kept_guarded getRangeSlice_guards(2) [OF st ok g' that] same by blast
    moreover have "rvSet tx'" using same by (simp add: sameView_def)
    ultimately have "session_inv db \<lparr>sTx = tx', sLog = sLog s @ [ReadRange ?t opts b e kvs]\<rparr>"
      using log rows readVersion_same [OF same] by (intro session_log) auto
    then show ?thesis using g False kvs by simp
  qed
qed


text \<open>A write is logged with its conflict range unless it is a versionstamped key.\<close>

lemma mutationLogged_mono: "mutationLogged wcs m \<Longrightarrow> set wcs \<subseteq> set wcs' \<Longrightarrow> mutationLogged wcs' m"
  by (auto simp: mutationLogged_def split: mutationKind.splits)

lemma enqueue_inv:
  assumes "tx_inv db (tx\<lparr>nextWriteNoConflict := False\<rparr>)" and "nextWriteNoConflict tx \<Longrightarrow> mkind m = mutVersionstampedKey"
  shows "tx_inv db (enqueue tx m)"
proof -
  have "mutationLogged (writeConflicts (enqueue tx m)) (m\<lparr>mnoWriteConflict := nextWriteNoConflict tx\<rparr>)"
    using assms by (auto simp: enqueue_def Let_def addWriteConflict_def mutationLogged_def tx_inv_def split: mutationKind.splits)
  moreover have "set (writeConflicts tx) \<subseteq> set (writeConflicts (enqueue tx m))"
    by (auto simp: enqueue_def Let_def addWriteConflict_def)
  moreover have "buffer (enqueue tx m) = buffer tx @ [m\<lparr>mnoWriteConflict := nextWriteNoConflict tx\<rparr>]"
    by (simp add: enqueue_def Let_def addWriteConflict_def)
  ultimately have "writesLogged (enqueue tx m)"
    using assms(1) mutationLogged_mono by (fastforce simp: writesLogged_def tx_inv_def)
  then show ?thesis using assms(1) by (auto simp: tx_inv_def enqueue_def Let_def addWriteConflict_def)
qed

lemma enqueue_sel [simp]:
  "readVersion (enqueue tx m) = readVersion tx" "rvSet (enqueue tx m) = rvSet tx"
  "readConflicts (enqueue tx m) = readConflicts tx"
  by (simp_all add: enqueue_def Let_def addWriteConflict_def)

text \<open>Marking keys as unreadable, and clearing the marks, is seen by reads only.\<close>

definition unmarked :: "simTxn \<Rightarrow> simTxn" where
  "unmarked tx = tx\<lparr>unreadable := [], unreadableRanges := []\<rparr>"

lemma unmarked_marks [simp]:
  "unmarked (markUnreadable tx k) = unmarked tx"
  "unmarked (addUnreadableRange tx b e) = unmarked tx"
  "unmarked (clearUnreadable tx k) = unmarked tx"
  "unmarked (clearUnreadableRange tx b e) = unmarked tx"
  by (simp_all add: unmarked_def markUnreadable_def addUnreadableRange_def clearUnreadable_def clearUnreadableRange_def
      subtractUnreadableRange_def)

lemma unmarked_inv: "unmarked tx' = unmarked tx \<Longrightarrow> tx_inv db tx' = tx_inv db tx"
  by (cases tx; cases tx') (simp add: unmarked_def tx_inv_def writesLogged_def)

lemma unmarked_sel:
  "unmarked tx' = unmarked tx \<Longrightarrow> readVersion tx' = readVersion tx \<and> rvSet tx' = rvSet tx \<and>
     readConflicts tx' = readConflicts tx \<and> nextWriteNoConflict tx' = nextWriteNoConflict tx"
  by (cases tx; cases tx') (simp add: unmarked_def)

lemma writesLogged_quiet [simp]: "writesLogged (t\<lparr>nextWriteNoConflict := x\<rparr>) = writesLogged t"
  by (simp add: writesLogged_def)

lemma session_enqueue:
  assumes s: "session_inv db s" and t: "unmarked t = unmarked (sTx s)"
  shows "session_inv db (s\<lparr>sTx := enqueue t m\<rparr>)"
proof (rule session_keep [OF s])
  have inv: "tx_inv db t" using s unmarked_inv [OF t] by (simp add: session_inv_def)
  then show "tx_inv db (enqueue t m)" by (intro enqueue_inv) (simp_all add: tx_inv_def)
qed (use unmarked_sel [OF t] in \<open>simp_all add: growsConflicts_def\<close>)

lemma unmarked_quiet:
  "unmarked t = unmarked (SetNextWriteNoWriteConflictRange tx) \<Longrightarrow>
     unmarked (t\<lparr>nextWriteNoConflict := False\<rparr>) = unmarked (tx\<lparr>nextWriteNoConflict := False\<rparr>)"
  by (cases t; cases tx) (simp add: unmarked_def SetNextWriteNoWriteConflictRange_def)

lemma session_versionstampedKey:
  assumes s: "session_inv db s"
  shows "session_inv db (s\<lparr>sTx := SetVersionstampedKey (if quiet then SetNextWriteNoWriteConflictRange (sTx s) else sTx s) k v\<rparr>)"
proof -
  define tx where "tx = (if quiet then SetNextWriteNoWriteConflictRange (sTx s) else sTx s)"
  obtain t k' where t: "SetVersionstampedKey tx k v = enqueue t (mutationOf mutVersionstampedKey k' [] (cloneVal v))"
    "unmarked t = unmarked tx"
  proof -
    define minV where "minV = (if rvSet tx then readVersion tx else 0)"
    define st where "st = (if k < endKeyMarker then case versionstampKeyRange k minV endKeyMarker of
        Some (rb, re, transformed) \<Rightarrow> (addUnreadableRange tx rb re, transformed) | None \<Rightarrow> (tx, k) else (tx, k))"
    have "SetVersionstampedKey tx k v =
        enqueue (markUnreadable (fst st) (snd st)) (mutationOf mutVersionstampedKey (snd st) [] (cloneVal v))"
      by (simp add: SetVersionstampedKey_def Let_def st_def minV_def split: prod.split)
    moreover have "unmarked (fst st) = unmarked tx" by (auto simp: st_def split: option.splits)
    ultimately show thesis using that by simp
  qed
  have sel: "readVersion t = readVersion (sTx s) \<and> rvSet t = rvSet (sTx s) \<and> readConflicts t = readConflicts (sTx s)"
    using unmarked_sel [OF t(2)] by (simp add: tx_def SetNextWriteNoWriteConflictRange_def split: if_splits)
  have "tx_inv db (sTx s)" using s by (simp add: session_inv_def)
  then have "tx_inv db (t\<lparr>nextWriteNoConflict := False\<rparr>)"
    using unmarked_quiet [of t "sTx s"] t(2) unmarked_inv [of t "sTx s" db]
      unmarked_inv [of "t\<lparr>nextWriteNoConflict := False\<rparr>" "(sTx s)\<lparr>nextWriteNoConflict := False\<rparr>" db]
    by (auto simp: tx_def tx_inv_def writesLogged_def split: if_splits)
  then have "tx_inv db (SetVersionstampedKey tx k v)"
    unfolding t by (intro enqueue_inv) (simp_all add: mutationOf_def)
  then show ?thesis
    unfolding tx_def [symmetric] by (intro session_keep [OF s]) (simp_all add: t sel growsConflicts_def)
qed


text \<open>Every call other than a commit leaves the database alone and keeps the invariant of its session.\<close>

lemma session_same:
  assumes "session_inv db s" "tx' = (sTx s)\<lparr>rywDisabled := a, bypassUnreadable := b, retryLimit := c, hasRetryLimit := d,
    cancelled := f, writeConflicts := writeConflicts (sTx s) @ ws\<rparr>"
  shows "session_inv db (s\<lparr>sTx := tx'\<rparr>)"
proof (rule session_keep [OF assms(1)])
  show "tx_inv db tx'" using assms mutationLogged_mono
    by (fastforce simp: session_inv_def tx_inv_def writesLogged_def)
qed (simp_all add: assms growsConflicts_def)

lemma session_writeConflict:
  assumes "session_inv db s"
  shows "session_inv db (s\<lparr>sTx := addWriteConflict (sTx s) b e\<rparr>)" and "session_inv db (s\<lparr>sTx := sTx s\<rparr>)"
proof -
  show "session_inv db (s\<lparr>sTx := addWriteConflict (sTx s) b e\<rparr>)"
    by (rule session_same [OF assms, where a = "rywDisabled (sTx s)" and b = "bypassUnreadable (sTx s)" and c = "retryLimit (sTx s)"
      and d = "hasRetryLimit (sTx s)" and f = "cancelled (sTx s)" and ws = "[\<lparr>rbegin = b, rend = e\<rparr>]"]) (simp add: addWriteConflict_def)
  show "session_inv db (s\<lparr>sTx := sTx s\<rparr>)" using assms by simp
qed

lemma session_fresh: "tx_inv db tx \<Longrightarrow> session_inv db \<lparr>sTx = tx, sLog = []\<rparr>"
  by (simp add: session_inv_def)

lemma tx_inv_resetState: "tx_inv db tx \<Longrightarrow> tx_inv db (resetState tx)"
  by (simp add: tx_inv_def resetState_def writesLogged_def)

lemma session_onError:
  assumes "session_inv db s"
  shows "session_inv db (snd (runOp db s (OpOnError err)))"
proof -
  have inv: "tx_inv db (sTx s)" using assms by (simp add: session_inv_def)
  then have "tx_inv db (fst (OnError (sTx s) err))"
    by (auto simp: OnError_def Let_def tx_inv_def resetState_def writesLogged_def)
  then show ?thesis using assms
    by (auto simp: OnError_def keep_def Let_def intro: session_fresh split: prod.splits option.splits if_splits)
qed

lemma session_runOp:
  assumes db: "db_inv db" "envClock db = None" and s: "session_inv db s" and a: "opAllowed db s op"
    and op: "\<And>draws. op \<noteq> OpCommit draws" and run: "runOp db s op = (db', s')"
  shows "db' = db \<and> session_inv db s'"
proof -
  have same: "\<And>tx. tx = (sTx s)\<lparr>rywDisabled := rywDisabled tx, bypassUnreadable := bypassUnreadable tx, retryLimit := retryLimit tx,
      hasRetryLimit := hasRetryLimit tx, cancelled := cancelled tx, writeConflicts := writeConflicts (sTx s) @ []\<rparr> \<Longrightarrow>
      session_inv db (s\<lparr>sTx := tx\<rparr>)"
    using session_same [OF s] by blast
  have "fst (runOp db s op) = db" using op by (cases op) (auto simp: keep_def split: prod.splits sum.splits option.splits)
  moreover have "session_inv db (snd (runOp db s op))"
  proof (cases op)
    case (OpGet k snapshot)
    then show ?thesis using session_get [OF db s] by (cases "get db (sTx s) k snapshot") simp
  next
    case (OpGetRange opts snapshot b e)
    then show ?thesis using session_getRange [OF db s] by blast
  next
    case (OpOnError err)
    then show ?thesis using session_onError [OF s] by blast
  next
    case (OpGetKey ks snapshot)
    then show ?thesis using session_reads [OF db s] readStep_getKey [of db "sTx s" ks snapshot]
      by (cases "getKey db (sTx s) ks snapshot") (simp add: keep_def reads_def)
  next
    case (OpGetRangeSelectors opts snapshot bks eks)
    then show ?thesis using session_reads [OF db s] reads_getRangeSlice [of db "sTx s" opts snapshot bks eks]
      by (cases "getRangeSlice db (sTx s) opts snapshot bks eks") (simp add: keep_def)
  next
    case OpGetReadVersion
    then show ?thesis using session_reads [OF db s] by (auto simp: keep_def GetReadVersion_def reads_def Let_def)
  next
    case (OpSetReadVersion v)
    then show ?thesis using s a
      by (auto simp: keep_def SetReadVersion_def session_inv_def tx_inv_def writesLogged_def)
  next
    case (OpReadConflictRange b e)
    then show ?thesis using session_reads [OF db s] s
      by (auto simp: keep_def AddReadConflictRange_def reads_def split: sum.split option.split)
  next
    case (OpReadConflictKey k)
    then show ?thesis using session_reads [OF db s] s by (auto simp: keep_def AddReadConflictKey_def reads_def)
  next
    case (OpWriteConflictRange b e)
    then show ?thesis using session_writeConflict [OF s]
      by (auto simp: keep_def AddWriteConflictRange_def split: sum.split option.split)
  next
    case (OpWriteConflictKey k)
    then show ?thesis using session_writeConflict [OF s] by (auto simp: keep_def AddWriteConflictKey_def)
  next
    case OpReset
    then show ?thesis using s tx_inv_resetState [of db "sTx s"]
      by (auto simp: Reset_def session_inv_def tx_inv_def writesLogged_def)
  qed (use op session_enqueue [OF s] session_versionstampedKey [OF s] same in
    \<open>auto simp: keep_def txnSet_def txnClear_def txnClearRange_def txnAtomic_def SetVersionstampedValue_def
       SetReadYourWritesDisable_def SetBypassUnreadable_def SetRetryLimit_def Cancel_def\<close>)
  ultimately show ?thesis using run by simp
qed


text \<open>What a commit makes of the handle, and of the committed data.\<close>

lemma Commit_commit:
  assumes "Commit db tx draws = (db', tx', r)"
  obtains (idle) "db' = db" "tx' = tx" | (commit) "commit db (tx\<lparr>committed := False\<rparr>) draws = (db', tx', r)"
proof -
  have "tx\<lparr>committed := False\<rparr> = (if committed tx then tx\<lparr>committed := False\<rparr> else tx)" by (cases tx) simp
  then have "Commit db tx draws = (db, tx, Some 1025) \<or> Commit db tx draws = (db, tx, None) \<or>
      Commit db tx draws = commit db (tx\<lparr>committed := False\<rparr>) draws"
    unfolding Commit_def Let_def by presburger
  then show thesis using assms idle commit by auto
qed

lemma Commit_session:
  assumes db: "db_inv db" "envClock db = None" and s: "session_inv db s" and c: "Commit db (sTx s) draws = (db', tx', r)"
  shows "session_inv db \<lparr>sTx = tx', sLog = (if rvSet tx' then sLog s else [])\<rparr>"
  using c
proof (cases rule: Commit_commit)
  case idle
  then show ?thesis using s by (auto simp: session_inv_def)
next
  case commit
  let ?tx = "ensureReadVersion db ((sTx s)\<lparr>committed := False\<rparr>)"
  have inv: "tx_inv db (sTx s)" using s by (simp add: session_inv_def)
  then have inv': "tx_inv db ?tx"
    by (intro tx_inv_ensure [OF db(2,1)]) (simp add: tx_inv_def writesLogged_def)
  have reset: "tx_inv db (postCommitReset (?tx\<lparr>committed := a, committedVersion := b, txVersionstamp := d\<rparr>))" for a b d
    using inv' by (simp add: tx_inv_def postCommitReset_def writesLogged_def)
  have reset': "tx_inv db (postCommitReset (?tx\<lparr>committed := a, committedVersion := b\<rparr>))" for a b
    using inv' by (simp add: tx_inv_def postCommitReset_def writesLogged_def)
  have kept: "session_inv db \<lparr>sTx = ?tx, sLog = sLog s\<rparr>"
    using session_keep [OF s inv'] by (cases s) (auto simp: growsConflicts_def ensureReadVersion_def split: if_splits)
  from commit show ?thesis
    by (cases rule: commit_cases) (use kept reset reset' in \<open>auto simp: postCommitReset_def intro: session_fresh\<close>)
qed

lemma Commit_data:
  assumes db: "db_inv db" and c: "Commit db tx draws = (db', tx', r)"
  obtains (kept) "store db' = store db" "lastVersion db' = lastVersion db"
  | (applied) "lastVersion db < lastVersion db'"
      "\<And>k w. valueAt (store db') k w = (if w < lastVersion db' then valueAt (store db) k w
         else foldl (commitStep (lastVersion db') k) (valueAt (store db) k (lastVersion db)) (buffer tx))"
  using c
proof (cases rule: Commit_commit)
  case idle
  then show ?thesis using kept by simp
next
  case commit
  let ?tx = "ensureReadVersion db (tx\<lparr>committed := False\<rparr>)"
  consider "dbData db' = dbData db" | (app) "dbData db' = dbData (applyCommit db ?tx)"
    using commit_data [OF commit] by blast
  then show ?thesis
  proof cases
    case 1
    then show ?thesis using kept by (simp add: dbData_def)
  next
    case app
    then have "store db' = store (applyCommit db ?tx)" "lastVersion db' = commitVersionOf db"
      by (simp_all add: dbData_def applyCommit_sel)
    then show ?thesis using applied commitVersionOf_gt applyCommit_spec(2,3) [OF db] by (simp add: not_less)
  qed
qed

lemma Commit_inv:
  assumes db: "db_inv db" "changesLogged db" and tx: "tx_inv db tx" and c: "Commit db tx draws = (db', tx', r)"
  shows "db_inv db' \<and> changesLogged db' \<and> envClock db' = envClock db \<and> lastVersion db \<le> lastVersion db'"
  using c
proof (cases rule: Commit_commit)
  case commit
  moreover have "writesLogged (tx\<lparr>committed := False\<rparr>)" using tx by (simp add: tx_inv_def writesLogged_def)
  ultimately show ?thesis using commit_inv [OF commit db(1)] db(2) by blast
qed (use db in simp)

text \<open>A later database gives the same answers at the versions of an earlier one.\<close>

lemma buildView_values:
  assumes "store_inv (store db) u" "store_inv (store db') u'" "\<And>k. valueAt (store db') k (readVersion tx) = valueAt (store db) k (readVersion tx)"
  shows "buildView db' tx = buildView db tx"
  using assms by (intro rows_eqI ext) (simp_all add: buildView_spec viewOf_def)

lemma replays_values:
  assumes "store_inv (store db) u" "store_inv (store db') u'" "\<And>k. valueAt (store db') k v = valueAt (store db) k v"
  shows "replays db' v en = replays db v en"
  using assms buildView_values [OF assms(1,2)]
  by (cases en) (simp_all add: resolveKey_def snapshotValue_def Let_def rowsOf_def)

lemma session_later:
  assumes "session_inv db s" "store_inv (store db) u" "store_inv (store db') u'" "lastVersion db \<le> lastVersion db'"
    and "\<And>k w. w \<le> lastVersion db \<Longrightarrow> valueAt (store db') k w = valueAt (store db) k w"
  shows "session_inv db' s"
proof -
  have "replays db' (readVersion (sTx s)) en" if "en \<in> set (sLog s)" for en
  proof -
    have "rvSet (sTx s)" using assms(1) that unfolding session_inv_def by fastforce
    then have "readVersion (sTx s) \<le> lastVersion db" using assms(1) by (simp add: session_inv_def tx_inv_def)
    then show ?thesis using assms(1) replays_values [OF assms(2,3) assms(5)] that by (simp add: session_inv_def)
  qed
  then show ?thesis using assms(1,4) by (auto simp: session_inv_def tx_inv_def)
qed


lemma histValue_snoc:
  "histValue (hist @ [(cv, ms)]) v k =
     (if cv \<le> v then foldl (commitStep cv k) (histValue hist v k) ms else histValue hist v k)"
  by (simp add: histValue_def)

lemma histValue_beyond:
  assumes "\<forall>cv \<in> set (map fst hist). cv \<le> u" "u \<le> v"
  shows "histValue hist v k = histValue hist u k"
proof -
  have "filter (\<lambda>(cv, ms). cv \<le> v) hist = hist" "filter (\<lambda>(cv, ms). cv \<le> u) hist = hist"
    using assms by (auto simp: filter_id_conv)
  then show ?thesis by (simp add: histValue_def)
qed

lemma sys_inv_new: "sys_inv newSystem"
  by (simp add: sys_inv_def newSystem_def newSimDB_def db_inv_def store_inv_def changesLogged_def histValue_def
      valueAt_def search_def Let_def)

text \<open>Scheduled faults and closing are seen by later commits only.\<close>

lemma sys_inv_data:
  assumes "sys_inv S" "store db = store (sysDB S)" "lastVersion db = lastVersion (sysDB S)" "recentWrites db = recentWrites (sysDB S)"
    "envClock db = envClock (sysDB S)"
  shows "sys_inv (S\<lparr>sysDB := db\<rparr>)"
proof -
  have "session_inv db s" if "session_inv (sysDB S) s" for s
  proof -
    have "store_inv (store (sysDB S)) (lastVersion (sysDB S))" using assms(1) by (simp add: sys_inv_def db_inv_def)
    then show ?thesis using session_later [OF that, of _ db] assms by simp
  qed
  then show ?thesis using assms by (auto simp: sys_inv_def db_inv_def changesLogged_def)
qed

lemma sys_inv_commit:
  assumes S: "sys_inv S" and i: "i < length (sysSessions S)" and c: "Commit (sysDB S) (sTx (sysSessions S ! i)) draws = (db', tx', r)"
  shows "sys_inv \<lparr>sysDB = db',
    sysSessions = (sysSessions S)[i := \<lparr>sTx = tx', sLog = (if rvSet tx' then sLog (sysSessions S ! i) else [])\<rparr>],
    sysHist = sysHist S @ (if lastVersion db' = lastVersion (sysDB S) then []
       else [(lastVersion db', buffer (sTx (sysSessions S ! i)))])\<rparr>"
proof -
  let ?db = "sysDB S" and ?s = "sysSessions S ! i"
  have inv: "db_inv ?db" "changesLogged ?db" "envClock ?db = None" "session_inv ?db ?s"
    and all: "\<And>s. s \<in> set (sysSessions S) \<Longrightarrow> session_inv ?db s"
    and hist: "\<And>k v. valueAt (store ?db) k v = histValue (sysHist S) v k" "sorted_wrt (<) (map fst (sysHist S))"
      "\<forall>cv \<in> set (map fst (sysHist S)). cv \<le> lastVersion ?db"
    using S i by (auto simp: sys_inv_def)
  have db': "db_inv db'" "changesLogged db'" "envClock db' = None" "lastVersion ?db \<le> lastVersion db'"
    using Commit_inv [OF inv(1,2) _ c] inv(3,4) by (auto simp: session_inv_def)
  have same: "valueAt (store db') k w = valueAt (store ?db) k w" if "w \<le> lastVersion ?db" for k w
    using Commit_data [OF inv(1) c] that by (metis order.strict_trans1)
  have st: "store_inv (store ?db) (lastVersion ?db)" "store_inv (store db') (lastVersion db')"
    using inv(1) db'(1) by (simp_all add: db_inv_def)
  have sess: "session_inv db' s" if "session_inv ?db s" for s
    by (rule session_later [OF that st db'(4) same])
  have "session_inv db' \<lparr>sTx = tx', sLog = (if rvSet tx' then sLog ?s else [])\<rparr>"
    by (rule sess [OF Commit_session [OF inv(1,3,4) c]])
  then have sessions: "\<forall>s \<in> set ((sysSessions S)[i := \<lparr>sTx = tx', sLog = (if rvSet tx' then sLog ?s else [])\<rparr>]). session_inv db' s"
    using sess [OF all] set_update_subset_insert [of "sysSessions S" i] by blast
  consider (1) "store db' = store ?db" "lastVersion db' = lastVersion ?db"
    | (2) "lastVersion ?db < lastVersion db'" "\<And>k w. valueAt (store db') k w = (if w < lastVersion db' then valueAt (store ?db) k w
         else foldl (commitStep (lastVersion db') k) (valueAt (store ?db) k (lastVersion ?db)) (buffer (sTx ?s)))"
    using Commit_data [OF inv(1) c] by metis
  then show ?thesis
  proof cases
    case 1
    then show ?thesis using db' sessions hist by (simp add: sys_inv_def)
  next
    case 2
    have "valueAt (store db') k v = histValue (sysHist S @ [(lastVersion db', buffer (sTx ?s))]) v k" for k v
      using 2 hist(1) histValue_beyond [OF hist(3), of v k] by (simp add: histValue_snoc)
    moreover have "sorted_wrt (<) (map fst (sysHist S @ [(lastVersion db', buffer (sTx ?s))]))"
      using hist(2,3) 2(1) by (fastforce simp: sorted_wrt_append)
    moreover have "\<forall>cv \<in> set (map fst (sysHist S @ [(lastVersion db', buffer (sTx ?s))])). cv \<le> lastVersion db'"
      using hist(3) 2(1) by fastforce
    ultimately show ?thesis using db' sessions 2(1) by (simp add: sys_inv_def)
  qed
qed

lemma sysStep_inv: "sysStep S S' \<Longrightarrow> sys_inv S \<Longrightarrow> sys_inv S'"
proof (induction rule: sysStep.induct)
  case (opens S)
  have "session_inv (sysDB S) \<lparr>sTx = newTxn, sLog = []\<rparr>"
    by (simp add: session_inv_def tx_inv_def newTxn_def writesLogged_def)
  then show ?case using opens by (auto simp: sys_inv_def)
next
  case (injects S codes)
  then show ?case by (rule sys_inv_data) (simp_all add: InjectSequence_def)
next
  case (injectsOnce S code)
  then show ?case by (rule sys_inv_data) (simp_all add: InjectOnce_def)
next
  case (closes S)
  then show ?case by (rule sys_inv_data) (simp_all add: Close_def)
next
  case (runs i S op db' s')
  show ?case
  proof (cases "\<exists>draws. op = OpCommit draws")
    case True
    then obtain draws tx' r where "Commit (sysDB S) (sTx (sysSessions S ! i)) draws = (db', tx', r)"
      "s' = \<lparr>sTx = tx', sLog = (if rvSet tx' then sLog (sysSessions S ! i) else [])\<rparr>"
      using runs.hyps(3) by (auto split: prod.splits)
    then show ?thesis using sys_inv_commit [OF runs.prems runs.hyps(1)] by simp
  next
    case False
    have "db' = sysDB S \<and> session_inv (sysDB S) s'"
      by (rule session_runOp [OF _ _ _ runs.hyps(2) _ runs.hyps(3)]) (use runs.prems runs.hyps(1) False in \<open>auto simp: sys_inv_def\<close>)
    then show ?thesis
      using runs.prems by (auto simp: sys_inv_def dest!: subsetD [OF set_update_subset_insert])
  qed
qed

lemma reachable_inv: "reachable S \<Longrightarrow> sys_inv S"
  by (induction rule: reachable.induct) (auto intro: sys_inv_new sysStep_inv)


text \<open>A commit that takes effect has found no conflict.\<close>

lemma Commit_effect:
  assumes "Commit db tx draws = (db', tx', r)" and "lastVersion db' \<noteq> lastVersion db"
  shows "\<not> hasConflict db (ensureReadVersion db (tx\<lparr>committed := False\<rparr>))"
  using assms(1)
proof (cases rule: Commit_commit)
  case commit
  then show ?thesis using assms(2) by (cases rule: commit_cases) (auto simp: dbData_def)
qed (use assms(2) in simp)

lemma session_serial:
  assumes db: "db_inv db" "changesLogged db" and s: "session_inv db s"
    and c: "Commit db (sTx s) draws = (db', tx', r)" "lastVersion db' \<noteq> lastVersion db" and en: "en \<in> set (sLog s)"
  shows "replays db (lastVersion db) en"
proof -
  let ?tx = "ensureReadVersion db ((sTx s)\<lparr>committed := False\<rparr>)"
  have "rvSet (sTx s)" using s en unfolding session_inv_def by fastforce
  then have tx: "?tx = (sTx s)\<lparr>committed := False\<rparr>" by simp
  have "protects (sTx s) en" "replays db (readVersion (sTx s)) en" using s en by (auto simp: session_inv_def)
  then have "protects ?tx en" "replays db (readVersion ?tx) en"
    unfolding tx using protects_grows by (auto simp: growsConflicts_def)
  then show ?thesis using replays_commit [OF db Commit_effect [OF c]] by blast
qed

section \<open>Properties\<close>

text \<open>A schedule: which session makes which call.\<close>

fun sysRun :: "simSystem \<Rightarrow> (nat \<times> txnOp) list \<Rightarrow> simSystem" where
  "sysRun S [] = S"
| "sysRun S ((i, op) # sched) =
     (let (db', s') = runOp (sysDB S) (sysSessions S ! i) op
      in sysRun \<lparr>sysDB = db', sysSessions = (sysSessions S)[i := s'],
           sysHist = sysHist S @ (if lastVersion db' = lastVersion (sysDB S) then []
             else [(lastVersion db', buffer (sTx (sysSessions S ! i)))])\<rparr> sched)"

fun isSetReadVersion :: "txnOp \<Rightarrow> bool" where
  "isSetReadVersion (OpSetReadVersion v) = True"
| "isSetReadVersion op = False"

lemma sysRun_reachable:
  "reachable S \<Longrightarrow> list_all (\<lambda>(i, op). i < length (sysSessions S) \<and> \<not> isSetReadVersion op) sched \<Longrightarrow> reachable (sysRun S sched)"
proof (induction sched arbitrary: S)
  case (Cons x sched)
  obtain i op where x: "x = (i, op)" by (cases x)
  obtain db' s' where run: "runOp (sysDB S) (sysSessions S ! i) op = (db', s')" by fastforce
  have "opAllowed (sysDB S) (sysSessions S ! i) op" using Cons.prems x by (cases op) auto
  then have "reachable \<lparr>sysDB = db', sysSessions = (sysSessions S)[i := s'],
      sysHist = sysHist S @ (if lastVersion db' = lastVersion (sysDB S) then []
        else [(lastVersion db', buffer (sTx (sysSessions S ! i)))])\<rparr>"
    using reachable.step [OF Cons.prems(1) sysStep.runs [OF _ _ run]] Cons.prems(2) x by simp
  then show ?case using Cons.IH Cons.prems(2) x run by simp
qed simp

lemma reachable_open:
  "reachable S \<Longrightarrow> reachable (S\<lparr>sysSessions := sysSessions S @ [\<lparr>sTx = newTxn, sLog = []\<rparr>]\<rparr>)"
  by (erule reachable.step) (rule sysStep.opens)

definition twoSessions :: simSystem where
  "twoSessions = newSystem\<lparr>sysSessions := [\<lparr>sTx = newTxn, sLog = []\<rparr>, \<lparr>sTx = newTxn, sLog = []\<rparr>]\<rparr>"

lemma reachable_twoSessions: "reachable twoSessions"
  using reachable_open [OF reachable_open [OF reachable.start]] by (simp add: twoSessions_def newSystem_def)

text \<open>
  Two transactions interleave: the first reads a key and a range, the second writes another key and
  commits, and then the first writes.
\<close>

definition exampleSystem :: simSystem where
  "exampleSystem = sysRun twoSessions
     [(0, OpGet [1] False), (0, OpGetRange \<lparr>Limit = 1, Mode = StreamingModeExact, Reverse = False\<rparr> False [1] [3]),
      (1, OpSet [5] (Some [9])), (1, OpCommit noFaults),
      (0, OpSet [1] (Some [1]))]"

definition commitsNext :: "simSystem \<Rightarrow> bool" where
  "commitsNext S \<longleftrightarrow> length (sysSessions S) = 2 \<and> length (sLog (sysSessions S ! 0)) = 2 \<and> lastVersion (sysDB S) = 1 \<and>
     lastVersion (fst (Commit (sysDB S) (sTx (sysSessions S ! 0)) noFaults)) = 2 \<and> histValue (sysHist S) 1 [5] = Some [9]"

lemma exampleSystem_commitsNext: "commitsNext exampleSystem"
  by code_simp

lemma reachable_example: "reachable exampleSystem"
  unfolding exampleSystem_def by (rule sysRun_reachable [OF reachable_twoSessions]) (simp add: twoSessions_def)



text \<open>
  (C2) The versioned store refines the history of the commits: in every reachable state the commit
  versions increase strictly, and the value of a key at any version is what the commits up to that version
  make of it when their mutations are applied one commit after the other to an empty database.
\<close>

theorem store_refines_history:
  assumes "reachable S"
  shows "sorted_wrt (<) (map fst (sysHist S)) \<and> valueAt (store (sysDB S)) k v = histValue (sysHist S) v k"
  using reachable_inv [OF assms] by (simp add: sys_inv_def)

theorem store_refines_history_witness: "valueAt (store (sysDB exampleSystem)) [5] 1 = Some [9]"
  using store_refines_history [OF reachable_example, of "[5]" 1] exampleSystem_commitsNext by (simp add: commitsNext_def)





lemma quiet_no_conflict: "db_inv db \<Longrightarrow> lastVersion db \<le> readVersion tx \<Longrightarrow> \<not> hasConflict db tx"
  by (fastforce simp: db_inv_def hasConflict_def list_ex_iff)

lemma checkSizeLimits_committed [simp]: "checkSizeLimits (tx\<lparr>committed := x\<rparr>) = checkSizeLimits tx"
  by (simp add: checkSizeLimits_def commitSize_def)

lemma takeInject_none: "pendingInject db = 0 \<Longrightarrow> injectQueue db = [] \<Longrightarrow> takeInject db = (0, db)"
  by (simp add: takeInject_def)

lemma Commit_quiet:
  assumes "db_inv db" "\<not> dbClosed db" "envClock db = None" "pendingInject db = 0" "injectQueue db = []"
    and "\<not> cancelled tx" "rvSet tx" "readVersion tx = lastVersion db" "buffer tx \<noteq> []" "checkSizeLimits tx = None"
  shows "Commit db tx noFaults =
    (applyCommit db (tx\<lparr>committed := False\<rparr>), postCommitReset (tx\<lparr>committed := True, committedVersion := lastVersion db + 1,
       txVersionstamp := Some (versionstampBytes_sim (lastVersion db + 1) 0)\<rparr>), None)"
proof -
  let ?tx = "tx\<lparr>committed := False\<rparr>"
  have cv: "commitVersionOf db = lastVersion db + 1"
    using assms(1,3) by (simp add: commitVersionOf_def clockVersion_def Let_def db_inv_def)
  have same: "(if committed tx then ?tx else tx) = ?tx" by (cases tx) simp
  have "Commit db tx noFaults = commit db (if committed tx then ?tx else tx) noFaults"
    using assms by (simp add: Commit_def Let_def)
  then have "Commit db tx noFaults = commit db ?tx noFaults" unfolding same .
  also have "\<dots> = commitRest db ?tx noFaults"
    using assms quiet_no_conflict [OF assms(1), of ?tx] by (simp add: commit_def Let_def latestVersion_noClock)
  also have "\<dots> = (applyCommit db ?tx, postCommitReset (?tx\<lparr>committed := True, committedVersion := commitVersionOf db,
       txVersionstamp := Some (versionstampBytes_sim (commitVersionOf db) 0)\<rparr>), None)"
    using assms takeInject_none by (simp add: commitRest_def noFaults_def Let_def)
  finally show ?thesis unfolding cv by simp
qed

lemma commitStep_plain:
  "\<forall>m \<in> set ms. mkind m \<noteq> mutVersionstampedKey \<and> mkind m \<noteq> mutVersionstampedValue \<Longrightarrow>
     foldl (commitStep cv k) cur ms = foldl (replayStep k) cur ms"
  by (induction ms arbitrary: cur) (auto simp: commitStep_def split: mutationKind.splits)


lemma exampleDB_db_inv: "db_inv exampleDB"
  using exampleDB_inv by (simp add: db_inv_def exampleDB_def newSimDB_def)

definition exampleReady :: bool where
  "exampleReady \<longleftrightarrow> \<not> dbClosed exampleDB \<and> envClock exampleDB = None \<and> pendingInject exampleDB = 0 \<and> injectQueue exampleDB = [] \<and>
     \<not> cancelled exampleTxn \<and> rvSet exampleTxn \<and> readVersion exampleTxn = lastVersion exampleDB \<and>
     buffer exampleTxn \<noteq> [] \<and> checkSizeLimits exampleTxn = None \<and> \<not> rywDisabled exampleTxn \<and>
     list_all (\<lambda>m. mkind m \<noteq> mutVersionstampedKey \<and> mkind m \<noteq> mutVersionstampedValue) (buffer exampleTxn) \<and>
     resolveKey exampleDB exampleTxn [1] = Some [8]"

lemma exampleReady_holds: exampleReady
  by code_simp




end
