(* ===== verification/SimRetry.thy ===== *)
theory SimRetry
  imports SimSerial
begin

text \<open>
  The retry loops of the simulated database (\<^verbatim>\<open>Transact\<close> and \<^verbatim>\<open>ReadTransact\<close> of \<^verbatim>\<open>pkg/simfdb/simfdb.go\<close>).  The body
  of a transaction is a function argument; the draws of the fault generator are given for each attempt.
\<close>

section \<open>Errors\<close>

text \<open>A Go error: an error of the database, one that wraps another, or any other.\<close>

datatype goError = FdbError int | WrappedError string goError | OtherError string

text \<open>\<^verbatim>\<open>errors.As\<close> for a database error: the first one in the chain.\<close>

fun errorsAs :: "goError \<Rightarrow> int option" where
  "errorsAs (FdbError code) = Some code"
| "errorsAs (WrappedError msg err) = errorsAs err"
| "errorsAs (OtherError msg) = None"

definition declinedRetryError :: "goError \<Rightarrow> int \<Rightarrow> goError \<Rightarrow> goError" where
  "declinedRetryError err fe oerr =
     (case errorsAs oerr of
        Some oe \<Rightarrow> if oe = fe then err else oerr
      | None \<Rightarrow> oerr)"

section \<open>The loops\<close>

abbreviation maxRetries :: nat where "maxRetries \<equiv> 100"

text \<open>
  The body is called with the number of the attempt.  It runs the transaction and may change the database by
  what others do meanwhile; it returns a result or an error.
\<close>

type_synonym 'a body = "nat \<Rightarrow> simDB \<Rightarrow> simTxn \<Rightarrow> simDB \<times> simTxn \<times> (goError, 'a) result"

definition tryOnce ::
  "'a body \<Rightarrow> (nat \<Rightarrow> commitDraws) \<Rightarrow> nat \<Rightarrow> simDB \<Rightarrow> simTxn \<Rightarrow> simDB \<times> simTxn \<times> (goError, 'a) result" where
  "tryOnce fn draws attempt db tx =
     (case fn attempt db tx of
        (db, tx, Inl err) \<Rightarrow> (db, tx, Inl err)
      | (db, tx, Inr result) \<Rightarrow>
          (case Commit db tx (draws attempt) of
             (db, tx, Some code) \<Rightarrow> (db, tx, Inl (FdbError code))
           | (db, tx, None) \<Rightarrow> (db, tx, Inr result)))"

text \<open>What the loop does with an error: give up with an error, or go on with the transaction it has reset.\<close>

definition retryOrFail :: "nat \<Rightarrow> simTxn \<Rightarrow> goError \<Rightarrow> (goError, simTxn) result" where
  "retryOrFail attempt tx err =
     (case errorsAs err of
        Some fe \<Rightarrow>
          if attempt < maxRetries \<and> IsOnErrorRetryable fe
          then (case OnError tx fe of
                  (tx, Some oerr) \<Rightarrow> Inl (declinedRetryError err fe (FdbError oerr))
                | (tx, None) \<Rightarrow> Inr tx)
          else Inl err
      | None \<Rightarrow> Inl err)"

lemma retryOrFail_bound: "retryOrFail attempt tx err = Inr tx' \<Longrightarrow> attempt < maxRetries"
  by (auto simp: retryOrFail_def split: option.splits if_splits)

function transactLoop ::
  "'a body \<Rightarrow> (nat \<Rightarrow> commitDraws) \<Rightarrow> nat \<Rightarrow> simDB \<Rightarrow> simTxn \<Rightarrow> simDB \<times> (goError, 'a) result" where
  "transactLoop fn draws attempt db tx =
     (case tryOnce fn draws attempt db tx of
        (db, tx, Inr result) \<Rightarrow> (db, Inr result)
      | (db, tx, Inl err) \<Rightarrow>
          (case retryOrFail attempt tx err of
             Inl e \<Rightarrow> (db, Inl e)
           | Inr tx \<Rightarrow> transactLoop fn draws (attempt + 1) db tx))"
  by pat_completeness auto
termination
  by (relation "measure (\<lambda>(fn, draws, attempt, db, tx). maxRetries - attempt)") (auto dest!: retryOrFail_bound)

declare transactLoop.simps [simp del]

definition Transact :: "'a body \<Rightarrow> (nat \<Rightarrow> commitDraws) \<Rightarrow> simDB \<Rightarrow> simDB \<times> (goError, 'a) result" where
  "Transact fn draws db = transactLoop fn draws 0 db newTxn"

function readTransactLoop :: "'a body \<Rightarrow> nat \<Rightarrow> simDB \<Rightarrow> simTxn \<Rightarrow> simDB \<times> (goError, 'a) result" where
  "readTransactLoop fn attempt db tx =
     (case fn attempt db tx of
        (db, tx, Inr result) \<Rightarrow> (db, Inr result)
      | (db, tx, Inl err) \<Rightarrow>
          (case retryOrFail attempt tx err of
             Inl e \<Rightarrow> (db, Inl e)
           | Inr tx \<Rightarrow> readTransactLoop fn (attempt + 1) db tx))"
  by pat_completeness auto
termination
  by (relation "measure (\<lambda>(fn, attempt, db, tx). maxRetries - attempt)") (auto dest!: retryOrFail_bound)

declare readTransactLoop.simps [simp del]

definition ReadTransact :: "'a body \<Rightarrow> simDB \<Rightarrow> simDB \<times> (goError, 'a) result" where
  "ReadTransact fn db = readTransactLoop fn 0 db newTxn"

section \<open>What the loops return\<close>

text \<open>OnError declines with the code it was given, so a declined retry returns the error itself.\<close>

lemma retryOrFail_Inl: "retryOrFail attempt tx err = Inl e \<Longrightarrow> e = err"
  by (auto simp: retryOrFail_def declinedRetryError_def OnError_def Let_def split: option.splits if_splits)

lemma transactLoop_cong:
  assumes "\<forall>i. attempt \<le> i \<and> i \<le> maxRetries \<longrightarrow> fn' i = fn i \<and> draws' i = draws i" and "attempt \<le> maxRetries"
  shows "transactLoop fn' draws' attempt db tx = transactLoop fn draws attempt db tx"
  using assms
proof (induction "maxRetries - attempt" arbitrary: attempt db tx rule: less_induct)
  case less
  have "fn' attempt = fn attempt" "draws' attempt = draws attempt" using less.prems by blast+
  then have once: "tryOnce fn' draws' attempt db tx = tryOnce fn draws attempt db tx"
    unfolding tryOnce_def by (simp only:)
  have "transactLoop fn' draws' (attempt + 1) db tx' = transactLoop fn draws (attempt + 1) db tx'"
    if "retryOrFail attempt t err = Inr tx'" for t err tx' db
    by (rule less.hyps) (use retryOrFail_bound [OF that] less.prems in auto)
  then show ?case
    unfolding transactLoop.simps [of fn' draws' attempt] transactLoop.simps [of fn draws attempt] once
    by (auto split: prod.splits sum.splits)
qed

text \<open>The error of the last attempt, from the body or from the commit.\<close>

lemma transactLoop_error:
  assumes "transactLoop fn draws attempt db tx = (db', Inl e)" and "attempt \<le> maxRetries"
  shows "\<exists>i db1 tx1 db2 tx2. attempt \<le> i \<and> i \<le> maxRetries \<and> tryOnce fn draws i db1 tx1 = (db2, tx2, Inl e) \<and>
    (i < maxRetries \<longrightarrow> retryOrFail i tx2 e = Inl e) \<and> db' = db2"
  using assms
proof (induction "maxRetries - attempt" arbitrary: attempt db tx rule: less_induct)
  case less
  obtain db1 tx1 r where once: "tryOnce fn draws attempt db tx = (db1, tx1, r)" by (cases "tryOnce fn draws attempt db tx")
  obtain err where r: "r = Inl err" using less.prems once by (cases r) (auto simp: transactLoop.simps)
  show ?case
  proof (cases "retryOrFail attempt tx1 err")
    case (Inl e')
    then have "e = err" "db' = db1" "e' = err" using less.prems once r retryOrFail_Inl by (auto simp: transactLoop.simps)
    then show ?thesis using less.prems once r Inl by blast
  next
    case (Inr tx')
    have "transactLoop fn draws (attempt + 1) db1 tx' = (db', Inl e)"
      using less.prems once r Inr by (simp add: transactLoop.simps [of fn draws attempt])
    moreover have "maxRetries - (attempt + 1) < maxRetries - attempt" "attempt + 1 \<le> maxRetries"
      using retryOrFail_bound [OF Inr] by auto
    ultimately show ?thesis using less.hyps by (metis add_leD1)
  qed
qed

section \<open>Properties\<close>

text \<open>
  (C20) The retry loop ends: it is a total function, and it calls its body at most 101 times, since its outcome
  depends on nothing that the body or the fault generator would do in an attempt after the first 101.
\<close>

theorem Transact_bounded:
  assumes "\<forall>i \<le> maxRetries. fn' i = fn i \<and> draws' i = draws i"
  shows "Transact fn' draws' db = Transact fn draws db"
  unfolding Transact_def by (rule transactLoop_cong) (use assms in auto)

theorem Transact_bounded_witness:
  "Transact (\<lambda>i db tx. if i \<le> 100 then (db, tx, Inl (FdbError 1020)) else (db, tx, Inr ())) (\<lambda>_. noFaults) (newSimDB None) =
   Transact (\<lambda>i db tx. (db, tx, Inl (FdbError 1020))) (\<lambda>_. noFaults) (newSimDB None)"
  by (rule Transact_bounded) simp

text \<open>
  (C34) The retry loop returns the error of its last attempt as it is, with every wrapper the body put around
  it: the body of that attempt or its commit returned it, and it was the hundred and first attempt or the
  loop may not retry it, because it is not a retryable database error or the retry limit is used up.
\<close>

theorem Transact_error:
  assumes "Transact fn draws db = (db', Inl e)"
  shows "\<exists>i db1 tx1 tx2. i \<le> maxRetries \<and> tryOnce fn draws i db1 tx1 = (db', tx2, Inl e) \<and>
    (i = maxRetries \<or> (case errorsAs e of None \<Rightarrow> True
       | Some code \<Rightarrow> \<not> IsOnErrorRetryable code \<or> hasRetryLimit tx2 \<and> retryLimit tx2 \<le> retryCount tx2))"
proof -
  obtain i db1 tx1 db2 tx2 where i: "i \<le> maxRetries" "tryOnce fn draws i db1 tx1 = (db2, tx2, Inl e)"
    "i < maxRetries \<longrightarrow> retryOrFail i tx2 e = Inl e" "db' = db2"
    using transactLoop_error [OF assms [unfolded Transact_def] le0] by blast
  have "case errorsAs e of None \<Rightarrow> True
      | Some code \<Rightarrow> \<not> IsOnErrorRetryable code \<or> hasRetryLimit tx2 \<and> retryLimit tx2 \<le> retryCount tx2" if "i < maxRetries"
    using i(3) that by (auto simp: retryOrFail_def OnError_def Let_def split: option.splits if_splits)
  then show ?thesis using i by (metis le_neq_implies_less)
qed

theorem Transact_error_witness:
  "\<exists>i db1 tx1 tx2. i \<le> maxRetries \<and>
     tryOnce (\<lambda>i db tx. (db, tx, Inl (WrappedError ''insert'' (FdbError 2101)) :: (goError, unit) result)) (\<lambda>_. noFaults) i db1 tx1 =
       (newSimDB None, tx2, Inl (WrappedError ''insert'' (FdbError 2101)))"
proof -
  have "Transact (\<lambda>i db tx. (db, tx, Inl (WrappedError ''insert'' (FdbError 2101)) :: (goError, unit) result)) (\<lambda>_. noFaults)
      (newSimDB None) = (newSimDB None, Inl (WrappedError ''insert'' (FdbError 2101)))"
    by (simp add: Transact_def transactLoop.simps tryOnce_def retryOrFail_def IsOnErrorRetryable_def)
  from Transact_error [OF this] show ?thesis by blast
qed



lemma checkSizeLimits_set:
  assumes "length k \<le> keySizeLimit" "length v \<le> valueSizeLimit"
  shows "checkSizeLimits (ensureReadVersion db (txnSet (newTxn\<lparr>retryCount := n\<rparr>) k (Some v))) = None"
proof -
  have "buffer (txnSet (newTxn\<lparr>retryCount := n\<rparr>) k (Some v)) = [mutationOf mutSet k [] (Some v)]"
    "readConflicts (txnSet (newTxn\<lparr>retryCount := n\<rparr>) k (Some v)) = []"
    "writeConflicts (txnSet (newTxn\<lparr>retryCount := n\<rparr>) k (Some v)) = [\<lparr>rbegin = k, rend = keyAfter k\<rparr>]"
    by (simp_all add: txnSet_def enqueue_def Let_def newTxn_def mutationOf_def presentVal_def addWriteConflict_def)
  then show ?thesis
    using assms by (simp add: checkSizeLimits_def commitSize_def conflictRangeBytes_def mutationBytes_def mutationOf_def keyAfter_def)
qed

lemma commit_set:
  assumes "\<not> dbClosed db" "length k \<le> keySizeLimit" "length v \<le> valueSizeLimit"
  shows "Commit db (txnSet (newTxn\<lparr>retryCount := n\<rparr>) k (Some v)) draws =
    commitRest db (ensureReadVersion db (txnSet (newTxn\<lparr>retryCount := n\<rparr>) k (Some v))) draws"
proof -
  let ?tx = "txnSet (newTxn\<lparr>retryCount := n\<rparr>) k (Some v)"
  have tx: "buffer ?tx \<noteq> []" "readConflicts ?tx = []" "\<not> cancelled ?tx" "\<not> committed ?tx"
    by (simp_all add: txnSet_def enqueue_def Let_def newTxn_def addWriteConflict_def)
  then have "\<not> hasConflict db (ensureReadVersion db ?tx)" by (simp add: hasConflict_def list_ex_iff)
  then show ?thesis
    using assms tx checkSizeLimits_set [OF assms(2,3), of db n] by (simp add: Commit_def commit_def Let_def)
qed

lemma resetState_set:
  "resetState ((ensureReadVersion db (txnSet (newTxn\<lparr>retryCount := n\<rparr>) k v))\<lparr>retryCount := m\<rparr>) = newTxn\<lparr>retryCount := m\<rparr>"
  by (simp add: resetState_def ensureReadVersion_def txnSet_def enqueue_def Let_def newTxn_def addWriteConflict_def)

lemma transactLoop_set:
  assumes "db_inv db" "\<not> dbClosed db" "pendingInject db = 0" "injectQueue db = codes" "length k \<le> keySizeLimit" "length v \<le> valueSizeLimit"
    and "\<forall>c \<in> set codes. IsOnErrorRetryable c \<and> \<not> maybeCommitted c" "attempt + length codes \<le> maxRetries"
  shows "\<exists>db'. transactLoop (\<lambda>i db tx. (db, txnSet tx k (Some v), Inr ())) (\<lambda>_. noFaults) attempt db (newTxn\<lparr>retryCount := n\<rparr>) = (db', Inr ()) \<and>
    valueAt (store db') k (lastVersion db') = Some v \<and> lastVersion db' = commitVersionOf db"
  using assms
proof (induction codes arbitrary: attempt db n)
  case Nil
  let ?tx = "ensureReadVersion db (txnSet (newTxn\<lparr>retryCount := n\<rparr>) k (Some v))"
  have "buffer ?tx = [mutationOf mutSet k [] (Some v)]"
    by (simp add: txnSet_def enqueue_def Let_def newTxn_def mutationOf_def presentVal_def addWriteConflict_def)
  then have "valueAt (store (applyCommit db ?tx)) k (commitVersionOf db) = Some v"
    using applyCommit_spec(3) [OF Nil.prems(1), of "commitVersionOf db" ?tx k]
    by (simp add: commitStep_def replayStep_def mutationOf_def)
  then show ?case
    using Nil.prems takeInject_none [of db]
    by (simp add: transactLoop.simps tryOnce_def commit_set commitRest_def noFaults_def Let_def applyCommit_sel)
next
  case (Cons c codes)
  let ?tx = "ensureReadVersion db (txnSet (newTxn\<lparr>retryCount := n\<rparr>) k (Some v))" and ?db = "db\<lparr>injectQueue := codes\<rparr>"
  have c: "IsOnErrorRetryable c" "\<not> maybeCommitted c" using Cons.prems by auto
  then have c': "c \<noteq> 0" "c \<noteq> 1021" "c \<noteq> injectCommitUnknownApplied" "c \<noteq> injectCommitUnknownDiscarded"
    by (auto simp: IsOnErrorRetryable_def maybeCommitted_def)
  have once: "tryOnce (\<lambda>i db tx. (db, txnSet tx k (Some v), Inr ())) (\<lambda>_. noFaults) attempt db (newTxn\<lparr>retryCount := n\<rparr>) =
      (?db, ?tx, Inl (FdbError c))"
    using Cons.prems c' by (simp add: tryOnce_def commit_set commitRest_def takeInject_def)
  have lim: "\<not> hasRetryLimit ?tx" "retryCount ?tx = n"
    by (simp_all add: ensureReadVersion_def txnSet_def enqueue_def Let_def newTxn_def addWriteConflict_def)
  have "retryOrFail attempt ?tx (FdbError c) = Inr (newTxn\<lparr>retryCount := n + 1\<rparr>)"
    using c lim Cons.prems(8) by (simp add: retryOrFail_def OnError_def Let_def resetState_set)
  then have "transactLoop (\<lambda>i db tx. (db, txnSet tx k (Some v), Inr ())) (\<lambda>_. noFaults) attempt db (newTxn\<lparr>retryCount := n\<rparr>) =
      transactLoop (\<lambda>i db tx. (db, txnSet tx k (Some v), Inr ())) (\<lambda>_. noFaults) (attempt + 1) ?db (newTxn\<lparr>retryCount := n + 1\<rparr>)"
    unfolding transactLoop.simps [of _ _ attempt] once by simp
  moreover have "db_inv ?db" using Cons.prems(1) by (simp add: db_inv_def)
  moreover have "commitVersionOf ?db = commitVersionOf db" by (simp add: commitVersionOf_def clockVersion_def)
  ultimately show ?case using Cons.IH [of ?db "attempt + 1" "n + 1"] Cons.prems by simp
qed

text \<open>
  (C21) Transient faults do not lose a write: however the next commits are made to fail, by up to a hundred
  scheduled errors that are retryable and known not to have committed, the loop returns success and the
  write is there.
\<close>

theorem Transact_set_survives:
  assumes "db_inv db" "\<not> dbClosed db" "pendingInject db = 0" "injectQueue db = codes" "length codes \<le> maxRetries"
    and "\<forall>c \<in> set codes. IsOnErrorRetryable c \<and> \<not> maybeCommitted c" and "length k \<le> keySizeLimit" "length v \<le> valueSizeLimit"
  shows "\<exists>db'. Transact (\<lambda>i db tx. (db, txnSet tx k (Some v), Inr ())) (\<lambda>_. noFaults) db = (db', Inr ()) \<and>
    valueAt (store db') k (lastVersion db') = Some v"
proof -
  have "newTxn\<lparr>retryCount := 0\<rparr> = newTxn" by (simp add: newTxn_def)
  then show ?thesis
    using transactLoop_set [OF assms(1-4,7,8,6), of 0 0] assms(5) unfolding Transact_def by auto
qed

theorem Transact_set_survives_witness:
  "\<exists>db'. Transact (\<lambda>i db tx. (db, txnSet tx [1] (Some [2]), Inr ())) (\<lambda>_. noFaults)
     (InjectSequence (newSimDB None) [1020, 1007, 1009]) = (db', Inr ()) \<and> valueAt (store db') [1] (lastVersion db') = Some [2]"
proof (rule Transact_set_survives [where codes = "[1020, 1007, 1009]"])
  show "db_inv (InjectSequence (newSimDB None) [1020, 1007, 1009])"
    by (simp add: db_inv_def InjectSequence_def newSimDB_def store_inv_def)
qed (simp_all add: InjectSequence_def newSimDB_def IsOnErrorRetryable_def maybeCommitted_def)

end
