(* ===== verification/SimBounds.thy ===== *)
theory SimBounds
  imports SimSerial
begin

text \<open>
  The size limits of the simulated database as an invariant of its store: whatever the sessions of a
  system do, no key and no value that was ever committed is longer than the limits the commit checks.
\<close>

section \<open>Bounded stores\<close>

definition boundedValue :: "bytes option \<Rightarrow> bool" where
  "boundedValue v \<longleftrightarrow> length (presentBytes v) \<le> valueSizeLimit"

definition boundedEntry :: "storeEntry \<Rightarrow> bool" where
  "boundedEntry e \<longleftrightarrow> length (entryKey e) \<le> keySizeLimit \<and> (\<forall>x \<in> set (entryHistory e). boundedValue (vvValue x))"

definition boundedStore :: "mvccStore \<Rightarrow> bool" where
  "boundedStore s \<longleftrightarrow> (\<forall>e \<in> set (entries s). boundedEntry e)"

lemma boundedValue_simps [simp]: "boundedValue None" "boundedValue (Some v) \<longleftrightarrow> length v \<le> valueSizeLimit"
  by (simp_all add: boundedValue_def presentBytes_def)

lemma search_found: "search s k = (i, True) \<Longrightarrow> i < length (entries s) \<and> entryKey (entries s ! i) = k"
  by (auto simp: search_def Let_def split: if_splits)

lemma find_Some_in_set: "find P xs = Some x \<Longrightarrow> x \<in> set xs"
  by (induction xs) (auto split: if_splits)

lemma boundedStore_valueAt:
  assumes "boundedStore s"
  shows "boundedValue (valueAt s k v)"
proof (cases "search s k")
  case (Pair i ok)
  show ?thesis
  proof (cases ok)
    case True
    then have "boundedEntry (entries s ! i)"
      using assms search_found [of s k i] Pair by (auto simp: boundedStore_def)
    moreover have "x \<in> set (entryHistory (entries s ! i))"
      if "find (\<lambda>x. vvVersion x \<le> v) (rev (entryHistory (entries s ! i))) = Some x" for x
      using find_Some_in_set [OF that] by simp
    ultimately show ?thesis using True Pair
      by (auto simp: valueAt_def newestAt_def boundedEntry_def split: option.split)
  qed (simp add: valueAt_def Pair)
qed

lemma boundedStore_put:
  assumes "boundedStore s" and "length k \<le> keySizeLimit" and "boundedValue x"
  shows "boundedStore (storePut s k x cv)"
proof (cases "search s k")
  case (Pair i ok)
  show ?thesis
  proof (cases ok)
    case True
    then have i: "i < length (entries s)" using search_found [of s k i] Pair by simp
    then have "boundedEntry (entries s ! i)" using assms(1) by (simp add: boundedStore_def)
    then have e: "boundedEntry ((entries s ! i)\<lparr>entryHistory := entryHistory (entries s ! i) @ [\<lparr>vvVersion = cv, vvValue = x\<rparr>]\<rparr>)"
      using assms(3) by (simp add: boundedEntry_def)
    have "boundedEntry e" if "e \<in> set ((entries s)[i := (entries s ! i)\<lparr>entryHistory :=
        entryHistory (entries s ! i) @ [\<lparr>vvVersion = cv, vvValue = x\<rparr>]\<rparr>])" for e
      using set_update_subset_insert [THEN subsetD, OF that] e assms(1) by (auto simp: boundedStore_def)
    then show ?thesis using True by (simp add: storePut_def Pair boundedStore_def)
  next
    case False
    have "boundedEntry \<lparr>entryKey = k, entryHistory = [\<lparr>vvVersion = cv, vvValue = x\<rparr>]\<rparr>"
      using assms(2,3) by (simp add: boundedEntry_def)
    then show ?thesis using assms(1) False
      by (auto simp: storePut_def Pair boundedStore_def dest: in_set_takeD in_set_dropD)
  qed
qed

lemma boundedStore_clearLoop:
  "\<forall>e \<in> set es. boundedEntry e \<Longrightarrow> \<forall>e \<in> set (clearLoop es hi cv). boundedEntry e"
  by (induction es) (auto simp: boundedEntry_def)

lemma boundedStore_clearRange: "boundedStore s \<Longrightarrow> boundedStore (storeClearRange s b e cv)"
  using boundedStore_clearLoop [of "drop (fst (search s b)) (entries s)" e cv]
  by (auto simp: storeClearRange_def boundedStore_def Let_def dest: in_set_takeD in_set_dropD)

section \<open>Mutations and commits\<close>

lemma applyAtomic_bounded:
  assumes "boundedValue existing" and "length param \<le> valueSizeLimit"
  shows "boundedValue (fst (applyAtomic op existing param))"
  using assms
  by (cases existing; cases op)
    (auto simp: applyAtomic_def doAdd_def doAnd_def doOr_def doXor_def doMax_def doMin_def doMinPresent_def
      doByteMax_def doByteMin_def doAppendIfFits_def doCompareAndClear_def appendNil_def Let_def split: if_splits)

lemma stampVersionstamp_length: "length stamp = 10 \<Longrightarrow> length (presentBytes (stampVersionstamp buf stamp)) \<le> length buf"
  by (auto simp: stampVersionstamp_def presentBytes_def appendNil_def Let_def)

lemma applyMutation_bounded:
  assumes "boundedStore s" and "length (mkey m) \<le> keySizeLimit" and "length (presentBytes (mvalue m)) \<le> valueSizeLimit"
  shows "boundedStore (fst (applyMutation cv (s, wcr) m))"
proof -
  have st: "length (versionstampBytes_sim cv 0) = 10" by (simp add: versionstampBytes_sim_def)
  have k: "length (presentBytes (stampVersionstamp (mkey m) (versionstampBytes_sim cv 0))) \<le> keySizeLimit"
    using stampVersionstamp_length [OF st, of "mkey m"] assms(2) by simp
  have v: "boundedValue (stampVersionstamp (presentBytes (mvalue m)) (versionstampBytes_sim cv 0))"
    using stampVersionstamp_length [OF st, of "presentBytes (mvalue m)"] assms(3) by (simp add: boundedValue_def)
  have a: "boundedValue (fst (applyAtomic (mop m) (valueAt s (mkey m) cv) (presentBytes (mvalue m))))"
    using applyAtomic_bounded [OF boundedStore_valueAt [OF assms(1)] assms(3)] .
  have w: "boundedValue (mvalue m)" using assms(3) by (simp add: boundedValue_def)
  show ?thesis
    using assms k v a w
    by (cases "mkind m")
      (auto simp: applyMutation_def Let_def intro!: boundedStore_put boundedStore_clearRange split: prod.split)
qed

lemma checkMutations_bounded:
  "checkMutations ms = None \<Longrightarrow> m \<in> set ms \<Longrightarrow>
     length (mkey m) \<le> keySizeLimit \<and> length (presentBytes (mvalue m)) \<le> valueSizeLimit"
  by (induction ms) (auto split: if_splits)

lemma applyMutations_bounded:
  assumes "boundedStore (store db)" and "checkMutations (buffer tx) = None"
  shows "boundedStore (store (fst (applyMutations db tx cv)))"
proof -
  have "boundedStore (fst st) \<Longrightarrow> checkMutations ms = None \<Longrightarrow> boundedStore (fst (foldl (applyMutation cv) st ms))" for st ms
  proof (induction ms arbitrary: st)
    case (Cons m ms)
    obtain s wcr where st: "st = (s, wcr)" by (cases st)
    have "boundedStore (fst (applyMutation cv st m))"
      using applyMutation_bounded [of s m cv wcr] checkMutations_bounded [OF Cons.prems(2), of m] Cons.prems(1) st by simp
    moreover have "checkMutations ms = None" using Cons.prems(2) by (auto split: if_splits)
    ultimately show ?case using Cons.IH by simp
  qed simp
  with assms show ?thesis by (auto simp: applyMutations_def split: prod.split) (metis fst_conv)
qed

lemma Commit_bounded:
  assumes "boundedStore (store db)" and "Commit db tx draws = (db', tx', r)"
  shows "boundedStore (store db')"
  using assms(2)
proof (cases rule: Commit_commit)
  case commit
  let ?tx = "ensureReadVersion db (tx\<lparr>committed := False\<rparr>)"
  from commit show ?thesis
  proof (cases rule: commit_cases)
    case applied
    have "checkMutations (buffer ?tx) = None"
      using applied(4) by (auto simp: checkSizeLimits_def split: option.splits)
    from applyMutations_bounded [OF assms(1) this, of "commitVersionOf db"]
    have "boundedStore (store (applyCommit db ?tx))"
      by (simp add: applyCommit_def Let_def case_prod_beta)
    with applied(1) show ?thesis by (simp add: dbData_def)
  qed (use assms(1) in \<open>simp_all add: dbData_def\<close>)
qed (use assms(1) in simp)

lemma runOp_bounded:
  assumes "boundedStore (store db)" and "runOp db s op = (db', s')"
  shows "boundedStore (store db')"
proof (cases "\<exists>draws. op = OpCommit draws")
  case True
  then show ?thesis using assms Commit_bounded by (auto split: prod.splits)
next
  case False
  then have "db' = db" using assms(2) by (cases op) (auto simp: keep_def split: prod.splits sum.splits option.splits)
  with assms(1) show ?thesis by simp
qed

lemma sysStep_bounded: "sysStep S S' \<Longrightarrow> boundedStore (store (sysDB S)) \<Longrightarrow> boundedStore (store (sysDB S'))"
  by (induction rule: sysStep.induct)
    (auto simp: InjectSequence_def InjectOnce_def Close_def intro: runOp_bounded)

section \<open>Properties\<close>

text \<open>
  (C26) The database never holds an oversized key or value.  In every reachable state of the system, after
  any interleaving of sets, atomic operations, versionstamped writes, clears, commits with injected faults
  and retries of any number of sessions, every key of the store has at most 10000 bytes and every version of
  a value at most 100000.
\<close>

theorem store_bounded:
  assumes "reachable S"
  shows "\<forall>e \<in> set (entries (store (sysDB S))). length (entryKey e) \<le> 10000 \<and>
    (\<forall>x \<in> set (entryHistory e). length (presentBytes (vvValue x)) \<le> 100000)"
proof -
  have "boundedStore (store (sysDB newSystem))" by (simp add: newSystem_def newSimDB_def boundedStore_def)
  with assms have "boundedStore (store (sysDB S))"
    by (induction rule: reachable.induct) (auto intro: sysStep_bounded)
  then show ?thesis by (simp add: boundedStore_def boundedEntry_def boundedValue_def)
qed

theorem store_bounded_witness:
  "list_all (\<lambda>e. length (entryKey e) \<le> 10000) (entries (store (sysDB exampleSystem)))"
  using store_bounded [OF reachable_example] by (simp add: list_all_iff)

end
