(* ===== verification/TupleVersionstamp.thy ===== *)
theory TupleVersionstamp
  imports TupleCode
begin

text \<open>
  Packing a tuple with one incomplete versionstamp (\<^verbatim>\<open>PackWithVersionstamp\<close>): the packer records
  the offset of the ten placeholder bytes, and overwriting those bytes with a transaction version
  gives the code of the completed tuple.
\<close>

section \<open>Versionstamp packing\<close>

text \<open>
  Filling in the transaction version: \<open>complete s\<close> replaces the transaction version of every
  incomplete versionstamp, at any depth.
\<close>

fun complete_elem :: "bytes \<Rightarrow> tuple_element \<Rightarrow> tuple_element" where
  "complete_elem s (ETuple t) = ETuple (map (complete_elem s) t)"
| "complete_elem s (EVersionstamp v) =
     EVersionstamp (if TransactionVersion v = incompleteTransactionVersion
                    then v\<lparr>TransactionVersion := s\<rparr> else v)"
| "complete_elem s e = e"

fun elem_incomplete :: "tuple_element \<Rightarrow> nat" where
  "elem_incomplete (ETuple t) = countIncompleteVersionstamps t"
| "elem_incomplete (EVersionstamp v) =
     (if TransactionVersion v = incompleteTransactionVersion then 1 else 0)"
| "elem_incomplete e = 0"

lemma count_Cons [simp]:
  "countIncompleteVersionstamps (e # es) = elem_incomplete e + countIncompleteVersionstamps es"
  by (cases e) auto

fun magnitudes_ok :: "tuple_element \<Rightarrow> bool" where
  "magnitudes_ok (ETuple t) = (\<forall>e \<in> set t. magnitudes_ok e)"
| "magnitudes_ok (EBigInt i) = magnitude_ok i"
| "magnitudes_ok _ = True"

lemma count_0_iff: "countIncompleteVersionstamps t = 0 \<longleftrightarrow> (\<forall>e \<in> set t. elem_incomplete e = 0)"
  by (induction t) auto

lemma complete_elem_id: "elem_incomplete e = 0 \<Longrightarrow> complete_elem s e = e"
  by (induction e) (auto simp: count_0_iff intro: map_idI)

lemma complete_id: "countIncompleteVersionstamps t = 0 \<Longrightarrow> map (complete_elem s) t = t"
  by (auto simp: count_0_iff complete_elem_id intro: map_idI)

lemma complete_incomplete [simp]: "complete_elem incompleteTransactionVersion e = e"
  by (induction e) (auto intro: map_idI)

text \<open>\<open>stamp_at k c\<close>: the bytes \<open>c s\<close> carry \<open>s\<close> at offset \<open>k\<close> and do not depend on it elsewhere.\<close>

definition stamp_at :: "nat \<Rightarrow> (bytes \<Rightarrow> bytes) \<Rightarrow> bool" where
  "stamp_at k c \<longleftrightarrow> (\<exists>pre post. length pre = k \<and> (\<forall>s. c s = pre @ s @ post))"

lemma stamp_at_right: "stamp_at k c \<Longrightarrow> stamp_at k (\<lambda>s. c s @ r)"
  by (auto simp: stamp_at_def)

lemma stamp_at_left: "stamp_at k c \<Longrightarrow> stamp_at (length l + k) (\<lambda>s. l @ c s)"
  unfolding stamp_at_def by (metis append_assoc length_append)

lemma stamp_at_cons: "stamp_at k c \<Longrightarrow> stamp_at (Suc k) (\<lambda>s. x # c s)"
  using stamp_at_left [of k c "[x]"] by simp

lemma encode_stamps_none:
  "\<forall>e \<in> set t. magnitudes_ok e \<Longrightarrow> countIncompleteVersionstamps t = 0 \<Longrightarrow>
     encodeTuple p t nested True =
       Inr (putBytes p (if nested then nestedCode # tuple_code True t @ [0] else tuple_code False t))"
  "\<forall>e \<in> set t. magnitudes_ok e \<Longrightarrow> countIncompleteVersionstamps t = 0 \<Longrightarrow>
     encodeElems p t nested True = Inr (putBytes p (tuple_code nested t))"
  "magnitudes_ok e \<Longrightarrow> elem_incomplete e = 0 \<Longrightarrow>
     encodeCase p e nested True = Inr (putBytes p (elem_code nested e))"
proof (induction p t nested "True" and p t nested "True" and p e nested "True"
    rule: encodeTuple_encodeElems_encodeCase.induct)
qed (auto simp: encodeInt_code encodeUint_code encodeBytes_code encodeBigInt_code encodeFloat_def
  encodeDouble_def encodeUUID_def encodeVersionstamp_def float_code_def double_code_def
  elem_code_tuple simp del: elem_code.simps(5) split: if_splits)

lemma putBytes_pos [simp]:
  "putBytes (p\<lparr>versionstampPos := k\<rparr>) b = (putBytes p b)\<lparr>versionstampPos := k\<rparr>"
  by (simp add: putBytes_def)

lemma encode_stamps_one:
  "\<forall>e \<in> set t. magnitudes_ok e \<Longrightarrow> countIncompleteVersionstamps t = 1 \<Longrightarrow> versionstampPos p = -1 \<Longrightarrow>
     \<exists>k. stamp_at k (\<lambda>s. let c = tuple_code nested (map (complete_elem s) t)
                         in if nested then nestedCode # c @ [0] else c) \<and>
       encodeTuple p t nested True =
         Inr ((putBytes p (if nested then nestedCode # tuple_code True t @ [0] else tuple_code False t))
              \<lparr>versionstampPos := of_nat (length (buf p) + k)\<rparr>)"
  "\<forall>e \<in> set t. magnitudes_ok e \<Longrightarrow> countIncompleteVersionstamps t = 1 \<Longrightarrow> versionstampPos p = -1 \<Longrightarrow>
     \<exists>k. stamp_at k (\<lambda>s. tuple_code nested (map (complete_elem s) t)) \<and>
       encodeElems p t nested True =
         Inr ((putBytes p (tuple_code nested t))\<lparr>versionstampPos := of_nat (length (buf p) + k)\<rparr>)"
  "magnitudes_ok e \<Longrightarrow> elem_incomplete e = 1 \<Longrightarrow> versionstampPos p = -1 \<Longrightarrow>
     \<exists>k. stamp_at k (\<lambda>s. elem_code nested (complete_elem s e)) \<and>
       encodeCase p e nested True =
         Inr ((putBytes p (elem_code nested e))\<lparr>versionstampPos := of_nat (length (buf p) + k)\<rparr>)"
proof (induction p t nested "True" and p t nested "True" and p e nested "True"
    rule: encodeTuple_encodeElems_encodeCase.induct)
  case (1 p t nested)
  have "versionstampPos (if nested then putByte p nestedCode else p) = -1" using 1(4) by simp
  from 1(1) [OF refl 1(2,3) this] obtain k where k: "stamp_at k (\<lambda>s. tuple_code nested (map (complete_elem s) t))"
    and enc: "encodeElems (if nested then putByte p nestedCode else p) t nested True =
      Inr ((putBytes (if nested then putByte p nestedCode else p) (tuple_code nested t))
           \<lparr>versionstampPos := of_nat (length (buf (if nested then putByte p nestedCode else p)) + k)\<rparr>)"
    by blast
  show ?case
  proof (cases nested)
    case True
    have "stamp_at (Suc k) (\<lambda>s. nestedCode # tuple_code nested (map (complete_elem s) t) @ [0])"
      by (rule stamp_at_cons [OF stamp_at_right [OF k]])
    with True enc show ?thesis by (intro exI [of _ "Suc k"]) (simp add: Let_def)
  next
    case False
    with k enc show ?thesis by (intro exI [of _ k]) (simp add: Let_def)
  qed
next
  case (3 p e es nested)
  show ?case
  proof (cases "elem_incomplete e = 0")
    case True
    let ?p = "putBytes p (elem_code nested e)"
    have "encodeCase p e nested True = Inr ?p" using 3 True by (simp add: encode_stamps_none)
    moreover from this 3 True obtain k where
      k: "stamp_at k (\<lambda>s. tuple_code nested (map (complete_elem s) es))"
      and "encodeElems ?p es nested True =
        Inr ((putBytes ?p (tuple_code nested es))\<lparr>versionstampPos := of_nat (length (buf ?p) + k)\<rparr>)"
      by fastforce
    ultimately show ?thesis using True stamp_at_left [OF k, of "elem_code nested e"]
      by (intro exI [of _ "length (elem_code nested e) + k"])
        (simp add: complete_elem_id add.assoc)
  next
    case False
    with 3 have none: "countIncompleteVersionstamps es = 0" and one: "elem_incomplete e = 1" by auto
    with 3 obtain k where
      k: "stamp_at k (\<lambda>s. elem_code nested (complete_elem s e))"
      and "encodeCase p e nested True =
        Inr ((putBytes p (elem_code nested e))\<lparr>versionstampPos := of_nat (length (buf p) + k)\<rparr>)"
      by fastforce
    then show ?thesis using 3 none stamp_at_right [OF k, of "tuple_code nested es"]
      by (intro exI [of _ k]) (simp add: complete_id encode_stamps_none)
  qed
next
  case (4 p t nested)
  then show ?case by (simp add: elem_code_tuple Let_def del: elem_code.simps(5) encodeTuple.simps)
next
  case (18 p v nested)
  have inc: "TransactionVersion v = incompleteTransactionVersion"
    using 18(2) by (simp split: if_splits)
  then have "stamp_at 1 (\<lambda>s. elem_code nested (complete_elem s (EVersionstamp v)))"
    unfolding stamp_at_def
    by (intro exI [of _ "[versionstampCode]"] exI [of _ "be_bytes 2 (unat (UserVersion v))"])
      (simp add: versionstampBytes_def)
  moreover have "encodeCase p (EVersionstamp v) nested True =
      Inr ((putBytes p (elem_code nested (EVersionstamp v)))
           \<lparr>versionstampPos := of_nat (length (buf p) + 1)\<rparr>)"
    using inc 18(3) by (simp add: encodeVersionstamp_def)
  ultimately show ?case by blast
qed auto

lemma encode_magnitudes:
  "encodeTuple p t nested vs = Inr q \<Longrightarrow> \<forall>e \<in> set t. magnitudes_ok e"
  "encodeElems p t nested vs = Inr q \<Longrightarrow> \<forall>e \<in> set t. magnitudes_ok e"
  "encodeCase p e nested vs = Inr q \<Longrightarrow> magnitudes_ok e"
proof (induction p t nested vs and p t nested vs and p e nested vs arbitrary: q and q and q
    rule: encodeTuple_encodeElems_encodeCase.induct)
  case (1 p t nested vs)
  then show ?case by (auto simp: Let_def split: sum.splits)
next
  case (3 p e es nested vs)
  then show ?case by (auto simp del: encodeCase.simps split: sum.splits)
next
  case (4 p t nested vs)
  then show ?case by (simp del: encodeTuple.simps)
qed (simp_all add: encodeBigInt_code split: if_splits)

lemma PackWithVersionstamp_stamp:
  assumes "PackWithVersionstamp (Some api) t pre = Inr b" and "520 \<le> api"
  shows "\<exists>k. stamp_at k (\<lambda>s. pre @ tuple_code False (map (complete_elem s) t)) \<and>
    b = pre @ tuple_code False t @ le_bytes 4 (k mod 2 ^ 32)"
proof -
  from assms obtain p where one: "countIncompleteVersionstamps t = 1"
    and p: "encodeTuple (putBytes newPacker pre) t False True = Inr p"
    and b: "b = buf p @ le_bytes 4 (unat (versionstampPos p))"
    by (auto simp: PackWithVersionstamp_def HasIncompleteVersionstamp_def Let_def
      simp del: encodeTuple.simps split: if_splits sum.splits)
  have "versionstampPos (putBytes newPacker pre) = -1" by (simp add: newPacker_def)
  from encode_stamps_one(1) [OF encode_magnitudes(1) [OF p] one this, of False] obtain k where
    k: "stamp_at k (\<lambda>s. tuple_code False (map (complete_elem s) t))"
    and "encodeTuple (putBytes newPacker pre) t False True =
      Inr ((putBytes (putBytes newPacker pre) (tuple_code False t))
           \<lparr>versionstampPos := of_nat (length (buf (putBytes newPacker pre)) + k)\<rparr>)"
    by (auto simp: Let_def simp del: encodeTuple.simps)
  with p have "buf p = pre @ tuple_code False t" and "versionstampPos p = of_nat (length pre + k)"
    by (auto simp: newPacker_def simp del: encodeTuple.simps)
  with b stamp_at_left [OF k, of pre] show ?thesis
    by (intro exI [of _ "length pre + k"]) (simp add: unat_of_nat flip: of_nat_add)
qed

end
