(* ===== verification/RecordVersion.thy ===== *)
theory RecordVersion
  imports TupleFast TupleVersionstamp SimCommit
begin

text \<open>
  Record versions (\<^verbatim>\<open>pkg/recordlayer/record_version.go\<close>) and their stored forms
  (\<^verbatim>\<open>packVersion\<close>, \<^verbatim>\<open>unpackVersion\<close> and the versionstamped values of \<^verbatim>\<open>store_version.go\<close> and
  \<^verbatim>\<open>database.go\<close>).  A version has ten bytes that the database assigns at commit and two bytes that count
  the writes of a transaction.
\<close>

section \<open>Versions\<close>

text \<open>\<^verbatim>\<open>raw\<close> is an array of twelve bytes; its length is part of \<open>version_wf\<close> below.\<close>

record FDBRecordVersion =
  versionRaw :: bytes
  versionComplete :: bool

definition VersionBytes :: nat where "VersionBytes = 12"
definition GlobalVersionBytes :: nat where "GlobalVersionBytes = 10"

definition incompleteGlobalVersionMarker :: bytes where
  "incompleteGlobalVersionMarker = replicate 10 0xFF"

text \<open>The loop ends at the end of the marker or of the argument, as the recursion on both lists does.\<close>

fun globalCompleteLoop :: "bytes \<Rightarrow> bytes \<Rightarrow> bool" where
  "globalCompleteLoop (g # gs) (m # ms) = (if g \<noteq> m then True else globalCompleteLoop gs ms)"
| "globalCompleteLoop _ _ = False"

definition isGlobalVersionComplete :: "bytes \<Rightarrow> bool" where
  "isGlobalVersionComplete globalBytes = globalCompleteLoop globalBytes incompleteGlobalVersionMarker"

datatype versionError =
    GlobalVersionLength nat
  | VersionLength nat
  | IncompleteGlobalVersion
  | LocalVersionRange int
  | NoGlobalVersion
  | NoDBVersion
  | IncrementMaximum
  | MaxLocalVersion
  | DecrementMinimum
  | MinLocalVersion
  | AlreadyComplete
  | CommittedVersionLength nat

definition NewCompleteVersion :: "bytes \<Rightarrow> int \<Rightarrow> (versionError, FDBRecordVersion) result" where
  "NewCompleteVersion globalVersion localVersion =
     (if length globalVersion \<noteq> GlobalVersionBytes then Inl (GlobalVersionLength (length globalVersion))
      else if \<not> isGlobalVersionComplete globalVersion then Inl IncompleteGlobalVersion
      else if localVersion < 0 \<or> localVersion > 0xFFFF then Inl (LocalVersionRange localVersion)
      else Inr \<lparr>versionRaw = globalVersion @ be_bytes 2 (nat localVersion), versionComplete = True\<rparr>)"

definition CompleteVersionFromBytes :: "bytes \<Rightarrow> (versionError, FDBRecordVersion) result" where
  "CompleteVersionFromBytes b =
     (if length b \<noteq> VersionBytes then Inl (VersionLength (length b))
      else if \<not> isGlobalVersionComplete (take GlobalVersionBytes b) then Inl IncompleteGlobalVersion
      else Inr \<lparr>versionRaw = b, versionComplete = True\<rparr>)"

definition completeVersionFromBytesUnchecked :: "bytes \<Rightarrow> (versionError, FDBRecordVersion) result" where
  "completeVersionFromBytesUnchecked b =
     (if length b \<noteq> VersionBytes then Inl (VersionLength (length b))
      else Inr \<lparr>versionRaw = b, versionComplete = True\<rparr>)"

definition IncompleteVersion :: "int \<Rightarrow> (versionError, FDBRecordVersion) result" where
  "IncompleteVersion localVersion =
     (if localVersion < 0 \<or> localVersion > 0xFFFF then Inl (LocalVersionRange localVersion)
      else Inr \<lparr>versionRaw = incompleteGlobalVersionMarker @ be_bytes 2 (nat localVersion),
                versionComplete = False\<rparr>)"

definition IsComplete :: "FDBRecordVersion \<Rightarrow> bool" where
  "IsComplete v = versionComplete v"

definition version_GetLocalVersion :: "FDBRecordVersion \<Rightarrow> int" where
  "version_GetLocalVersion v = int (be_val (drop GlobalVersionBytes (versionRaw v)))"

definition GetGlobalVersion :: "FDBRecordVersion \<Rightarrow> (versionError, bytes) result" where
  "GetGlobalVersion v =
     (if \<not> versionComplete v then Inl NoGlobalVersion else Inr (take GlobalVersionBytes (versionRaw v)))"

text \<open>The eight bytes are read as an unsigned number and converted to a signed one.\<close>

definition GetDBVersion :: "FDBRecordVersion \<Rightarrow> (versionError, 64 word) result" where
  "GetDBVersion v =
     (if \<not> versionComplete v then Inl NoDBVersion else Inr (of_nat (be_val (take 8 (versionRaw v)))))"

definition version_ToBytes :: "FDBRecordVersion \<Rightarrow> bytes" where
  "version_ToBytes v = versionRaw v"

text \<open>\<open>None\<close> is the nil pointer, which both comparisons accept.\<close>

definition version_Equal :: "FDBRecordVersion option \<Rightarrow> FDBRecordVersion option \<Rightarrow> bool" where
  "version_Equal v other =
     (case (v, other) of
        (Some v, Some other) \<Rightarrow>
          if versionComplete v \<noteq> versionComplete other then False
          else if versionComplete v then versionRaw v = versionRaw other
          else version_GetLocalVersion v = version_GetLocalVersion other
      | _ \<Rightarrow> v = None \<and> other = None)"

definition version_Less :: "FDBRecordVersion option \<Rightarrow> FDBRecordVersion option \<Rightarrow> bool" where
  "version_Less v other =
     (case (v, other) of
        (Some v, Some other) \<Rightarrow>
          if versionComplete v \<noteq> versionComplete other then versionComplete v
          else versionRaw v < versionRaw other
      | _ \<Rightarrow> v = None \<and> other \<noteq> None)"

definition MinVersion :: FDBRecordVersion where
  "MinVersion = \<lparr>versionRaw = replicate VersionBytes 0, versionComplete = True\<rparr>"

definition MaxVersion :: FDBRecordVersion where
  "MaxVersion = \<lparr>versionRaw = replicate 9 0xFF @ [0xFE] @ [0xFF, 0xFF], versionComplete = True\<rparr>"

definition FirstInDBVersion :: "64 word \<Rightarrow> FDBRecordVersion" where
  "FirstInDBVersion dbVersion =
     \<lparr>versionRaw = be_bytes 8 (unat dbVersion) @ [0, 0, 0, 0], versionComplete = True\<rparr>"

definition LastInDBVersion :: "64 word \<Rightarrow> FDBRecordVersion" where
  "LastInDBVersion dbVersion =
     \<lparr>versionRaw = be_bytes 8 (unat dbVersion) @ [0xFF, 0xFF, 0xFF, 0xFF], versionComplete = True\<rparr>"

definition FirstInGlobalVersion :: "bytes \<Rightarrow> (versionError, FDBRecordVersion) result" where
  "FirstInGlobalVersion globalVersion = NewCompleteVersion globalVersion 0"

definition LastInGlobalVersion :: "bytes \<Rightarrow> (versionError, FDBRecordVersion) result" where
  "LastInGlobalVersion globalVersion = NewCompleteVersion globalVersion 0xFFFF"

text \<open>The loops of \<^verbatim>\<open>Next\<close> and \<^verbatim>\<open>Prev\<close> at index \<open>i - 1\<close>, with the flag \<^verbatim>\<open>stopped\<close>.\<close>

fun nextLoop :: "bytes \<Rightarrow> nat \<Rightarrow> bytes \<times> bool" where
  "nextLoop raw 0 = (raw, False)"
| "nextLoop raw (Suc i) =
     (if raw ! i = 0xFF then nextLoop (raw[i := 0x00]) i else (raw[i := raw ! i + 1], True))"

fun prevLoop :: "bytes \<Rightarrow> nat \<Rightarrow> bytes \<times> bool" where
  "prevLoop raw 0 = (raw, False)"
| "prevLoop raw (Suc i) =
     (if raw ! i = 0x00 then prevLoop (raw[i := 0xFF]) i else (raw[i := raw ! i - 1], True))"

definition withLocal :: "bytes \<Rightarrow> int \<Rightarrow> bytes" where
  "withLocal raw localVersion = take GlobalVersionBytes raw @ be_bytes 2 (nat localVersion)"

definition Next :: "FDBRecordVersion \<Rightarrow> (versionError, FDBRecordVersion) result" where
  "Next v =
     (if versionComplete v then
        let (raw, stopped) = nextLoop (versionRaw v) VersionBytes
        in if \<not> stopped \<or> \<not> isGlobalVersionComplete (take GlobalVersionBytes raw) then Inl IncrementMaximum
           else Inr \<lparr>versionRaw = raw, versionComplete = True\<rparr>
      else
        let local = version_GetLocalVersion v
        in if local \<ge> 0xFFFF then Inl MaxLocalVersion
           else Inr \<lparr>versionRaw = withLocal (versionRaw v) (local + 1), versionComplete = False\<rparr>)"

definition Prev :: "FDBRecordVersion \<Rightarrow> (versionError, FDBRecordVersion) result" where
  "Prev v =
     (if versionComplete v then
        let (raw, stopped) = prevLoop (versionRaw v) VersionBytes
        in if \<not> stopped then Inl DecrementMinimum
           else Inr \<lparr>versionRaw = raw, versionComplete = True\<rparr>
      else
        let local = version_GetLocalVersion v
        in if local \<le> 0 then Inl MinLocalVersion
           else Inr \<lparr>versionRaw = withLocal (versionRaw v) (local - 1), versionComplete = False\<rparr>)"

definition FromVersionstamp :: "versionstamp \<Rightarrow> FDBRecordVersion" where
  "FromVersionstamp vs =
     (let raw = TransactionVersion vs @ be_bytes 2 (unat (UserVersion vs))
      in \<lparr>versionRaw = raw, versionComplete = isGlobalVersionComplete (take GlobalVersionBytes raw)\<rparr>)"

definition ToVersionstamp :: "FDBRecordVersion \<Rightarrow> versionstamp" where
  "ToVersionstamp v =
     \<lparr>TransactionVersion = take GlobalVersionBytes (versionRaw v),
      UserVersion = of_nat (be_val (drop GlobalVersionBytes (versionRaw v)))\<rparr>"

definition WithCommittedVersion ::
  "FDBRecordVersion \<Rightarrow> bytes \<Rightarrow> (versionError, FDBRecordVersion) result" where
  "WithCommittedVersion v committedStamp =
     (if versionComplete v then Inl AlreadyComplete
      else if length committedStamp \<noteq> GlobalVersionBytes
      then Inl (CommittedVersionLength (length committedStamp))
      else Inr (v\<lparr>versionRaw := committedStamp @ be_bytes 2 (nat (version_GetLocalVersion v)),
                  versionComplete := True\<rparr>))"

section \<open>Stored forms\<close>

definition packVersion :: "FDBRecordVersion \<Rightarrow> (versionError + pack_panic, bytes) result" where
  "packVersion version =
     (case GetGlobalVersion version of
        Inl e \<Rightarrow> Inl (Inl e)
      | Inr globalVer \<Rightarrow>
          (case Pack [EVersionstamp \<lparr>TransactionVersion = globalVer,
                                    UserVersion = word_of_int (version_GetLocalVersion version)\<rparr>] of
             Inl p \<Rightarrow> Inl (Inr p)
           | Inr b \<Rightarrow> Inr b))"

datatype unpackVersionError =
    VersionTupleMalformed fast_error
  | VersionTupleEmpty
  | NotAVersionstamp tuple_element
  | BadVersion versionError

definition unpackVersion :: "bytes \<Rightarrow> (unpackVersionError, FDBRecordVersion) result" where
  "unpackVersion val =
     (case fastUnpack val of
        Inl e \<Rightarrow> Inl (VersionTupleMalformed e)
      | Inr [] \<Rightarrow> Inl VersionTupleEmpty
      | Inr (EVersionstamp vs # _) \<Rightarrow>
          (case (if \<not> isGlobalVersionComplete (TransactionVersion vs)
                 then IncompleteVersion (uint (UserVersion vs))
                 else NewCompleteVersion (TransactionVersion vs) (uint (UserVersion vs))) of
             Inl e \<Rightarrow> Inl (BadVersion e)
           | Inr v \<Rightarrow> Inr v)
      | Inr (e # _) \<Rightarrow> Inl (NotAVersionstamp e))"

definition buildVersionstampedValue ::
  "int option \<Rightarrow> FDBRecordVersion \<Rightarrow> (pack_failure, bytes) result" where
  "buildVersionstampedValue apiVersion version =
     PackWithVersionstamp apiVersion
       [EVersionstamp \<lparr>TransactionVersion = incompleteGlobalVersionMarker,
                       UserVersion = word_of_int (version_GetLocalVersion version)\<rparr>] []"

definition buildOldFormatVersionstampedValue :: "FDBRecordVersion \<Rightarrow> bytes" where
  "buildOldFormatVersionstampedValue version = version_ToBytes version @ [0, 0, 0, 0]"

definition decodeLoadedVersionValue ::
  "bytes option \<Rightarrow> bool \<Rightarrow> (unpackVersionError, FDBRecordVersion option) result" where
  "decodeLoadedVersionValue val oldFormat =
     (case val of
        None \<Rightarrow> Inr None
      | Some val \<Rightarrow>
          if oldFormat
          then (case completeVersionFromBytesUnchecked val of
                  Inl e \<Rightarrow> Inl (BadVersion e)
                | Inr v \<Rightarrow> Inr (Some v))
          else (case unpackVersion val of Inl e \<Rightarrow> Inl e | Inr v \<Rightarrow> Inr (Some v)))"

section \<open>Well-formed versions\<close>

text \<open>An incomplete version always carries the marker: no constructor makes another one.\<close>

definition version_wf :: "FDBRecordVersion \<Rightarrow> bool" where
  "version_wf v \<longleftrightarrow> length (versionRaw v) = VersionBytes \<and>
     (\<not> versionComplete v \<longrightarrow> take GlobalVersionBytes (versionRaw v) = incompleteGlobalVersionMarker)"

lemmas version_sizes = VersionBytes_def GlobalVersionBytes_def

lemma length_marker [simp]: "length incompleteGlobalVersionMarker = 10"
  by (simp add: incompleteGlobalVersionMarker_def)

lemma marker_eq: "incompleteTransactionVersion = incompleteGlobalVersionMarker"
  by (simp add: incompleteTransactionVersion_def incompleteGlobalVersionMarker_def)

lemma globalCompleteLoop_iff: "length gs = length ms \<Longrightarrow> globalCompleteLoop gs ms \<longleftrightarrow> gs \<noteq> ms"
  by (induction gs ms rule: list_induct2) auto

lemma isGlobalVersionComplete_iff:
  "length g = 10 \<Longrightarrow> isGlobalVersionComplete g \<longleftrightarrow> g \<noteq> incompleteGlobalVersionMarker"
  by (simp add: isGlobalVersionComplete_def globalCompleteLoop_iff)

lemma constructors_wf:
  "NewCompleteVersion g l = Inr v \<Longrightarrow> version_wf v"
  "CompleteVersionFromBytes b = Inr v \<Longrightarrow> version_wf v"
  "completeVersionFromBytesUnchecked b = Inr v \<Longrightarrow> version_wf v"
  "IncompleteVersion l = Inr v \<Longrightarrow> version_wf v"
  "version_wf MinVersion" "version_wf MaxVersion" "version_wf (FirstInDBVersion x)" "version_wf (LastInDBVersion x)"
  "length (TransactionVersion vs) = 10 \<Longrightarrow> version_wf (FromVersionstamp vs)"
  by (auto simp: version_wf_def version_sizes NewCompleteVersion_def CompleteVersionFromBytes_def
    completeVersionFromBytesUnchecked_def IncompleteVersion_def MinVersion_def MaxVersion_def
    FirstInDBVersion_def LastInDBVersion_def FromVersionstamp_def Let_def isGlobalVersionComplete_iff split: if_splits)

lemma wf_split:
  assumes "version_wf v"
  shows "versionRaw v = take 10 (versionRaw v) @ be_bytes 2 (nat (version_GetLocalVersion v))"
    and "0 \<le> version_GetLocalVersion v" and "version_GetLocalVersion v < 65536"
proof -
  have len: "length (drop 10 (versionRaw v)) = 2" using assms by (simp add: version_wf_def version_sizes)
  show "versionRaw v = take 10 (versionRaw v) @ be_bytes 2 (nat (version_GetLocalVersion v))"
    using be_bytes_be_val [of "drop 10 (versionRaw v)"] len
    by (simp add: version_GetLocalVersion_def version_sizes)
  show "0 \<le> version_GetLocalVersion v" by (simp add: version_GetLocalVersion_def)
  show "version_GetLocalVersion v < 65536"
    using be_val_lt [of "drop 10 (versionRaw v)"] len by (simp add: version_GetLocalVersion_def version_sizes)
qed

lemma wf_value: "version_wf v \<Longrightarrow>
  be_val (versionRaw v) = be_val (take 10 (versionRaw v)) * 65536 + nat (version_GetLocalVersion v)"
  using be_val_append [of "take 10 (versionRaw v)" "drop 10 (versionRaw v)"]
  by (simp add: version_wf_def version_GetLocalVersion_def version_sizes)

section \<open>Versions as numbers\<close>

lemma be_val_take_Suc: "i < length b \<Longrightarrow> be_val (take (Suc i) b) = be_val (take i b) * 256 + unat (b ! i)"
  by (simp add: take_Suc_conv_app_nth be_val_append be_val_Cons)

lemma byte_max: "unat (x :: byte) = 255 \<longleftrightarrow> x = 0xFF"
  by (simp add: word_unat_eq_iff)

lemma nextLoop_val:
  "i \<le> length raw \<Longrightarrow> nextLoop raw i = (r, s) \<Longrightarrow>
     length r = length raw \<and> drop i r = drop i raw \<and> (s \<longleftrightarrow> be_val (take i raw) + 1 < 256 ^ i) \<and>
     be_val (take i r) = (be_val (take i raw) + 1) mod 256 ^ i"
proof (induction raw i arbitrary: r s rule: nextLoop.induct)
  case (2 raw i)
  let ?n = "be_val (take i raw)"
  have i: "i < length raw" using 2(2) by simp
  have n: "?n < 256 ^ i" using be_val_lt [of "take i raw"] i by simp
  show ?case
  proof (cases "raw ! i = 0xFF")
    case True
    with 2(3) have "nextLoop (raw[i := 0]) i = (r, s)" by simp
    from 2(1) [OF True _ this] i have len: "length r = length raw" and dr: "drop i r = drop i (raw[i := 0])"
      and s: "s \<longleftrightarrow> ?n + 1 < 256 ^ i" and val: "be_val (take i r) = (?n + 1) mod 256 ^ i" by simp_all
    have "r ! i = 0" using dr i len by (metis hd_drop_conv_nth nth_list_update_eq length_list_update)
    moreover have "drop (Suc i) r = drop (Suc i) raw"
      using arg_cong [OF dr, of "drop 1"] i by simp
    moreover have "(?n + 1) mod 256 ^ i * 256 = (?n * 256 + 255 + 1) mod 256 ^ Suc i"
      using mult_mod_right [of 256 "?n + 1" "256 ^ i"] by (simp add: algebra_simps)
    moreover have "?n + 1 < 256 ^ i \<longleftrightarrow> 256 + ?n * 256 < 256 * 256 ^ i"
      using mult_less_cancel1 [of 256 "?n + 1" "256 ^ i"] by (simp add: algebra_simps)
    ultimately show ?thesis using len s val i True by (simp add: be_val_take_Suc)
  next
    case False
    with 2(3) have r: "r = raw[i := raw ! i + 1]" "s" by auto
    have u: "unat (raw ! i) < 255" using False unat_byte_lt [of "raw ! i"] byte_max [of "raw ! i"] by linarith
    then have "unat (raw ! i + 1) = unat (raw ! i) + 1" by (simp add: unat_word_ariths)
    moreover have "?n * 256 + unat (raw ! i) + 1 < 256 ^ Suc i" using n u by simp
    ultimately show ?thesis using r i by (simp add: be_val_take_Suc)
  qed
qed auto

lemma wrap_pred: "0 < n \<Longrightarrow> n < m \<Longrightarrow> (n + m - 1) mod m = n - (1 :: nat)"
proof -
  assume "0 < n" "n < m"
  then have "n + m - 1 = (n - 1) + m" "n - 1 < m" by simp_all
  then show "(n + m - 1) mod m = n - 1" by (simp only: mod_add_self2 mod_less)
qed

lemma prevLoop_val:
  "i \<le> length raw \<Longrightarrow> prevLoop raw i = (r, s) \<Longrightarrow>
     length r = length raw \<and> drop i r = drop i raw \<and> (s \<longleftrightarrow> 0 < be_val (take i raw)) \<and>
     be_val (take i r) = (be_val (take i raw) + 256 ^ i - 1) mod 256 ^ i"
proof (induction raw i arbitrary: r s rule: prevLoop.induct)
  case (2 raw i)
  let ?n = "be_val (take i raw)"
  have i: "i < length raw" using 2(2) by simp
  have n: "?n < 256 ^ i" using be_val_lt [of "take i raw"] i by simp
  show ?case
  proof (cases "raw ! i = 0")
    case True
    with 2(3) have "prevLoop (raw[i := 0xFF]) i = (r, s)" by simp
    from 2(1) [OF True _ this] i have len: "length r = length raw" and dr: "drop i r = drop i (raw[i := 0xFF])"
      and s: "s \<longleftrightarrow> 0 < ?n" and val: "be_val (take i r) = (?n + 256 ^ i - 1) mod 256 ^ i" by simp_all
    have "r ! i = 0xFF" using dr i len by (metis hd_drop_conv_nth nth_list_update_eq length_list_update)
    moreover have "drop (Suc i) r = drop (Suc i) raw"
      using arg_cong [OF dr, of "drop 1"] i by simp
    moreover have "(?n + 256 ^ i - 1) mod 256 ^ i * 256 + 255 = (?n * 256 + 256 ^ Suc i - 1) mod 256 ^ Suc i"
    proof (cases "?n = 0")
      case False
      then show ?thesis using n wrap_pred [of ?n "256 ^ i"] wrap_pred [of "?n * 256" "256 ^ Suc i"] by simp
    qed (use n in \<open>simp add: diff_mult_distrib\<close>)
    ultimately show ?thesis using len s val i True by (simp add: be_val_take_Suc)
  next
    case False
    with 2(3) have r: "r = raw[i := raw ! i - 1]" "s" by auto
    have u: "0 < unat (raw ! i)" using False by (simp add: unat_gt_0)
    have m: "unat (raw ! i - 1) = unat (raw ! i) - 1" using False by (rule unat_minus_one)
    have "?n * 256 + unat (raw ! i) < 256 ^ Suc i" using n unat_byte_lt [of "raw ! i"] by (simp del: unat_byte_lt)
    then show ?thesis using r i u m wrap_pred [of "?n * 256 + unat (raw ! i)" "256 ^ Suc i"] by (simp add: be_val_take_Suc)
  qed
qed auto

lemma loops_val:
  assumes "length raw = 12"
  shows "\<exists>r s. nextLoop raw 12 = (r, s) \<and> length r = 12 \<and> (s \<longleftrightarrow> be_val raw + 1 < 256 ^ 12) \<and>
      be_val r = (be_val raw + 1) mod 256 ^ 12"
    and "\<exists>r s. prevLoop raw 12 = (r, s) \<and> length r = 12 \<and> (s \<longleftrightarrow> 0 < be_val raw) \<and>
      be_val r = (be_val raw + 256 ^ 12 - 1) mod 256 ^ 12"
proof -
  obtain r s where n: "nextLoop raw 12 = (r, s)" by force
  then show "\<exists>r s. nextLoop raw 12 = (r, s) \<and> length r = 12 \<and> (s \<longleftrightarrow> be_val raw + 1 < 256 ^ 12) \<and>
      be_val r = (be_val raw + 1) mod 256 ^ 12"
    using nextLoop_val [OF _ n] assms by (intro exI [of _ r] exI [of _ s]) auto
  obtain r s where p: "prevLoop raw 12 = (r, s)" by force
  then show "\<exists>r s. prevLoop raw 12 = (r, s) \<and> length r = 12 \<and> (s \<longleftrightarrow> 0 < be_val raw) \<and>
      be_val r = (be_val raw + 256 ^ 12 - 1) mod 256 ^ 12"
    using prevLoop_val [OF _ p] assms by (intro exI [of _ r] exI [of _ s]) auto
qed

text \<open>The greatest global version is the marker.\<close>

lemma be_val_replicate_FF: "be_val (replicate n 0xFF) = 256 ^ n - 1"
proof (induction n)
  case (Suc n)
  have "(1 :: nat) \<le> 256 ^ n" by simp
  with Suc show ?case by (simp add: be_val_Cons)
qed simp

lemma marker_val: "be_val incompleteGlobalVersionMarker = 256 ^ 10 - 1"
  by (simp only: incompleteGlobalVersionMarker_def be_val_replicate_FF)

lemma global_marker_iff:
  assumes "length r = 12"
  shows "take 10 r = incompleteGlobalVersionMarker \<longleftrightarrow> (256 ^ 10 - 1) * 65536 \<le> be_val r"
proof -
  have "be_val r = be_val (take 10 r) * 65536 + be_val (drop 10 r)"
    using be_val_append [of "take 10 r" "drop 10 r"] assms by simp
  moreover have "be_val (take 10 r) < 256 ^ 10" "be_val (drop 10 r) < 65536"
    using be_val_lt [of "take 10 r"] be_val_lt [of "drop 10 r"] assms by simp_all
  moreover have "take 10 r = incompleteGlobalVersionMarker \<longleftrightarrow> be_val (take 10 r) = 256 ^ 10 - 1"
    using be_val_inject [of "take 10 r" incompleteGlobalVersionMarker] assms by (simp add: marker_val)
  ultimately show ?thesis by linarith
qed

lemma MaxVersion_val: "be_val (versionRaw MaxVersion) = (256 ^ 10 - 1) * 65536 - 1"
  using be_val_append [of "replicate 9 0xFF" "[0xFE, 0xFF, 0xFF]"]
  by (simp add: MaxVersion_def be_val_Cons be_val_replicate_FF)

text \<open>\<^verbatim>\<open>Next\<close> and \<^verbatim>\<open>Prev\<close> add one to and subtract one from the number that the twelve bytes write.\<close>

lemma Next_val:
  assumes "version_wf v" and "Next v = Inr w"
  shows "version_wf w \<and> versionComplete w = versionComplete v \<and>
    be_val (versionRaw w) = be_val (versionRaw v) + 1"
proof (cases "versionComplete v")
  case True
  have "length (versionRaw v) = 12" using assms(1) by (simp add: version_wf_def version_sizes)
  from loops_val(1) [OF this] True assms(2) show ?thesis
    by (auto simp: Next_def version_wf_def version_sizes split: if_splits)
next
  case False
  let ?l = "version_GetLocalVersion v"
  have w: "w = \<lparr>versionRaw = take 10 (versionRaw v) @ be_bytes 2 (nat (?l + 1)), versionComplete = False\<rparr>"
    and l: "?l < 65535"
    using False assms(2) by (auto simp: Next_def Let_def withLocal_def version_sizes split: if_splits)
  have "nat (?l + 1) = nat ?l + 1" "nat ?l + 1 < 65536" using wf_split(2) [OF assms(1)] l by auto
  then show ?thesis using assms(1) False w wf_value [OF assms(1)]
    by (simp add: version_wf_def version_sizes be_val_append be_val_be_bytes)
qed

lemma Next_fails:
  assumes "version_wf v"
  shows "(\<exists>e. Next v = Inl e) \<longleftrightarrow>
    (if versionComplete v then (256 ^ 10 - 1) * 65536 \<le> be_val (versionRaw v) + 1
     else version_GetLocalVersion v = 65535)"
proof (cases "versionComplete v")
  case True
  have "length (versionRaw v) = 12" using assms(1) by (simp add: version_wf_def version_sizes)
  from loops_val(1) [OF this] obtain r s where r: "nextLoop (versionRaw v) 12 = (r, s)" "length r = 12"
    "s \<longleftrightarrow> be_val (versionRaw v) + 1 < 256 ^ 12" "be_val r = (be_val (versionRaw v) + 1) mod 256 ^ 12" by blast
  have "(\<exists>e. Next v = Inl e) \<longleftrightarrow> \<not> s \<or> (256 ^ 10 - 1) * 65536 \<le> be_val r"
    using True r global_marker_iff [OF r(2)] by (simp add: Next_def version_sizes isGlobalVersionComplete_iff)
  also have "\<dots> \<longleftrightarrow> (256 ^ 10 - 1) * 65536 \<le> be_val (versionRaw v) + 1" using r(3,4) by auto
  finally show ?thesis using True by simp
next
  case False
  then show ?thesis using wf_split(3) [OF assms] by (auto simp: Next_def Let_def)
qed

lemma Prev_val:
  assumes "version_wf w" and "version_wf v" and "versionComplete w = versionComplete v"
    and "be_val (versionRaw w) = be_val (versionRaw v) + 1"
  shows "Prev w = Inr v"
proof (cases "versionComplete v")
  case True
  have len: "length (versionRaw w) = 12" "length (versionRaw v) = 12"
    using assms(1,2) by (simp_all add: version_wf_def version_sizes)
  from loops_val(2) [OF len(1)] obtain r s where r: "prevLoop (versionRaw w) 12 = (r, s)" "length r = 12" "s"
    "be_val r = (be_val (versionRaw w) + 256 ^ 12 - 1) mod 256 ^ 12" using assms(4) by auto
  have "be_val (versionRaw v) < 256 ^ 12" using be_val_lt [of "versionRaw v"] len by simp
  then have "be_val r = be_val (versionRaw v)" using r(4) assms(4) by simp
  then have "r = versionRaw v" using be_val_inject r(2) len(2) by metis
  then show ?thesis using True r assms(3) by (simp add: Prev_def version_sizes)
next
  case False
  have g: "take 10 (versionRaw w) = take 10 (versionRaw v)"
    using assms(1-3) False by (simp add: version_wf_def version_sizes)
  have l: "version_GetLocalVersion w = version_GetLocalVersion v + 1"
    using assms(4) wf_value [OF assms(1)] wf_value [OF assms(2)] wf_split(2) [OF assms(1)]
      wf_split(2) [OF assms(2)] g by simp
  have "versionRaw v = take 10 (versionRaw w) @ be_bytes 2 (nat (version_GetLocalVersion v))"
    using wf_split(1) [OF assms(2)] g by simp
  with False assms(3) l wf_split(2) [OF assms(2)] show ?thesis
    by (simp add: Prev_def withLocal_def version_sizes)
qed

lemma Less_val:
  assumes "version_wf v" and "version_wf w" and "versionComplete v = versionComplete w"
  shows "version_Less (Some v) (Some w) \<longleftrightarrow> be_val (versionRaw v) < be_val (versionRaw w)"
  using assms be_val_less_iff [of "versionRaw v" "versionRaw w"] by (simp add: version_Less_def version_wf_def)

section \<open>Stored versions\<close>

lemma word16_local: "version_wf v \<Longrightarrow> uint (word_of_int (version_GetLocalVersion v) :: 16 word) = version_GetLocalVersion v"
  using wf_split(2,3) [of v] by (simp add: uint_word_of_int)

lemma unat_local: "version_wf v \<Longrightarrow> unat (word_of_int (version_GetLocalVersion v) :: 16 word) = nat (version_GetLocalVersion v)"
  using word16_local [of v] by (simp add: unat_eq_nat_uint)

lemma fastUnpack_code: "tuple_wf t \<Longrightarrow> packable t \<Longrightarrow> fastUnpack (tuple_code False t) = Inr (map norm_elem t)"
  using fastUnpack_value [of "tuple_code False t"] Unpack_code [of t] by simp

text \<open>A complete version other than one with the marker, packed and read back.\<close>

lemma packVersion_code:
  assumes "version_wf v" and "versionComplete v" and "take 10 (versionRaw v) \<noteq> incompleteGlobalVersionMarker"
  shows "packVersion v = Inr (versionstampCode # versionRaw v)"
proof -
  let ?vs = "\<lparr>TransactionVersion = take 10 (versionRaw v), UserVersion = word_of_int (version_GetLocalVersion v)\<rparr>"
  have "Pack [EVersionstamp ?vs] = Inr (versionstampCode # versionRaw v)"
    using wf_split(1) [OF assms(1)] assms(3)
    by (simp add: Pack_code marker_eq versionstampBytes_def unat_local assms(1))
  then show ?thesis using assms(2) by (simp add: packVersion_def GetGlobalVersion_def version_sizes)
qed

lemma unpackVersion_code:
  assumes "version_wf v" and "versionComplete v" and "take 10 (versionRaw v) \<noteq> incompleteGlobalVersionMarker"
  shows "unpackVersion (versionstampCode # versionRaw v) = Inr v"
proof -
  let ?vs = "\<lparr>TransactionVersion = take 10 (versionRaw v), UserVersion = word_of_int (version_GetLocalVersion v)\<rparr>"
  have len: "length (take 10 (versionRaw v)) = 10" using assms(1) by (simp add: version_wf_def version_sizes)
  have code: "versionstampCode # versionRaw v = tuple_code False [EVersionstamp ?vs]"
    using wf_split(1) [OF assms(1)] by (simp add: versionstampBytes_def unat_local assms(1))
  have "fastUnpack (versionstampCode # versionRaw v) = Inr [EVersionstamp ?vs]"
    unfolding code by (subst fastUnpack_code) (use assms(3) len in \<open>simp_all add: marker_eq\<close>)
  moreover have "NewCompleteVersion (take 10 (versionRaw v)) (version_GetLocalVersion v) = Inr v"
    using assms len wf_split [OF assms(1)]
    by (simp add: NewCompleteVersion_def isGlobalVersionComplete_iff version_sizes)
  ultimately show ?thesis using len assms(3)
    by (simp add: unpackVersion_def isGlobalVersionComplete_iff word16_local assms(1))
qed

lemma packVersion_Inr:
  assumes "version_wf v" and "packVersion v = Inr b"
  shows "versionComplete v" and "take 10 (versionRaw v) \<noteq> incompleteGlobalVersionMarker"
    and "b = versionstampCode # versionRaw v"
proof -
  show c: "versionComplete v" using assms(2) by (auto simp: packVersion_def GetGlobalVersion_def split: if_splits)
  show m: "take 10 (versionRaw v) \<noteq> incompleteGlobalVersionMarker"
    using assms(2) by (auto simp: packVersion_def GetGlobalVersion_def version_sizes Pack_def marker_eq split: if_splits)
  show "b = versionstampCode # versionRaw v" using packVersion_code [OF assms(1) c m] assms(2) by simp
qed

lemma offset_one: "le_bytes 4 (Suc 0) = [1, 0, 0, 0]"
  by code_simp

text \<open>The versionstamped value of an incomplete version: the stamp goes to offset one.\<close>

lemma buildVersionstampedValue_code:
  assumes "version_wf v" and "\<not> versionComplete v" and "520 \<le> api"
  shows "buildVersionstampedValue (Some api) v = Inr (versionstampCode # versionRaw v @ [1, 0, 0, 0])"
  using assms wf_split(1) [OF assms(1)]
  by (simp add: buildVersionstampedValue_def PackWithVersionstamp_def HasIncompleteVersionstamp_def marker_eq
    encodeVersionstamp_def newPacker_def putByte_def putBytes_def versionstampBytes_def unat_local version_wf_def version_sizes offset_one)

lemma sim_stamp [simp]:
  "length (versionstampBytes_sim cv 0) = 10" "versionstampBytes_sim cv 0 \<noteq> incompleteGlobalVersionMarker"
proof -
  have "drop 8 (versionstampBytes_sim cv 0) \<noteq> drop 8 incompleteGlobalVersionMarker"
    by (simp add: versionstampBytes_sim_def incompleteGlobalVersionMarker_def drop_replicate) code_simp
  then show "versionstampBytes_sim cv 0 \<noteq> incompleteGlobalVersionMarker" by metis
qed (simp add: versionstampBytes_sim_def)

lemma stamp_placed:
  "length pre = le_val off \<Longrightarrow> length g = length stamp \<Longrightarrow> length off = 4 \<Longrightarrow>
     stampVersionstamp (pre @ g @ l @ off) stamp = Some (pre @ stamp @ l)"
  by (simp add: stampVersionstamp_def Let_def)

text \<open>A complete version made from an incomplete one.\<close>

definition completed :: "FDBRecordVersion \<Rightarrow> bytes \<Rightarrow> FDBRecordVersion" where
  "completed v stamp =
     \<lparr>versionRaw = stamp @ be_bytes 2 (nat (version_GetLocalVersion v)), versionComplete = True\<rparr>"

lemma completed_simps [simp]:
  "versionComplete (completed v stamp)" "length stamp = 10 \<Longrightarrow> version_wf (completed v stamp)"
  "length stamp = 10 \<Longrightarrow> take 10 (versionRaw (completed v stamp)) = stamp"
  by (simp_all add: completed_def version_wf_def version_sizes)

lemma WithCommittedVersion_iff:
  "WithCommittedVersion v stamp = Inr w \<longleftrightarrow> \<not> versionComplete v \<and> length stamp = 10 \<and> w = completed v stamp"
  by (auto simp: WithCommittedVersion_def completed_def version_sizes)

lemma completed_stored:
  assumes "version_wf v" and "\<not> versionComplete v" and "length stamp = 10" and "length off = 4"
    and "length pre = le_val off"
  shows "stampVersionstamp (pre @ versionRaw v @ off) stamp = Some (pre @ versionRaw (completed v stamp))"
proof -
  have "versionRaw v = incompleteGlobalVersionMarker @ be_bytes 2 (nat (version_GetLocalVersion v))"
    using wf_split(1) [OF assms(1)] assms(1,2) by (simp add: version_wf_def version_sizes)
  then show ?thesis using stamp_placed [of pre off incompleteGlobalVersionMarker stamp] assms
    by (simp add: completed_def)
qed

lemma completed_val:
  assumes "version_wf v" and "0 \<le> cv" and "cv < 2 ^ 64"
  shows "be_val (versionRaw (completed v (versionstampBytes_sim cv 0))) =
    nat cv * 2 ^ 32 + nat (version_GetLocalVersion v)"
proof -
  have "be_val (be_bytes 8 (nat cv)) = nat cv" "be_val (be_bytes 2 (nat (version_GetLocalVersion v))) = nat (version_GetLocalVersion v)"
    using assms wf_split(2,3) [OF assms(1)] by (simp_all add: be_val_be_bytes nat_less_iff)
  then show ?thesis using assms by (simp add: completed_def versionstampBytes_sim_def be_val_append be_val_be_bytes)
qed

section \<open>Properties\<close>

text \<open>
  (C24) \<^verbatim>\<open>Next\<close> gives the successor.  For a well-formed version it returns a well-formed version of the same
  completeness that is greater, has no version in between and is taken back by \<^verbatim>\<open>Prev\<close>; it fails exactly
  from the maximum version on, for an incomplete version exactly at local version 65535.
\<close>

theorem Next_successor:
  assumes "version_wf v"
  shows "case Next v of
      Inl e \<Rightarrow> if IsComplete v then \<not> version_Less (Some v) (Some MaxVersion) else version_GetLocalVersion v = 65535
    | Inr w \<Rightarrow> version_wf w \<and> IsComplete w = IsComplete v \<and> version_Less (Some v) (Some w) \<and> Prev w = Inr v \<and>
        (if IsComplete v then version_Less (Some v) (Some MaxVersion) else version_GetLocalVersion v < 65535) \<and>
        (\<forall>u. version_wf u \<and> IsComplete u = IsComplete v \<longrightarrow>
           \<not> (version_Less (Some v) (Some u) \<and> version_Less (Some u) (Some w)))"
proof -
  have max: "version_Less (Some v) (Some MaxVersion) \<longleftrightarrow> be_val (versionRaw v) + 1 < (256 ^ 10 - 1) * 65536"
    if "versionComplete v"
    using Less_val [OF assms constructors_wf(6)] that MaxVersion_val by (auto simp: MaxVersion_def)
  show ?thesis
  proof (cases "Next v")
    case (Inl e)
    then show ?thesis using Next_fails [OF assms] max by (auto simp: IsComplete_def split: if_splits)
  next
    case (Inr w)
    have w: "version_wf w" "versionComplete w = versionComplete v"
      "be_val (versionRaw w) = be_val (versionRaw v) + 1" using Next_val [OF assms Inr] by auto
    have "\<not> (\<exists>e. Next v = Inl e)" using Inr by simp
    then have ok: "if IsComplete v then version_Less (Some v) (Some MaxVersion) else version_GetLocalVersion v < 65535"
      using Next_fails [OF assms] max wf_split(3) [OF assms] by (auto simp: IsComplete_def split: if_splits)
    have gap: "\<not> (version_Less (Some v) (Some u) \<and> version_Less (Some u) (Some w))"
      if "version_wf u" "IsComplete u = IsComplete v" for u
      using Less_val [OF assms that(1)] Less_val [OF that(1) w(1)] that(2) w(2,3) by (auto simp: IsComplete_def)
    show ?thesis using Inr w ok gap Prev_val [OF w(1) assms w(2,3)] Less_val [OF assms w(1)]
      by (simp add: IsComplete_def)
  qed
qed

theorem Next_successor_witness:
  "Prev \<lparr>versionRaw = replicate 10 0 @ [1, 0], versionComplete = True\<rparr> =
     Inr \<lparr>versionRaw = replicate 10 0 @ [0, 0xFF], versionComplete = True\<rparr>"
proof -
  have "version_wf \<lparr>versionRaw = replicate 10 0 @ [0, 0xFF], versionComplete = True\<rparr>"
    by (simp add: version_wf_def version_sizes)
  moreover have "Next \<lparr>versionRaw = replicate 10 0 @ [0, 0xFF], versionComplete = True\<rparr> =
      Inr \<lparr>versionRaw = replicate 10 0 @ [1, 0], versionComplete = True\<rparr>" by code_simp
  ultimately show ?thesis using Next_successor [of "\<lparr>versionRaw = replicate 10 0 @ [0, 0xFF], versionComplete = True\<rparr>"]
    by simp
qed

text \<open>
  Versions survive the commit.  An incomplete version is queued as a versionstamped value; the value
  that the simulated database stores when it commits at version \<open>cv\<close> is the packing of the version that
  \<^verbatim>\<open>WithCommittedVersion\<close> computes from the stamp, and reading the value gives that version, in the inline
  format and in the old one.  The versions of two commits compare as the commit versions do, within one
  commit as the local versions, and so do the stored values.
\<close>

lemma version_committed:
  assumes "version_wf v" and "\<not> IsComplete v" and "buildVersionstampedValue (Some api) v = Inr b" and "520 \<le> api"
    and "version_wf u" and "\<not> IsComplete u" and "0 \<le> cv" "cv < 2 ^ 63" and "0 \<le> cv'" "cv' < 2 ^ 63"
  shows "\<exists>w x w' x'. WithCommittedVersion v (versionstampBytes_sim cv 0) = Inr w \<and>
    stampVersionstamp b (versionstampBytes_sim cv 0) = Some x \<and>
    packVersion w = Inr x \<and> decodeLoadedVersionValue (Some x) False = Inr (Some w) \<and>
    stampVersionstamp (buildOldFormatVersionstampedValue v) (versionstampBytes_sim cv 0) = Some (version_ToBytes w) \<and>
    decodeLoadedVersionValue (Some (version_ToBytes w)) True = Inr (Some w) \<and>
    WithCommittedVersion u (versionstampBytes_sim cv' 0) = Inr w' \<and> packVersion w' = Inr x' \<and>
    (version_Less (Some w) (Some w') \<longleftrightarrow>
       cv < cv' \<or> cv = cv' \<and> version_GetLocalVersion v < version_GetLocalVersion u) \<and>
    (x < x' \<longleftrightarrow> version_Less (Some w) (Some w'))"
proof -
  let ?s = "versionstampBytes_sim cv 0" and ?s' = "versionstampBytes_sim cv' 0"
  let ?w = "completed v ?s" and ?w' = "completed u ?s'"
  have b: "b = versionstampCode # versionRaw v @ [1, 0, 0, 0]"
    using buildVersionstampedValue_code [OF assms(1) _ assms(4)] assms(2,3) by (simp add: IsComplete_def)
  have x: "stampVersionstamp b ?s = Some (versionstampCode # versionRaw ?w)"
    using completed_stored [OF assms(1), of ?s "[1, 0, 0, 0]" "[versionstampCode]"] assms(2) b
    by (simp add: IsComplete_def)
  have old: "stampVersionstamp (buildOldFormatVersionstampedValue v) ?s = Some (version_ToBytes ?w)"
    using completed_stored [OF assms(1), of ?s "[0, 0, 0, 0]" "[]"] assms(2)
    by (simp add: IsComplete_def buildOldFormatVersionstampedValue_def version_ToBytes_def)
  have less: "version_Less (Some ?w) (Some ?w') \<longleftrightarrow>
      cv < cv' \<or> cv = cv' \<and> version_GetLocalVersion v < version_GetLocalVersion u"
    using Less_val [of ?w ?w'] completed_val [OF assms(1), of cv] completed_val [OF assms(5), of cv'] assms(7-10)
      wf_split(2,3) [OF assms(1)] wf_split(2,3) [OF assms(5)]
    by (simp add: nat_less_iff) linarith
  have dec: "decodeLoadedVersionValue (Some (versionstampCode # versionRaw ?w)) False = Inr (Some ?w)"
    "decodeLoadedVersionValue (Some (version_ToBytes ?w)) True = Inr (Some ?w)"
    using unpackVersion_code [of ?w] completed_simps(2) [of ?s v]
    by (simp_all add: decodeLoadedVersionValue_def completeVersionFromBytesUnchecked_def version_ToBytes_def
      version_wf_def)
  have stored: "versionstampCode # versionRaw ?w < versionstampCode # versionRaw ?w' \<longleftrightarrow> version_Less (Some ?w) (Some ?w')"
    by (simp add: version_Less_def)
  have pack: "packVersion ?w = Inr (versionstampCode # versionRaw ?w)" "packVersion ?w' = Inr (versionstampCode # versionRaw ?w')"
    by (simp_all add: packVersion_code)
  have "WithCommittedVersion v ?s = Inr ?w" "WithCommittedVersion u ?s' = Inr ?w'"
    using assms(2,6) by (simp_all add: IsComplete_def WithCommittedVersion_iff)
  with x old less dec stored pack show ?thesis by blast
qed

lemma version_committed_example:
  "\<exists>w x. WithCommittedVersion \<lparr>versionRaw = replicate 10 0xFF @ [0, 7], versionComplete = False\<rparr>
        (versionstampBytes_sim 5 0) = Inr w \<and>
    stampVersionstamp (0x33 # replicate 10 0xFF @ [0, 7, 1, 0, 0, 0]) (versionstampBytes_sim 5 0) = Some x \<and>
    packVersion w = Inr x"
proof -
  let ?v = "\<lparr>versionRaw = replicate 10 0xFF @ [0, 7], versionComplete = False\<rparr>"
  have "version_wf ?v" by (simp add: version_wf_def version_sizes incompleteGlobalVersionMarker_def)
  moreover have "buildVersionstampedValue (Some 730) ?v = Inr (0x33 # replicate 10 0xFF @ [0, 7, 1, 0, 0, 0])"
    by code_simp
  ultimately show ?thesis using version_committed [of ?v 730 _ ?v 5 6] by (fastforce simp: IsComplete_def)
qed

end
