(* ===== verification/RecordContext.thy ===== *)
theory RecordContext
  imports RecordVersion KVTransaction
begin

text \<open>
  The version bookkeeping of a record context (\<^verbatim>\<open>FDBRecordContext\<close> in \<^verbatim>\<open>pkg/recordlayer/database.go\<close>) and the
  operations of a record store on the versions of its records (\<^verbatim>\<open>store_version.go\<close>).  Incomplete versions
  are cached and queued in the context and reach the transaction when the context is committed.
\<close>

section \<open>The context\<close>

datatype VersionMutationType = MutationTypeSetVersionstampedValue | MutationTypeSetVersionstampedKey

record versionMutation =
  mutationType :: VersionMutationType
  mutationValue :: "bytes option"

text \<open>The fields of the context that the operations below use; the maps have unique keys.\<close>

record FDBRecordContext =
  localVersion :: "32 word"
  localVersionCache :: "(bytes \<times> int) list"
  versionMutations :: "(bytes \<times> versionMutation) list"

definition newRecordContext :: FDBRecordContext where
  "newRecordContext = \<lparr>localVersion = 0, localVersionCache = [], versionMutations = []\<rparr>"

definition ClaimLocalVersion :: "FDBRecordContext \<Rightarrow> FDBRecordContext \<times> int" where
  "ClaimLocalVersion rc =
     (let n = localVersion rc + 1 in (rc\<lparr>localVersion := n\<rparr>, sint (n - 1)))"

definition AddToLocalVersionCache :: "FDBRecordContext \<Rightarrow> bytes \<Rightarrow> int \<Rightarrow> FDBRecordContext" where
  "AddToLocalVersionCache rc versionKey local =
     rc\<lparr>localVersionCache := AList.update versionKey local (localVersionCache rc)\<rparr>"

definition context_GetLocalVersion :: "FDBRecordContext \<Rightarrow> bytes \<Rightarrow> int option" where
  "context_GetLocalVersion rc versionKey = map_of (localVersionCache rc) versionKey"

definition RemoveLocalVersion :: "FDBRecordContext \<Rightarrow> bytes \<Rightarrow> FDBRecordContext" where
  "RemoveLocalVersion rc versionKey =
     rc\<lparr>localVersionCache := AList.delete versionKey (localVersionCache rc)\<rparr>"

text \<open>The previous value is never nil where one existed.\<close>

definition AddVersionMutation ::
  "FDBRecordContext \<Rightarrow> VersionMutationType \<Rightarrow> bytes \<Rightarrow> bytes option \<Rightarrow> FDBRecordContext \<times> bytes option" where
  "AddVersionMutation rc typ versionKey val =
     (rc\<lparr>versionMutations :=
           AList.update versionKey \<lparr>mutationType = typ, mutationValue = val\<rparr> (versionMutations rc)\<rparr>,
      case map_of (versionMutations rc) versionKey of
        None \<Rightarrow> None
      | Some previous \<Rightarrow> (case mutationValue previous of None \<Rightarrow> Some [] | Some x \<Rightarrow> Some x))"

definition UpdateVersionMutation ::
  "FDBRecordContext \<Rightarrow> VersionMutationType \<Rightarrow> bytes \<Rightarrow> bytes option \<Rightarrow>
     (bytes option \<Rightarrow> bytes option \<Rightarrow> bytes option) option \<Rightarrow> FDBRecordContext" where
  "UpdateVersionMutation rc typ versionKey val merge =
     (case (map_of (versionMutations rc) versionKey, merge) of
        (Some existing, Some f) \<Rightarrow>
          rc\<lparr>versionMutations :=
               AList.update versionKey \<lparr>mutationType = typ, mutationValue = f (mutationValue existing) val\<rparr>
                 (versionMutations rc)\<rparr>
      | _ \<Rightarrow>
          rc\<lparr>versionMutations :=
               AList.update versionKey \<lparr>mutationType = typ, mutationValue = val\<rparr> (versionMutations rc)\<rparr>)"

definition RemoveVersionMutation :: "FDBRecordContext \<Rightarrow> bytes \<Rightarrow> FDBRecordContext" where
  "RemoveVersionMutation rc versionKey =
     rc\<lparr>versionMutations := AList.delete versionKey (versionMutations rc)\<rparr>"

definition RemoveVersionMutationsInRange :: "FDBRecordContext \<Rightarrow> bytes \<Rightarrow> bytes \<Rightarrow> FDBRecordContext" where
  "RemoveVersionMutationsInRange rc b e =
     rc\<lparr>versionMutations := filter (\<lambda>(k, m). \<not> (k \<ge> b \<and> k < e)) (versionMutations rc)\<rparr>"

definition HasVersionMutationsInRange :: "FDBRecordContext \<Rightarrow> bytes \<Rightarrow> bytes \<Rightarrow> bool" where
  "HasVersionMutationsInRange rc b e = list_ex (\<lambda>(k, m). k \<ge> b \<and> k < e) (versionMutations rc)"

definition RemoveLocalVersionsInRange :: "FDBRecordContext \<Rightarrow> bytes \<Rightarrow> bytes \<Rightarrow> FDBRecordContext" where
  "RemoveLocalVersionsInRange rc b e =
     rc\<lparr>localVersionCache := filter (\<lambda>(k, v). \<not> (k \<ge> b \<and> k < e)) (localVersionCache rc)\<rparr>"

definition HasVersionMutations :: "FDBRecordContext \<Rightarrow> bool" where
  "HasVersionMutations rc = (length (versionMutations rc) > 0)"

text \<open>One turn of the loop that applies the queue, and the loop in an order \<^verbatim>\<open>range\<close> may take the keys in.\<close>

definition flushMutation :: "'tx writableTransaction \<Rightarrow> 'tx \<Rightarrow> bytes \<Rightarrow> versionMutation \<Rightarrow> 'tx" where
  "flushMutation ops tx key mut =
     (case mutationType mut of
        MutationTypeSetVersionstampedKey \<Rightarrow> opSetVersionstampedKey ops tx key (mutationValue mut)
      | MutationTypeSetVersionstampedValue \<Rightarrow> opSetVersionstampedValue ops tx key (mutationValue mut))"

definition flushVersionMutations ::
  "'tx writableTransaction \<Rightarrow> FDBRecordContext \<Rightarrow> bytes list \<Rightarrow> 'tx \<Rightarrow> 'tx" where
  "flushVersionMutations ops rc order tx =
     foldl (\<lambda>tx key. case map_of (versionMutations rc) key of
              None \<Rightarrow> tx | Some mut \<Rightarrow> flushMutation ops tx key mut) tx order"

section \<open>Versions of a record store\<close>

text \<open>The four behaviours; the code answers any other number with an error.\<close>

datatype VersionstampSaveBehavior =
    VersionstampSaveBehaviorDefault
  | VersionstampSaveBehaviorNoVersion
  | VersionstampSaveBehaviorWithVersion
  | VersionstampSaveBehaviorIfPresent

text \<open>
  What the methods read of a record store: its subspace, whether it keeps versions in the old format
  (\<^verbatim>\<open>useOldVersionFormat\<close>, from the store header) and whether its metadata assigns versions.
\<close>

record versionStore =
  vsSubspace :: subspace
  vsOldFormat :: bool
  vsStoreVersions :: bool

datatype saveVersionError =
    VersionWithNoVersion bytes
  | SaveVersionInvalid versionError
  | SaveVersionPack "versionError + pack_panic"
  | SaveVersionStamped pack_failure

definition recordVersionForSave ::
  "versionStore \<Rightarrow> FDBRecordContext \<Rightarrow> FDBRecordVersion option \<Rightarrow> VersionstampSaveBehavior \<Rightarrow>
     FDBRecordContext \<times> (saveVersionError, FDBRecordVersion option) result" where
  "recordVersionForSave st rc version behavior =
     (let assign = (\<lambda>want.
        if version = None \<and> want then
          (let (rc, local) = ClaimLocalVersion rc
           in (rc, case IncompleteVersion local of Inl e \<Rightarrow> Inl (SaveVersionInvalid e) | Inr v \<Rightarrow> Inr (Some v)))
        else (rc, Inr version))
      in case behavior of
           VersionstampSaveBehaviorNoVersion \<Rightarrow>
             (rc, case version of Some v \<Rightarrow> Inl (VersionWithNoVersion (version_ToBytes v)) | None \<Rightarrow> Inr None)
         | VersionstampSaveBehaviorIfPresent \<Rightarrow> (rc, Inr version)
         | VersionstampSaveBehaviorDefault \<Rightarrow> assign (vsStoreVersions st)
         | VersionstampSaveBehaviorWithVersion \<Rightarrow> assign True)"

text \<open>The storage metrics of a record (\<^verbatim>\<open>split_helper.go\<close>).\<close>

record sizeInfo =
  KeyCount :: nat
  KeySize :: nat
  ValueSize :: nat
  IsSplit :: bool
  VersionedInline :: bool

definition noSizes :: sizeInfo where
  "noSizes = \<lparr>KeyCount = 0, KeySize = 0, ValueSize = 0, IsSplit = False, VersionedInline = False\<rparr>"

definition countVersion :: "bytes \<Rightarrow> nat \<Rightarrow> sizeInfo \<Rightarrow> sizeInfo" where
  "countVersion versionKey n si =
     si\<lparr>VersionedInline := True, KeyCount := KeyCount si + 1, KeySize := KeySize si + length versionKey,
        ValueSize := ValueSize si + n\<rparr>"

definition saveVersionWithOldFormat ::
  "'tx writableTransaction \<Rightarrow> FDBRecordContext \<Rightarrow> 'tx \<Rightarrow> bytes \<Rightarrow> FDBRecordVersion \<Rightarrow> FDBRecordContext \<times> 'tx" where
  "saveVersionWithOldFormat ops rc tx versionKey version =
     (if IsComplete version then (rc, opSet ops tx versionKey (version_ToBytes version))
      else
        let rc = AddToLocalVersionCache rc versionKey (version_GetLocalVersion version);
            rc = fst (AddVersionMutation rc MutationTypeSetVersionstampedValue versionKey
                        (Some (buildOldFormatVersionstampedValue version)))
        in (rc, tx))"

definition saveRecordVersionAtKey ::
  "'tx writableTransaction \<Rightarrow> int option \<Rightarrow> versionStore \<Rightarrow> FDBRecordContext \<Rightarrow> 'tx \<Rightarrow> bytes \<Rightarrow> FDBRecordVersion \<Rightarrow>
     sizeInfo option \<Rightarrow> FDBRecordContext \<times> 'tx \<times> sizeInfo option \<times> saveVersionError option" where
  "saveRecordVersionAtKey ops apiVersion st rc tx versionKey version si =
     (if vsOldFormat st then
        let (rc, tx) = saveVersionWithOldFormat ops rc tx versionKey version in (rc, tx, si, None)
      else if IsComplete version then
        (case packVersion version of
           Inl e \<Rightarrow> (rc, tx, si, Some (SaveVersionPack e))
         | Inr stored \<Rightarrow>
             (rc, opSet ops tx versionKey stored, map_option (countVersion versionKey (length stored)) si, None))
      else
        let rc = AddToLocalVersionCache rc versionKey (version_GetLocalVersion version)
        in case buildVersionstampedValue apiVersion version of
             Inl e \<Rightarrow> (rc, tx, si, Some (SaveVersionStamped e))
           | Inr stored \<Rightarrow>
               (fst (AddVersionMutation rc MutationTypeSetVersionstampedValue versionKey (Some stored)), tx,
                map_option (countVersion versionKey (length stored - 4)) si, None))"

datatype loadVersionError = LoadVersionBackend int | LoadVersionDecode unpackVersionError

definition canLoadRecordVersion :: "versionStore \<Rightarrow> bool \<Rightarrow> bool" where
  "canLoadRecordVersion st oldFormat = (\<not> oldFormat \<or> vsStoreVersions st)"

text \<open>The read is sent when the load starts; the future is its result.\<close>

definition loadRecordVersionAtKey ::
  "'tx writableTransaction \<Rightarrow> versionStore \<Rightarrow> FDBRecordContext \<Rightarrow> 'tx \<Rightarrow> bytes \<Rightarrow> bool \<Rightarrow> bool \<Rightarrow>
     'tx \<times> (loadVersionError, FDBRecordVersion option) result" where
  "loadRecordVersionAtKey ops st rc tx versionKey snapshot oldFormat =
     (if \<not> canLoadRecordVersion st oldFormat then (tx, Inr None)
      else case context_GetLocalVersion rc versionKey of
        Some local \<Rightarrow>
          (tx, case IncompleteVersion local of
                 Inl e \<Rightarrow> Inl (LoadVersionDecode (BadVersion e)) | Inr v \<Rightarrow> Inr (Some v))
      | None \<Rightarrow>
          (case opGet ops tx versionKey snapshot of
             (tx, Inl e) \<Rightarrow> (tx, Inl (LoadVersionBackend e))
           | (tx, Inr val) \<Rightarrow>
               (tx, case decodeLoadedVersionValue val oldFormat of
                      Inl e \<Rightarrow> Inl (LoadVersionDecode e) | Inr v \<Rightarrow> Inr v)))"

abbreviation unsplitRecord :: "64 word" where "unsplitRecord \<equiv> 0"
abbreviation startSplitRecord :: "64 word" where "startSplitRecord \<equiv> 1"
abbreviation recordVersionSuffix :: "64 word" where "recordVersionSuffix \<equiv> -1"

text \<open>The small integers that name the parts of a store are untyped constants, of type \<^verbatim>\<open>int\<close> in a tuple.\<close>

abbreviation RecordKey :: tuple_element where "RecordKey \<equiv> EInt 1"
abbreviation RecordVersionKey :: tuple_element where "RecordVersionKey \<equiv> EInt 8"

definition store_versionKey :: "packer \<Rightarrow> versionStore \<Rightarrow> tuple \<Rightarrow> (pack_panic, bytes) result" where
  "store_versionKey pooled st primaryKey =
     (if vsOldFormat st then
        (case subspace_Sub (vsSubspace st) [RecordVersionKey] of
           Inl p \<Rightarrow> Inl p | Inr ss \<Rightarrow> subspace_Pack pooled ss primaryKey)
      else
        (case subspace_Sub (vsSubspace st) [RecordKey] of
           Inl p \<Rightarrow> Inl p
         | Inr recordsSubspace \<Rightarrow> subspace_Pack pooled recordsSubspace (primaryKey @ [EInt64 recordVersionSuffix])))"

definition LoadRecordVersion ::
  "'tx writableTransaction \<Rightarrow> packer \<Rightarrow> versionStore \<Rightarrow> FDBRecordContext \<Rightarrow> 'tx \<Rightarrow> tuple \<Rightarrow> bool \<Rightarrow>
     'tx \<times> (loadVersionError + pack_panic, FDBRecordVersion option) result" where
  "LoadRecordVersion ops pooled st rc tx primaryKey snapshot =
     (let oldFormat = vsOldFormat st
      in if \<not> canLoadRecordVersion st oldFormat then (tx, Inr None)
         else case store_versionKey pooled st primaryKey of
           Inl p \<Rightarrow> (tx, Inl (Inr p))
         | Inr key \<Rightarrow>
             (case loadRecordVersionAtKey ops st rc tx key snapshot oldFormat of
                (tx, Inl e) \<Rightarrow> (tx, Inl (Inl e))
              | (tx, Inr v) \<Rightarrow> (tx, Inr v)))"

end
