(* ===== verification/VersionCommit.thy ===== *)
theory VersionCommit
  imports RecordContext SimKV SimSerial
begin

text \<open>
  Record versions end to end: a version that is saved in a record context, queued, flushed into a simulated
  transaction and committed is what a later transaction loads, completed by the versionstamp of the commit.
\<close>

section \<open>Flushing into a simulated transaction\<close>

text \<open>The mutation that one queued value becomes.\<close>

definition stampedValue :: "bool \<Rightarrow> bytes \<Rightarrow> versionMutation \<Rightarrow> mutation" where
  "stampedValue noConflict key mut =
     (mutationOf mutVersionstampedValue key [] (mutationValue mut))\<lparr>mnoWriteConflict := noConflict\<rparr>"

lemma buffer_enqueue: "buffer (enqueue tx m) = buffer tx @ [m\<lparr>mnoWriteConflict := nextWriteNoConflict tx\<rparr>]"
  by (simp add: enqueue_def addWriteConflict_def Let_def)

lemma flushMutation_sim:
  assumes "mutationType mut = MutationTypeSetVersionstampedValue"
  shows "buffer (flushMutation (simOps db) tx key mut) =
    buffer tx @ [stampedValue (nextWriteNoConflict tx) key mut]"
  using assms
  by (cases "mutationValue mut") (simp_all add: flushMutation_def simOps_def SetVersionstampedValue_def buffer_enqueue
    markUnreadable_def stampedValue_def mutationOf_def cloneVal_def)

definition onlyValues :: "FDBRecordContext \<Rightarrow> bool" where
  "onlyValues rc \<longleftrightarrow> (\<forall>(k, mut) \<in> set (versionMutations rc). mutationType mut = MutationTypeSetVersionstampedValue)"

lemma onlyValues_map: "onlyValues rc \<Longrightarrow> map_of (versionMutations rc) k = Some mut \<Longrightarrow>
    mutationType mut = MutationTypeSetVersionstampedValue"
  using map_of_SomeD [of "versionMutations rc" k mut] by (auto simp: onlyValues_def)

text \<open>Keys that the flush does not name are not written by it.\<close>

lemma flush_others:
  assumes "onlyValues rc"
  shows "\<exists>ms. buffer (flushVersionMutations (simOps db) rc order tx) = buffer tx @ ms \<and>
    (\<forall>m \<in> set ms. mkind m = mutVersionstampedValue \<and> mkey m \<in> set order)"
proof (induction order arbitrary: tx)
  case Nil
  show ?case by (simp add: flushVersionMutations_def)
next
  case (Cons key order)
  show ?case
  proof (cases "map_of (versionMutations rc) key")
    case None
    with Cons [of tx] show ?thesis by (auto simp: flushVersionMutations_def)
  next
    case (Some mut)
    let ?tx = "flushMutation (simOps db) tx key mut"
    obtain ms where "buffer (flushVersionMutations (simOps db) rc order ?tx) = buffer ?tx @ ms"
      "\<forall>m \<in> set ms. mkind m = mutVersionstampedValue \<and> mkey m \<in> set order" using Cons [of ?tx] by blast
    with Some flushMutation_sim [OF onlyValues_map [OF assms Some], of db tx key] show ?thesis
      by (intro exI [of _ "stampedValue (nextWriteNoConflict tx) key mut # ms"])
        (auto simp: flushVersionMutations_def stampedValue_def mutationOf_def)
  qed
qed

lemma commitStep_others: "\<forall>m \<in> set ms. \<not> writesKey cv m k \<Longrightarrow> foldl (commitStep cv k) cur ms = cur"
  by (induction ms arbitrary: cur) (auto simp: commitStep_untouched)

text \<open>The queued value of a key, stamped, is what the commit stores under the key.\<close>

lemma flush_stored:
  assumes "onlyValues rc" and "map_of (versionMutations rc) key = Some mut" and "key \<in> set order" and "distinct order"
  shows "buffer (flushVersionMutations (simOps db) rc order tx) \<noteq> [] \<and>
    foldl (commitStep cv key) cur (buffer (flushVersionMutations (simOps db) rc order tx)) =
      stampVersionstamp (presentBytes (mutationValue mut)) (versionstampBytes_sim cv 0)"
proof -
  obtain l r where order: "order = l @ key # r" "key \<notin> set r"
    using assms(3,4) by (metis split_list_last)
  let ?tx = "flushVersionMutations (simOps db) rc l tx" and ?f = "flushVersionMutations (simOps db) rc"
  have f: "?f order tx = ?f r (flushMutation (simOps db) ?tx key mut)"
    using order assms(2) by (simp add: flushVersionMutations_def)
  obtain ms where ms: "buffer (?f r (flushMutation (simOps db) ?tx key mut)) = buffer (flushMutation (simOps db) ?tx key mut) @ ms"
    "\<forall>m \<in> set ms. mkind m = mutVersionstampedValue \<and> mkey m \<in> set r" using flush_others [OF assms(1)] by blast
  have "\<forall>m \<in> set ms. \<not> writesKey cv m key" using ms(2) order(2) by (auto simp: writesKey_def)
  moreover have "buffer (?f order tx) = buffer ?tx @ stampedValue (nextWriteNoConflict ?tx) key mut # ms"
    unfolding f ms(1) using flushMutation_sim [OF onlyValues_map [OF assms(1,2)]] by simp
  ultimately show ?thesis
    by (simp add: commitStep_others commitStep_def stampedValue_def mutationOf_def)
qed

section \<open>Committing\<close>

lemma Commit_stamp:
  assumes "db_inv db" and "Commit db tx draws = (db', tx', None)" and "buffer tx \<noteq> []"
  shows "db_inv db'" and "GetVersionstamp tx' = Inr (versionstampBytes_sim (lastVersion db') 0)"
    and "lastVersion db' \<le> w \<Longrightarrow>
      valueAt (store db') k w = foldl (commitStep (lastVersion db') k) (valueAt (store db) k (lastVersion db)) (buffer tx)"
proof -
  let ?tx = "tx\<lparr>committed := False\<rparr>"
  have open_tx: "\<not> cancelled tx" using assms(2) by (auto simp: Commit_def split: if_splits)
  have same: "(if committed tx then ?tx else tx) = ?tx" by (cases tx) simp
  have "commit db (if committed tx then ?tx else tx) draws = (db', tx', None)"
    using assms(2,3) open_tx by (simp add: Commit_def Let_def)
  then have c: "commit db ?tx draws = (db', tx', None)" unfolding same .
  show "db_inv db'" using commit_inv(1) [OF c assms(1)] .
  from c have applied: "lastVersion db' = commitVersionOf db \<and>
      tx' = postCommitReset ((ensureReadVersion db ?tx)\<lparr>committed := True, committedVersion := commitVersionOf db,
        txVersionstamp := Some (versionstampBytes_sim (commitVersionOf db) 0)\<rparr>)"
  proof (cases rule: commit_cases)
    case applied
    then show ?thesis by (auto simp: dbData_def applyCommit_sel)
  qed (use assms(3) in simp_all)
  with open_tx show "GetVersionstamp tx' = Inr (versionstampBytes_sim (lastVersion db') 0)"
    by (simp add: GetVersionstamp_def postCommitReset_def ensureReadVersion_def)
  have "lastVersion db' \<noteq> lastVersion db" using applied commitVersionOf_gt [of db] by simp
  with Commit_data [OF assms(1,2)] show "valueAt (store db') k w =
      foldl (commitStep (lastVersion db') k) (valueAt (store db) k (lastVersion db)) (buffer tx)"
    if "lastVersion db' \<le> w" using that by (metis linorder_not_le)
qed

lemma latestVersion_ge: "lastVersion db \<le> latestVersion db"
  by (simp add: latestVersion_def currentReadVersion_def Let_def)

lemma newTxn_reads:
  assumes "db_inv db" and "\<And>w. lastVersion db \<le> w \<Longrightarrow> valueAt (store db) k w = x"
  shows "\<exists>tx'. opGet (simOps db) newTxn k snapshot = (tx', Inr x)"
proof -
  have "simReady db newTxn" using assms(1) by (auto simp: simReady_def newTxn_def hasUnreadable_def db_inv_def)
  moreover have "simView db newTxn k = x"
    using assms(2) [OF latestVersion_ge]
    by (simp add: simView_def resolveKey_def snapshotValue_def ensureReadVersion_def newTxn_def Let_def)
  ultimately show ?thesis using sim.get_view by blast
qed

section \<open>Saving\<close>

lemma set_update_subset: "set (AList.update k v xs) \<subseteq> insert (k, v) (set xs)"
  by (induction xs) auto

lemma onlyValues_add:
  "onlyValues rc \<Longrightarrow> onlyValues (fst (AddVersionMutation rc MutationTypeSetVersionstampedValue key val))"
  using set_update_subset [of key "\<lparr>mutationType = MutationTypeSetVersionstampedValue, mutationValue = val\<rparr>" "versionMutations rc"]
  by (fastforce simp: onlyValues_def AddVersionMutation_def)

text \<open>What is queued for an incomplete version.\<close>

definition queuedValue :: "int \<Rightarrow> versionStore \<Rightarrow> FDBRecordVersion \<Rightarrow> bytes option" where
  "queuedValue api st v =
     (if vsOldFormat st then Some (buildOldFormatVersionstampedValue v)
      else case buildVersionstampedValue (Some api) v of Inl e \<Rightarrow> None | Inr b \<Rightarrow> Some b)"

lemma save_incomplete:
  assumes "\<not> IsComplete v" and "saveRecordVersionAtKey ops (Some api) st rc tx key v si = (rc', tx', si', None)"
  shows "tx' = tx \<and> context_GetLocalVersion rc' key = Some (version_GetLocalVersion v) \<and>
    (\<exists>stored. queuedValue api st v = Some stored \<and>
       map_of (versionMutations rc') key =
         Some \<lparr>mutationType = MutationTypeSetVersionstampedValue, mutationValue = Some stored\<rparr>) \<and>
    (onlyValues rc \<longrightarrow> onlyValues rc')"
proof -
  define rc1 where "rc1 = AddToLocalVersionCache rc key (version_GetLocalVersion v)"
  obtain stored where q: "queuedValue api st v = Some stored" "tx' = tx"
      "rc' = fst (AddVersionMutation rc1 MutationTypeSetVersionstampedValue key (Some stored))"
    using assms by (auto simp: saveRecordVersionAtKey_def saveVersionWithOldFormat_def queuedValue_def rc1_def Let_def
      split: if_splits sum.splits)
  have "onlyValues rc \<Longrightarrow> onlyValues rc1" by (simp add: rc1_def onlyValues_def AddToLocalVersionCache_def)
  with q onlyValues_add [of rc1] show ?thesis
    by (auto simp: AddVersionMutation_def rc1_def AddToLocalVersionCache_def context_GetLocalVersion_def update_conv')
qed

text \<open>The value that the commit makes of it.\<close>

lemma queued_committed:
  assumes "version_wf v" and "\<not> IsComplete v" and "520 \<le> api" and "queuedValue api st v = Some stored"
  shows "\<exists>x. stampVersionstamp stored (versionstampBytes_sim cv 0) = Some x \<and>
    decodeLoadedVersionValue (Some x) (vsOldFormat st) = Inr (Some (completed v (versionstampBytes_sim cv 0)))"
proof (cases "vsOldFormat st")
  case True
  let ?w = "completed v (versionstampBytes_sim cv 0)"
  have "stored = [] @ versionRaw v @ [0, 0, 0, 0]"
    using True assms(4) by (simp add: queuedValue_def buildOldFormatVersionstampedValue_def version_ToBytes_def)
  then have "stampVersionstamp stored (versionstampBytes_sim cv 0) = Some (versionRaw ?w)"
    using completed_stored [of v "versionstampBytes_sim cv 0" "[0, 0, 0, 0]" "[]"] assms(1,2) by (simp add: IsComplete_def)
  moreover have "length (versionRaw ?w) = VersionBytes" using completed_simps(2) [of "versionstampBytes_sim cv 0" v]
    by (simp add: version_wf_def)
  moreover have "\<lparr>versionRaw = versionRaw ?w, versionComplete = True\<rparr> = ?w" by (simp add: completed_def)
  ultimately show ?thesis using True
    by (simp add: decodeLoadedVersionValue_def completeVersionFromBytesUnchecked_def)
next
  case False
  let ?w = "completed v (versionstampBytes_sim cv 0)"
  have "stored = [versionstampCode] @ versionRaw v @ [1, 0, 0, 0]"
    using False assms(4) buildVersionstampedValue_code [OF assms(1) _ assms(3)] assms(2)
    by (simp add: queuedValue_def IsComplete_def)
  then have "stampVersionstamp stored (versionstampBytes_sim cv 0) = Some (versionstampCode # versionRaw ?w)"
    using completed_stored [of v "versionstampBytes_sim cv 0" "[1, 0, 0, 0]" "[versionstampCode]"] assms(1,2)
    by (simp add: IsComplete_def)
  then show ?thesis using False unpackVersion_code [of ?w] by (simp add: decodeLoadedVersionValue_def)
qed

lemma IncompleteVersion_local:
  assumes "version_wf v" and "\<not> IsComplete v"
  shows "IncompleteVersion (version_GetLocalVersion v) = Inr v"
  using assms wf_split [OF assms(1)] by (cases v) (auto simp: IncompleteVersion_def version_wf_def IsComplete_def version_sizes)

section \<open>Property\<close>

text \<open>
  (C10) A version that is saved is a version that is loaded.  When an incomplete version is saved under a key,
  a load in the same context returns it from the cache; and when the queue is flushed in any order and the
  transaction commits, a load of a new transaction returns the version completed by the versionstamp that
  the committed transaction reports.  This holds for the inline format and for the old one; queued writes of
  other versions do not interfere.
\<close>

theorem saved_version_loads:
  assumes "version_wf v" and "\<not> IsComplete v" and "520 \<le> api" and "vsOldFormat st \<longrightarrow> vsStoreVersions st"
    and "saveRecordVersionAtKey (simOps db) (Some api) st rc tx key v si = (rc', tx', si', None)"
    and "onlyValues rc" and "key \<in> set order" and "distinct order" and "db_inv db"
    and "Commit db (flushVersionMutations (simOps db) rc' order tx') draws = (db', tx'', None)"
  shows "snd (loadRecordVersionAtKey (simOps db) st rc' tx' key snapshot (vsOldFormat st)) = Inr (Some v) \<and>
    (\<exists>stamp w. GetVersionstamp tx'' = Inr stamp \<and> WithCommittedVersion v stamp = Inr w \<and>
       snd (loadRecordVersionAtKey (simOps db') st newRecordContext newTxn key snapshot (vsOldFormat st)) = Inr (Some w))"
proof -
  have can: "canLoadRecordVersion st (vsOldFormat st)" using assms(4) by (auto simp: canLoadRecordVersion_def)
  obtain stored where q: "context_GetLocalVersion rc' key = Some (version_GetLocalVersion v)"
      "queuedValue api st v = Some stored" "onlyValues rc'"
      "map_of (versionMutations rc') key =
         Some \<lparr>mutationType = MutationTypeSetVersionstampedValue, mutationValue = Some stored\<rparr>"
    using save_incomplete [OF assms(2,5)] assms(6) by blast
  let ?stamp = "versionstampBytes_sim (lastVersion db') 0"
  obtain x where x: "stampVersionstamp stored ?stamp = Some x"
      "decodeLoadedVersionValue (Some x) (vsOldFormat st) = Inr (Some (completed v ?stamp))"
    using queued_committed [OF assms(1-3) q(2)] by blast
  note f = flush_stored [OF q(3,4) assms(7,8), of db tx' "lastVersion db'"]
  have c: "db_inv db'" "GetVersionstamp tx'' = Inr ?stamp"
      "\<And>w. lastVersion db' \<le> w \<Longrightarrow> valueAt (store db') key w = Some x"
    using Commit_stamp [OF assms(9,10)] f x(1) by simp_all
  obtain t where "opGet (simOps db') newTxn key snapshot = (t, Inr (Some x))" using newTxn_reads [OF c(1,3)] by blast
  then have "snd (loadRecordVersionAtKey (simOps db') st newRecordContext newTxn key snapshot (vsOldFormat st)) =
      Inr (Some (completed v ?stamp))"
    using can x(2) by (simp add: loadRecordVersionAtKey_def context_GetLocalVersion_def newRecordContext_def)
  moreover have "snd (loadRecordVersionAtKey (simOps db) st rc' tx' key snapshot (vsOldFormat st)) = Inr (Some v)"
    using can q(1) IncompleteVersion_local [OF assms(1,2)] by (simp add: loadRecordVersionAtKey_def)
  moreover have "WithCommittedVersion v ?stamp = Inr (completed v ?stamp)"
    using assms(2) by (simp add: WithCommittedVersion_iff IsComplete_def)
  ultimately show ?thesis using c(2) by blast
qed

text \<open>A save of local version 7 into an empty context, committed in the example database.\<close>

definition exampleVersion :: FDBRecordVersion where
  "exampleVersion = \<lparr>versionRaw = replicate 10 0xFF @ [0, 7], versionComplete = False\<rparr>"

definition exampleStore :: versionStore where
  "exampleStore = \<lparr>vsSubspace = \<lparr>rawPrefix = [0x15, 9]\<rparr>, vsOldFormat = False, vsStoreVersions = True\<rparr>"

definition exampleSave :: "FDBRecordContext \<times> simTxn \<times> sizeInfo option \<times> saveVersionError option" where
  "exampleSave = saveRecordVersionAtKey (simOps exampleDB) (Some 730) exampleStore newRecordContext newTxn [5] exampleVersion None"

definition exampleCommit :: "simDB \<times> simTxn \<times> int option" where
  "exampleCommit =
     (case exampleSave of (rc, tx, _) \<Rightarrow> Commit exampleDB (flushVersionMutations (simOps exampleDB) rc [[5]] tx) noFaults)"

lemma exampleSave_ok: "snd (snd (snd exampleSave)) = None"
  by code_simp

lemma exampleCommit_ok: "snd (snd exampleCommit) = None"
  by code_simp

theorem saved_version_loads_witness:
  "\<exists>stamp w. GetVersionstamp (fst (snd exampleCommit)) = Inr stamp \<and> WithCommittedVersion exampleVersion stamp = Inr w \<and>
     snd (loadRecordVersionAtKey (simOps (fst exampleCommit)) exampleStore newRecordContext newTxn [5] False False) = Inr (Some w)"
proof -
  obtain rc' tx' si' where s: "saveRecordVersionAtKey (simOps exampleDB) (Some 730) exampleStore newRecordContext newTxn [5]
      exampleVersion None = (rc', tx', si', None)"
    using exampleSave_ok unfolding exampleSave_def by (metis prod.collapse)
  obtain db' tx'' where c: "exampleCommit = (db', tx'', None)" using exampleCommit_ok by (metis prod.collapse)
  have "Commit exampleDB (flushVersionMutations (simOps exampleDB) rc' [[5]] tx') noFaults = (db', tx'', None)"
    using c s by (simp add: exampleCommit_def exampleSave_def)
  moreover have "version_wf exampleVersion" "\<not> IsComplete exampleVersion"
    by (simp_all add: exampleVersion_def version_wf_def version_sizes incompleteGlobalVersionMarker_def IsComplete_def)
  moreover have "onlyValues newRecordContext" by (simp add: onlyValues_def newRecordContext_def)
  moreover have "\<not> vsOldFormat exampleStore" by (simp add: exampleStore_def)
  ultimately show ?thesis unfolding c
    using saved_version_loads [of exampleVersion 730 exampleStore exampleDB newRecordContext newTxn "[5]" None rc' tx' si'
      "[[5]]" noFaults db' tx'' False] s exampleDB_db_inv by simp
qed

end
