(* ===== verification/SplitHelper.thy ===== *)
theory SplitHelper
  imports RecordContext SimKV
begin

text \<open>
  The storage of the bytes of a record (\<^verbatim>\<open>pkg/recordlayer/split_helper.go\<close>): a record is one value under the
  suffix 0 of its primary key, or a sequence of chunks under the suffixes 1, 2, ..., with an inline version
  under the suffix -1.  The operations run on any transaction of the interface of \<^theory_text>\<open>KVTransaction\<close>; a
  primary key with an incomplete versionstamp is queued in the record context instead.
\<close>

section \<open>Definitions\<close>

definition splitRecordSize :: nat where
  "splitRecordSize = 100000"

datatype splitError =
    EmptyPrimaryKey
  | SplitKeyStamps pack_failure
  | NeedsRecordContext
  | RecordTooLong
  | PackPanic pack_panic
  | PackStampedKey pack_failure
  | KeyVersionOverwritten
  | SplitBackend int
  | UnpackSplitKey subspace_unpack_error
  | NotOneExtension tuple
  | SuffixNotInteger tuple_element
  | MoreThanOneUnsplit
  | UnsplitThenSplit
  | FoundSplitOutOfOrder "64 word" "64 word"
  | FoundSplitWithoutStart "64 word"
  | SplitVersion unpackVersionError
  | NoPrefixRange

text \<open>What an operation changes: the transaction, the context if there is one, and the sizes if they are wanted.\<close>

record 'tx splitState =
  spTx :: 'tx
  spContext :: "FDBRecordContext option"
  spSizes :: "sizeInfo option"

definition appendToTuple :: "tuple \<Rightarrow> 64 word \<Rightarrow> tuple" where
  "appendToTuple base suffix = base @ [EInt64 suffix]"

definition unsplitSuffix :: tuple where
  "unsplitSuffix = [EInt64 unsplitRecord]"

subsection \<open>Sizes without writing\<close>

text \<open>\<open>None\<close> where packing a key panics.\<close>

definition countChunk :: "bytes \<Rightarrow> nat \<Rightarrow> sizeInfo \<Rightarrow> sizeInfo" where
  "countChunk key n si =
     si\<lparr>KeyCount := KeyCount si + 1, KeySize := KeySize si + length key, ValueSize := ValueSize si + n\<rparr>"

function dryRunChunks ::
  "packer \<Rightarrow> subspace \<Rightarrow> tuple \<Rightarrow> bytes \<Rightarrow> 64 word \<Rightarrow> nat \<Rightarrow> sizeInfo \<Rightarrow> (pack_panic, sizeInfo) result" where
  "dryRunChunks pooled ss pk serialized index offset s =
     (if offset < length serialized then
        case subspace_Pack pooled ss (appendToTuple pk index) of
          Inl p \<Rightarrow> Inl p
        | Inr key \<Rightarrow>
            dryRunChunks pooled ss pk serialized (index + 1) (offset + splitRecordSize)
              (countChunk key (min (offset + splitRecordSize) (length serialized) - offset) s)
      else Inr s)"
  by pat_completeness auto
termination
  by (relation "measure (\<lambda>(_, _, _, serialized, _, offset, _). length serialized - offset)")
    (auto simp: splitRecordSize_def)

declare dryRunChunks.simps [simp del]

definition dryRunSaveWithSplitSizeInfo ::
  "packer \<Rightarrow> subspace \<Rightarrow> tuple \<Rightarrow> bytes \<Rightarrow> bool \<Rightarrow> bool \<Rightarrow> (pack_panic, sizeInfo) result" where
  "dryRunSaveWithSplitSizeInfo pooled ss primaryKey serialized splitLongRecords omitUnsplitRecordSuffix =
     (if length serialized > splitRecordSize then
        (case dryRunChunks pooled ss primaryKey serialized startSplitRecord 0 noSizes of
           Inl p \<Rightarrow> Inl p
         | Inr s \<Rightarrow> Inr (s\<lparr>IsSplit := True\<rparr>))
      else
        let key = (if splitLongRecords \<or> \<not> omitUnsplitRecordSuffix
                   then appendToTuple primaryKey unsplitRecord else primaryKey)
        in case subspace_Pack pooled ss key of
             Inl p \<Rightarrow> Inl p
           | Inr k \<Rightarrow> Inr (noSizes\<lparr>KeyCount := 1, KeySize := length k, ValueSize := length serialized\<rparr>))"

subsection \<open>Clearing\<close>

function offsetsLoop :: "nat \<Rightarrow> 64 word \<Rightarrow> 64 word list \<Rightarrow> 64 word list" where
  "offsetsLoop keyCount current offsets =
     (if length offsets < keyCount then offsetsLoop keyCount (current + 1) (offsets @ [current]) else offsets)"
  by pat_completeness auto
termination
  by (relation "measure (\<lambda>(keyCount, _, offsets). keyCount - length offsets)") auto

declare offsetsLoop.simps [simp del]

definition recordOffsets :: "sizeInfo \<Rightarrow> 64 word list" where
  "recordOffsets old =
     (let offsets = (if VersionedInline old then [recordVersionSuffix] else [])
      in if \<not> IsSplit old then offsets @ [unsplitRecord]
         else offsetsLoop (KeyCount old) startSplitRecord offsets)"

fun clearOffsets ::
  "'tx writableTransaction \<Rightarrow> packer \<Rightarrow> subspace \<Rightarrow> tuple \<Rightarrow> 64 word list \<Rightarrow> 'tx \<Rightarrow> 'tx \<times> splitError option" where
  "clearOffsets ops pooled ss primaryKey [] tx = (tx, None)"
| "clearOffsets ops pooled ss primaryKey (offset # offsets) tx =
     (case subspace_Pack pooled ss (appendToTuple primaryKey offset) of
        Inl p \<Rightarrow> (tx, Some (PackPanic p))
      | Inr key \<Rightarrow> clearOffsets ops pooled ss primaryKey offsets (opClear ops tx key))"

definition clearRecordKeys ::
  "'tx writableTransaction \<Rightarrow> packer \<Rightarrow> 'tx \<Rightarrow> subspace \<Rightarrow> tuple \<Rightarrow> sizeInfo \<Rightarrow> 'tx \<times> splitError option" where
  "clearRecordKeys ops pooled tx ss primaryKey old =
     (if length primaryKey = 0 then (tx, None)
      else case subspace_Sub ss primaryKey of
        Inl p \<Rightarrow> (tx, Some (PackPanic p))
      | Inr pk \<Rightarrow>
          (case opAddWriteConflictRange ops tx (fst (subspace_FDBRangeKeys pk)) (snd (subspace_FDBRangeKeys pk)) of
             (tx, Some err) \<Rightarrow> (tx, Some (SplitBackend err))
           | (tx, None) \<Rightarrow> clearOffsets ops pooled ss primaryKey (recordOffsets old) tx))"

definition clearRecordKeyRange ::
  "'tx writableTransaction \<Rightarrow> 'tx \<Rightarrow> subspace \<Rightarrow> tuple \<Rightarrow> 'tx \<times> splitError option" where
  "clearRecordKeyRange ops tx ss primaryKey =
     (if length primaryKey = 0 then (tx, None)
      else case subspace_Sub ss primaryKey of
        Inl p \<Rightarrow> (tx, Some (PackPanic p))
      | Inr pk \<Rightarrow> (opClearRange ops tx (fst (subspace_FDBRangeKeys pk)) (snd (subspace_FDBRangeKeys pk)), None))"

text \<open>A save without a version must not commit the version that an earlier save has queued.\<close>

definition dropQueuedVersion :: "FDBRecordContext \<Rightarrow> bytes \<Rightarrow> FDBRecordContext" where
  "dropQueuedVersion rc versionKey =
     (case context_GetLocalVersion rc versionKey of
        None \<Rightarrow> rc
      | Some local \<Rightarrow> RemoveVersionMutation rc versionKey)"

definition clearPreviousRecord ::
  "'tx writableTransaction \<Rightarrow> packer \<Rightarrow> 'tx splitState \<Rightarrow> subspace \<Rightarrow> tuple \<Rightarrow> bool \<Rightarrow> sizeInfo option \<Rightarrow>
     'tx splitState \<times> splitError option" where
  "clearPreviousRecord ops pooled s ss primaryKey clearBySize oldsizeInfo =
     (let (tx, err) =
        (if \<not> clearBySize then clearRecordKeyRange ops (spTx s) ss primaryKey
         else case oldsizeInfo of
           Some old \<Rightarrow> clearRecordKeys ops pooled (spTx s) ss primaryKey old
         | None \<Rightarrow> (spTx s, None));
          s = s\<lparr>spTx := tx\<rparr>
      in case err of
           Some e \<Rightarrow> (s, Some e)
         | None \<Rightarrow>
             (case spContext s of
                None \<Rightarrow> (s, None)
              | Some rc \<Rightarrow>
                  (case subspace_Pack pooled ss (appendToTuple primaryKey recordVersionSuffix) of
                     Inl p \<Rightarrow> (s, Some (PackPanic p))
                   | Inr versionKey \<Rightarrow> (s\<lparr>spContext := Some (dropQueuedVersion rc versionKey)\<rparr>, None))))"

subsection \<open>Saving\<close>

text \<open>Without a context the incomplete case is not reached: the save has refused before.\<close>

definition writeSplitValue ::
  "'tx writableTransaction \<Rightarrow> int option \<Rightarrow> packer \<Rightarrow> 'tx splitState \<Rightarrow> subspace \<Rightarrow> tuple \<Rightarrow> bytes \<Rightarrow> bool \<Rightarrow>
     'tx splitState \<times> (splitError, bytes) result" where
  "writeSplitValue ops apiVersion pooled s ss key val incomplete =
     (if \<not> incomplete then
        (case subspace_Pack pooled ss key of
           Inl p \<Rightarrow> (s, Inl (PackPanic p))
         | Inr k \<Rightarrow> (s\<lparr>spTx := opSet ops (spTx s) k val\<rparr>, Inr k))
      else
        (case PackWithVersionstamp apiVersion key (subspace_Bytes ss) of
           Inl e \<Rightarrow> (s, Inl (PackStampedKey e))
         | Inr k \<Rightarrow>
             (case spContext s of
                None \<Rightarrow> (s, Inl NeedsRecordContext)
              | Some rc \<Rightarrow>
                  let (rc, previous) = AddVersionMutation rc MutationTypeSetVersionstampedKey k (Some val)
                  in (s\<lparr>spContext := Some rc\<rparr>,
                      if previous \<noteq> None then Inl KeyVersionOverwritten else Inr k))))"

definition setSizes :: "(sizeInfo \<Rightarrow> sizeInfo) \<Rightarrow> 'tx splitState \<Rightarrow> 'tx splitState" where
  "setSizes f s = s\<lparr>spSizes := map_option f (spSizes s)\<rparr>"

function saveChunks ::
  "'tx writableTransaction \<Rightarrow> int option \<Rightarrow> packer \<Rightarrow> 'tx splitState \<Rightarrow> subspace \<Rightarrow> tuple \<Rightarrow> bytes \<Rightarrow> bool \<Rightarrow>
     64 word \<Rightarrow> nat \<Rightarrow> 'tx splitState \<times> splitError option" where
  "saveChunks ops apiVersion pooled s ss primaryKey serialized hasVersionInKey splitIndex offset =
     (if offset < length serialized then
        let end = (if offset + splitRecordSize > length serialized then length serialized else offset + splitRecordSize);
            chunk = take (end - offset) (drop offset serialized)
        in case writeSplitValue ops apiVersion pooled s ss (appendToTuple primaryKey splitIndex) chunk hasVersionInKey of
             (s, Inl e) \<Rightarrow> (s, Some e)
           | (s, Inr key) \<Rightarrow>
               saveChunks ops apiVersion pooled (setSizes (countChunk key (length chunk)) s) ss primaryKey serialized
                 hasVersionInKey (splitIndex + 1) end
      else (s, None))"
  by pat_completeness auto
termination
  by (relation "measure (\<lambda>(_, _, _, _, _, _, serialized, _, _, offset). length serialized - offset)")
    (auto simp: splitRecordSize_def)

declare saveChunks.simps [simp del]

definition unsplitSizes :: "bytes \<Rightarrow> nat \<Rightarrow> sizeInfo \<Rightarrow> sizeInfo" where
  "unsplitSizes key dataLen si =
     si\<lparr>KeyCount := 1, KeySize := length key, ValueSize := dataLen, IsSplit := False, VersionedInline := False\<rparr>"

definition saveSplit ::
  "'tx writableTransaction \<Rightarrow> int option \<Rightarrow> packer \<Rightarrow> 'tx splitState \<Rightarrow> subspace \<Rightarrow> tuple \<Rightarrow> bytes \<Rightarrow> bool \<Rightarrow> bool \<Rightarrow>
     bool \<Rightarrow> sizeInfo option \<Rightarrow> 'tx splitState \<times> splitError option" where
  "saveSplit ops apiVersion pooled s ss primaryKey serialized splitLongRecords omitUnsplitRecordSuffix clearBySize
       oldsizeInfo =
     (if length primaryKey = 0 then (s, Some EmptyPrimaryKey)
      else case HasIncompleteVersionstamp primaryKey of
        (_, Some e) \<Rightarrow> (s, Some (SplitKeyStamps e))
      | (hasVersionInKey, None) \<Rightarrow>
          if hasVersionInKey \<and> spContext s = None then (s, Some NeedsRecordContext)
          else if length serialized > splitRecordSize then
            if \<not> splitLongRecords then (s, Some RecordTooLong)
            else
              (case (if \<not> hasVersionInKey then clearPreviousRecord ops pooled s ss primaryKey clearBySize oldsizeInfo
                     else (s, None)) of
                 (s, Some e) \<Rightarrow> (s, Some e)
               | (s, None) \<Rightarrow>
                   (case saveChunks ops apiVersion pooled (setSizes (\<lambda>_. noSizes) s) ss primaryKey serialized
                           hasVersionInKey startSplitRecord 0 of
                      (s, Some e) \<Rightarrow> (s, Some e)
                    | (s, None) \<Rightarrow> (setSizes (\<lambda>si. si\<lparr>IsSplit := True\<rparr>) s, None)))
          else if \<not> splitLongRecords \<and> omitUnsplitRecordSuffix then
            (case writeSplitValue ops apiVersion pooled s ss primaryKey serialized hasVersionInKey of
               (s, Inl e) \<Rightarrow> (s, Some e)
             | (s, Inr key) \<Rightarrow> (setSizes (unsplitSizes key (length serialized)) s, None))
          else
            (case (if \<not> hasVersionInKey \<and>
                      (splitLongRecords \<or> oldsizeInfo = None \<or> VersionedInline (the oldsizeInfo) \<or> IsSplit (the oldsizeInfo))
                   then clearPreviousRecord ops pooled s ss primaryKey clearBySize oldsizeInfo else (s, None)) of
               (s, Some e) \<Rightarrow> (s, Some e)
             | (s, None) \<Rightarrow>
                 (case (if hasVersionInKey
                        then writeSplitValue ops apiVersion pooled s ss (appendToTuple primaryKey unsplitRecord) serialized True
                        else case PackConcatWithPrefix pooled (subspace_Bytes ss) [primaryKey, unsplitSuffix] of
                               Inl p \<Rightarrow> (s, Inl (PackPanic p))
                             | Inr key \<Rightarrow> (s\<lparr>spTx := opSet ops (spTx s) key serialized\<rparr>, Inr key)) of
                    (s, Inl e) \<Rightarrow> (s, Some e)
                  | (s, Inr key) \<Rightarrow> (setSizes (unsplitSizes key (length serialized)) s, None))))"

definition saveWithSplit ::
  "'tx writableTransaction \<Rightarrow> int option \<Rightarrow> packer \<Rightarrow> 'tx splitState \<Rightarrow> subspace \<Rightarrow> tuple \<Rightarrow> bytes \<Rightarrow> bool \<Rightarrow> bool \<Rightarrow>
     sizeInfo option \<Rightarrow> 'tx splitState \<times> splitError option" where
  "saveWithSplit ops apiVersion pooled s ss primaryKey serialized splitLongRecords omitUnsplitRecordSuffix oldsizeInfo =
     saveSplit ops apiVersion pooled s ss primaryKey serialized splitLongRecords omitUnsplitRecordSuffix True oldsizeInfo"

definition saveWithSplitClearingKey ::
  "'tx writableTransaction \<Rightarrow> int option \<Rightarrow> packer \<Rightarrow> 'tx splitState \<Rightarrow> subspace \<Rightarrow> tuple \<Rightarrow> bytes \<Rightarrow>
     'tx splitState \<times> splitError option" where
  "saveWithSplitClearingKey ops apiVersion pooled s sub key serialized =
     saveSplit ops apiVersion pooled s sub key serialized True False False None"

subsection \<open>Loading\<close>

definition recordRangeBounds :: "bytes \<Rightarrow> bytes \<times> bytes" where
  "recordRangeBounds prefix = (prefix @ [0x00], prefix @ [0xff])"

text \<open>
  A load that has been started, with its reads resolved: the bytes of the bare key in the legacy layout, or
  the rows that the iterator of the range gives and the error it ends with.
\<close>

record pendingRecordLoad =
  loadPrefix :: bytes
  loadValue :: "(int, bytes option) result option"
  loadRange :: "kv list \<times> int option"
  loadVersion :: "FDBRecordVersion option"
  loadLocalSize :: sizeInfo
  loadLocalErr :: "versionError option"

definition startLoadWithSplit ::
  "'tx writableTransaction \<Rightarrow> packer \<Rightarrow> 'tx \<Rightarrow> subspace \<Rightarrow> tuple \<Rightarrow> bool \<Rightarrow> bool \<Rightarrow> FDBRecordContext option \<Rightarrow> bool \<Rightarrow>
     'tx \<times> (pack_panic, pendingRecordLoad) result" where
  "startLoadWithSplit ops pooled tx ss primaryKey splitLongRecords omitUnsplitRecordSuffix recordContext snapshot =
     (case subspace_Pack pooled ss primaryKey of
        Inl p \<Rightarrow> (tx, Inl p)
      | Inr prefix \<Rightarrow>
          let p = \<lparr>loadPrefix = prefix, loadValue = None, loadRange = ([], None), loadVersion = None,
                   loadLocalSize = noSizes, loadLocalErr = None\<rparr>
          in if \<not> splitLongRecords \<and> omitUnsplitRecordSuffix then
               (let (tx, r) = opGet ops tx prefix snapshot in (tx, Inr (p\<lparr>loadValue := Some r\<rparr>)))
             else
               let (b, e) = recordRangeBounds prefix;
                   (tx, r) = opGetRange ops tx b e \<lparr>Limit = 0, Mode = -1, Reverse = False\<rparr> snapshot;
                   p = p\<lparr>loadRange := (case r of Inl err \<Rightarrow> ([], Some err) | Inr kvs \<Rightarrow> (kvs, None))\<rparr>
               in case recordContext of
                    None \<Rightarrow> (tx, Inr p)
                  | Some rc \<Rightarrow>
                      (case subspace_Pack pooled ss (appendToTuple primaryKey recordVersionSuffix) of
                         Inl pp \<Rightarrow> (tx, Inl pp)
                       | Inr versionKey \<Rightarrow>
                           (case context_GetLocalVersion rc versionKey of
                              None \<Rightarrow> (tx, Inr p)
                            | Some local \<Rightarrow>
                                (tx, Inr (p\<lparr>loadVersion := (case IncompleteVersion local of Inl _ \<Rightarrow> None | Inr v \<Rightarrow> Some v),
                                           loadLocalErr := (case IncompleteVersion local of Inl e \<Rightarrow> Some e | Inr _ \<Rightarrow> None),
                                           loadLocalSize := noSizes\<lparr>KeyCount := 1, KeySize := length versionKey,
                                             ValueSize := VersionBytes + 1, VersionedInline := True\<rparr>\<rparr>)))))"

text \<open>The index in the suffix of a row's key.\<close>

definition splitIndexOf :: "nat \<Rightarrow> bytes \<Rightarrow> (splitError, 64 word) result" where
  "splitIndexOf prefixLen key =
     (case SubspaceUnpack key prefixLen of
        Inl e \<Rightarrow> Inl (UnpackSplitKey e)
      | Inr subkey \<Rightarrow>
          if length subkey \<noteq> 1 then Inl (NotOneExtension subkey)
          else case subkey ! 0 of
                 EInt64 index \<Rightarrow> Inr index
               | e \<Rightarrow> Inl (SuffixNotInteger e))"

text \<open>The state of the loop over the rows: the bytes so far, the version, the last index and the sizes.\<close>

record readState =
  rdResult :: "bytes option"
  rdVersion :: "FDBRecordVersion option"
  rdLastIndex :: "64 word"
  rdSizes :: sizeInfo

definition readRow :: "nat \<Rightarrow> readState \<Rightarrow> kv \<Rightarrow> (splitError, readState) result" where
  "readRow prefixLen st kv =
     (case splitIndexOf prefixLen (fst kv) of
        Inl e \<Rightarrow> Inl e
      | Inr index \<Rightarrow>
          let st' =
            (if index = unsplitRecord then
               if rdResult st \<noteq> None then Inl MoreThanOneUnsplit
               else Inr (st\<lparr>rdResult := Some (snd kv), rdSizes := (rdSizes st)\<lparr>IsSplit := False\<rparr>\<rparr>)
             else if index = rdLastIndex st + 1 \<or> rdLastIndex st = recordVersionSuffix \<and> index = startSplitRecord then
               if index = startSplitRecord then
                 if rdResult st \<noteq> None then Inl UnsplitThenSplit
                 else Inr (st\<lparr>rdResult := Some (snd kv), rdSizes := (rdSizes st)\<lparr>IsSplit := True\<rparr>, rdLastIndex := index\<rparr>)
               else Inr (st\<lparr>rdResult := Some (presentBytes (rdResult st) @ snd kv), rdLastIndex := index\<rparr>)
             else if index = recordVersionSuffix then
               (case unpackVersion (snd kv) of
                  Inl e \<Rightarrow> Inl (SplitVersion e)
                | Inr v \<Rightarrow> Inr (st\<lparr>rdVersion := Some v, rdSizes := (rdSizes st)\<lparr>VersionedInline := True\<rparr>\<rparr>))
             else if startSplitRecord \<le>s rdLastIndex st then Inl (FoundSplitOutOfOrder (rdLastIndex st + 1) index)
             else Inl (FoundSplitWithoutStart index))
          in case st' of
               Inl e \<Rightarrow> Inl e
             | Inr st \<Rightarrow> Inr (st\<lparr>rdSizes := countChunk (fst kv) (length (snd kv)) (rdSizes st)\<rparr>))"

fun readRows :: "nat \<Rightarrow> readState \<Rightarrow> kv list \<Rightarrow> (splitError, readState) result" where
  "readRows prefixLen st [] = Inr st"
| "readRows prefixLen st (kv # kvs) =
     (case readRow prefixLen st kv of Inl e \<Rightarrow> Inl e | Inr st \<Rightarrow> readRows prefixLen st kvs)"

definition readRange ::
  "pendingRecordLoad \<Rightarrow> (splitError + versionError, sizeInfo \<times> bytes option \<times> FDBRecordVersion option) result" where
  "readRange p =
     (case loadLocalErr p of
        Some e \<Rightarrow> Inl (Inr e)
      | None \<Rightarrow>
          (case readRows (length (loadPrefix p))
                  \<lparr>rdResult = None, rdVersion = loadVersion p, rdLastIndex = 0, rdSizes = loadLocalSize p\<rparr>
                  (fst (loadRange p)) of
             Inl e \<Rightarrow> Inl (Inl e)
           | Inr st \<Rightarrow>
               (case snd (loadRange p) of
                  Some err \<Rightarrow> Inl (Inl (SplitBackend err))
                | None \<Rightarrow>
                    if rdResult st = None \<and> rdVersion st \<noteq> None
                    then Inl (Inl (FoundSplitWithoutStart recordVersionSuffix))
                    else Inr (rdSizes st, rdResult st, rdVersion st))))"

text \<open>The model gives no sizes for a load that fails; one that finds no legacy value leaves them as they were.\<close>

definition finishLoad ::
  "pendingRecordLoad \<Rightarrow> sizeInfo \<Rightarrow>
     (splitError + versionError, sizeInfo \<times> bytes option \<times> FDBRecordVersion option) result" where
  "finishLoad p sizes =
     (case loadValue p of
        Some (Inl err) \<Rightarrow> Inl (Inl (SplitBackend err))
      | Some (Inr None) \<Rightarrow> Inr (sizes, None, None)
      | Some (Inr (Some val)) \<Rightarrow>
          Inr (noSizes\<lparr>KeyCount := 1, KeySize := length (loadPrefix p), ValueSize := length val\<rparr>, Some val, None)
      | None \<Rightarrow> readRange p)"

definition loadWithSplit ::
  "'tx writableTransaction \<Rightarrow> packer \<Rightarrow> 'tx \<Rightarrow> subspace \<Rightarrow> tuple \<Rightarrow> bool \<Rightarrow> bool \<Rightarrow> bool \<Rightarrow>
     'tx \<times> (splitError + versionError, sizeInfo \<times> bytes option) result" where
  "loadWithSplit ops pooled tx ss primaryKey splitLongRecords omitUnsplitRecordSuffix snapshot =
     (case startLoadWithSplit ops pooled tx ss primaryKey splitLongRecords omitUnsplitRecordSuffix None snapshot of
        (tx, Inl p) \<Rightarrow> (tx, Inl (Inl (PackPanic p)))
      | (tx, Inr p) \<Rightarrow>
          (tx, case finishLoad p noSizes of Inl e \<Rightarrow> Inl e | Inr (sizes, val, _) \<Rightarrow> Inr (sizes, val)))"

subsection \<open>Deleting and existence\<close>

definition deleteSplit ::
  "'tx writableTransaction \<Rightarrow> packer \<Rightarrow> 'tx \<Rightarrow> subspace \<Rightarrow> tuple \<Rightarrow> bool \<Rightarrow> bool \<Rightarrow> sizeInfo option \<Rightarrow>
     'tx \<times> (splitError, bool) result" where
  "deleteSplit ops pooled tx ss primaryKey splitLongRecords omitUnsplitRecordSuffix oldsizeInfo =
     (if length primaryKey = 0 then (tx, Inr False)
      else case oldsizeInfo of
        None \<Rightarrow> (tx, Inr False)
      | Some old \<Rightarrow>
          if \<not> splitLongRecords \<and> omitUnsplitRecordSuffix then
            (case subspace_Pack pooled ss primaryKey of
               Inl p \<Rightarrow> (tx, Inl (PackPanic p))
             | Inr key \<Rightarrow> (opClear ops tx key, Inr True))
          else
            (case clearRecordKeys ops pooled tx ss primaryKey old of
               (tx, Some err) \<Rightarrow> (tx, Inl err)
             | (tx, None) \<Rightarrow> (tx, Inr True)))"

definition recordExistsWithSplit ::
  "'tx writableTransaction \<Rightarrow> packer \<Rightarrow> 'tx \<Rightarrow> subspace \<Rightarrow> tuple \<Rightarrow> bool \<Rightarrow> bool \<Rightarrow> bool \<Rightarrow>
     'tx \<times> (splitError, bool) result" where
  "recordExistsWithSplit ops pooled tx ss primaryKey splitLongRecords omitUnsplitRecordSuffix snapshot =
     (case subspace_Pack pooled ss primaryKey of
        Inl p \<Rightarrow> (tx, Inl (PackPanic p))
      | Inr key \<Rightarrow>
          if \<not> splitLongRecords \<and> omitUnsplitRecordSuffix then
            (case opGet ops tx key snapshot of
               (tx, Inl err) \<Rightarrow> (tx, Inl (SplitBackend err))
             | (tx, Inr val) \<Rightarrow> (tx, Inr (val \<noteq> None)))
          else
            (case PrefixRange key of
               None \<Rightarrow> (tx, Inl NoPrefixRange)
             | Some r \<Rightarrow>
                 (case opGetRange ops tx (Begin r) (End r) \<lparr>Limit = 1, Mode = 0, Reverse = False\<rparr> snapshot of
                    (tx, Inl err) \<Rightarrow> (tx, Inl (SplitBackend err))
                  | (tx, Inr kvs) \<Rightarrow> (tx, Inr (kvs \<noteq> [])))))"

section \<open>The keys of a record\<close>

definition recordPrefix :: "subspace \<Rightarrow> tuple \<Rightarrow> bytes" where
  "recordPrefix ss pk = rawPrefix ss @ tuple_code False pk"

definition recordKey :: "bytes \<Rightarrow> 64 word \<Rightarrow> bytes" where
  "recordKey p i = p @ int_code (sint i)"

text \<open>The keys between the bounds of the range of a record.\<close>

definition inRecord :: "bytes \<Rightarrow> bytes \<Rightarrow> bool" where
  "inRecord p k \<longleftrightarrow> p @ [0x00] \<le> k \<and> k < p @ [0xFF]"

lemma Pack_record [simp]: "packable pk \<Longrightarrow> subspace_Pack pooled ss pk = Inr (recordPrefix ss pk)"
  by (simp add: subspace_Pack_def PackWithPrefix_code recordPrefix_def)

lemma Pack_suffix [simp]:
  "packable pk \<Longrightarrow> subspace_Pack pooled ss (appendToTuple pk i) = Inr (recordKey (recordPrefix ss pk) i)"
  by (simp add: subspace_Pack_def PackWithPrefix_code recordPrefix_def recordKey_def appendToTuple_def)

lemma PackConcat_suffix [simp]:
  "packable pk \<Longrightarrow> PackConcatWithPrefix pooled (subspace_Bytes ss) [pk, unsplitSuffix] =
     Inr (recordKey (recordPrefix ss pk) unsplitRecord)"
  by (simp add: PackConcatWithPrefix_code subspace_Bytes_def recordPrefix_def recordKey_def unsplitSuffix_def)

lemma Sub_record [simp]: "packable pk \<Longrightarrow> subspace_Sub ss pk = Inr \<lparr>rawPrefix = recordPrefix ss pk\<rparr>"
  by (simp add: subspace_Sub_def Pack_packable subspace_Bytes_def recordPrefix_def)

lemma record_bounds [simp]:
  "fst (subspace_FDBRangeKeys \<lparr>rawPrefix = p\<rparr>) = p @ [0x00]" "snd (subspace_FDBRangeKeys \<lparr>rawPrefix = p\<rparr>) = p @ [0xFF]"
  by (simp_all add: subspace_FDBRangeKeys_def)

lemma record_bounds_le [simp]: "p @ [0x00 :: byte] \<le> p @ [0xFF]"
  by (simp add: lex_simps)

lemma inRecord_key [simp]: "inRecord p (recordKey p i)"
proof -
  obtain c s where c: "int_code (sint i) = c # s" "negIntStart \<le> c" "c \<le> posIntEnd" using int_code_hd by blast
  then have "0 < c" "c < 0xFF" by (simp_all add: word_less_nat_alt word_le_nat_alt)
  with c(1) show ?thesis by (simp add: inRecord_def recordKey_def lex_simps)
qed

lemma int_code_less: "i < j \<Longrightarrow> magnitude_ok i \<Longrightarrow> magnitude_ok j \<Longrightarrow> int_code i < int_code j"
  using below_int [of i j] unfolding below_def by (force dest: spec [where x = "[]"])

lemma recordKey_less: "sint i < sint j \<Longrightarrow> recordKey p i < recordKey p j"
  by (simp add: recordKey_def lex_simps int_code_less)

lemma recordKey_inject [simp]: "recordKey p i = recordKey p j \<longleftrightarrow> i = j"
  using recordKey_less [of i j p] recordKey_less [of j i p]
  by (metis less_irrefl linorder_less_linear signed_word_eqI)

lemma splitIndexOf_key [simp]: "splitIndexOf (length p) (recordKey p i) = Inr i"
proof -
  have "fastUnpack (int_code (sint i)) = Inr [EInt64 i]"
    using fastUnpack_code [of "[EInt64 i]"] sint_greater_eq [of i] sint_less [of i] by (simp add: int_elem_def)
  then show ?thesis by (simp add: splitIndexOf_def SubspaceUnpack_def recordKey_def)
qed

section \<open>The rows of a record\<close>

text \<open>The chunks of the bytes \<open>d\<close> from the suffix \<open>n\<close> on.\<close>

function splitRows :: "bytes \<Rightarrow> nat \<Rightarrow> bytes \<Rightarrow> kv list" where
  "splitRows p n d =
     (if d = [] then []
      else (recordKey p (of_nat n), take splitRecordSize d) # splitRows p (Suc n) (drop splitRecordSize d))"
  by pat_completeness auto
termination
  by (relation "measure (\<lambda>(_, _, d). length d)") (auto simp: splitRecordSize_def)

declare splitRows.simps [simp del]

lemma splitRecordSize_pos [simp]: "0 < splitRecordSize"
  by (simp add: splitRecordSize_def)

lemma splitRows_Nil [simp]: "splitRows p n [] = []"
  by (simp add: splitRows.simps)

lemma length_splitRows: "length (splitRows p n d) \<le> length d"
proof (induction p n d rule: splitRows.induct)
  case (1 p n d)
  show ?case
  proof (cases "d = []")
    case False
    then have "length (drop splitRecordSize d) < length d" using splitRecordSize_pos by (cases d) (simp_all add: splitRecordSize_def)
    with 1 [OF False] have "Suc (length (splitRows p (Suc n) (drop splitRecordSize d))) \<le> length d" by linarith
    with False show ?thesis by (subst splitRows.simps) simp
  qed simp
qed

lemma splitRows_values: "concat (map snd (splitRows p n d)) = d"
proof (induction p n d rule: splitRows.induct)
  case (1 p n d)
  then show ?case by (subst splitRows.simps) simp
qed

lemma splitRows_keys:
  "map fst (splitRows p n d) = map (\<lambda>i. recordKey p (of_nat i)) [n ..< n + length (splitRows p n d)]"
proof (induction p n d rule: splitRows.induct)
  case (1 p n d)
  show ?case
  proof (cases "d = []")
    case False
    then have s: "splitRows p n d = (recordKey p (of_nat n), take splitRecordSize d) # splitRows p (Suc n) (drop splitRecordSize d)"
      by (subst splitRows.simps) simp
    let ?l = "length (splitRows p (Suc n) (drop splitRecordSize d))"
    have "[n ..< n + length (splitRows p n d)] = n # [Suc n ..< Suc n + ?l]"
      using s upt_conv_Cons [of n "n + length (splitRows p n d)"] by simp
    with 1 [OF False] s show ?thesis by simp
  qed simp
qed

lemma sint_of_nat64: "n < 2 ^ 63 \<Longrightarrow> sint (of_nat n :: 64 word) = int n"
  by (simp add: signed_of_nat signed_take_bit_int_eq_self_iff)

lemma recordKey_of_nat_less: "m < n \<Longrightarrow> n < 2 ^ 63 \<Longrightarrow> recordKey p (of_nat m) < recordKey p (of_nat n)"
  by (rule recordKey_less) (simp add: sint_of_nat64)

lemma splitRows_sorted:
  assumes "n + length (splitRows p n d) \<le> 2 ^ 63"
  shows "sorted_wrt (<) (map fst (splitRows p n d))"
  unfolding splitRows_keys using assms
  by (auto simp: sorted_wrt_map intro!: sorted_wrt_mono_rel [OF _ sorted_wrt_upt] recordKey_of_nat_less)

text \<open>A record is one value, or chunks.\<close>

definition bodyRows :: "bytes \<Rightarrow> bytes \<Rightarrow> kv list" where
  "bodyRows p d = (if length d > splitRecordSize then splitRows p 1 d else [(recordKey p unsplitRecord, d)])"

lemma bodyRows_length: "length (bodyRows p d) \<le> length d + 1"
  using length_splitRows [of p 1 d] by (simp add: bodyRows_def)

lemma bodyRows_sorted:
  assumes "length d < 2 ^ 63"
  shows "sorted_wrt (<) (map fst (bodyRows p d))"
  using splitRows_sorted [of 1 p d] length_splitRows [of p 1 d] assms by (simp add: bodyRows_def)

lemma bodyRows_inRecord: "k \<in> fst ` set (bodyRows p d) \<Longrightarrow> inRecord p k"
proof -
  assume "k \<in> fst ` set (bodyRows p d)"
  then have "k \<in> set (map fst (splitRows p 1 d)) \<or> k = recordKey p unsplitRecord"
    by (auto simp: bodyRows_def split: if_splits)
  then show "inRecord p k" unfolding splitRows_keys by auto
qed

definition countRows :: "kv list \<Rightarrow> sizeInfo \<Rightarrow> sizeInfo" where
  "countRows R si = foldl (\<lambda>si kv. countChunk (fst kv) (length (snd kv)) si) si R"

lemma countRows_simps [simp]:
  "countRows [] si = si" "countRows (kv # R) si = countRows R (countChunk (fst kv) (length (snd kv)) si)"
  by (simp_all add: countRows_def)

definition bodySizes :: "bytes \<Rightarrow> bytes \<Rightarrow> sizeInfo" where
  "bodySizes p d = (countRows (bodyRows p d) noSizes)\<lparr>IsSplit := length d > splitRecordSize\<rparr>"

text \<open>Writing rows with distinct keys.\<close>

lemma map_add_cons:
  "k \<notin> fst ` set R \<Longrightarrow> (V(k := Some v)) ++ map_of R = V ++ map_of ((k, v) # R)"
  using map_of_eq_None_iff [of R k] by (auto simp: map_add_def fun_eq_iff split: option.splits)

section \<open>The operations under the contract of a transaction\<close>

text \<open>The keys that a record occupies are those its sizes tell.\<close>

definition occupies :: "(bytes \<Rightarrow> bytes option) \<Rightarrow> bytes \<Rightarrow> sizeInfo option \<Rightarrow> bool" where
  "occupies V p old \<longleftrightarrow> (\<forall>k. inRecord p k \<and> V k \<noteq> None \<longrightarrow>
     (\<exists>si. old = Some si \<and> k \<in> recordKey p ` set (recordOffsets si)))"

text \<open>A chunk and the rest after it.\<close>

lemma chunk_rest:
  fixes d :: bytes
  assumes "offset < length d"
    and "e = (if offset + splitRecordSize > length d then length d else offset + splitRecordSize)"
  shows "take (e - offset) (drop offset d) = take splitRecordSize (drop offset d)"
    and "drop e d = drop splitRecordSize (drop offset d)" and "offset < e"
  using assms splitRecordSize_pos by (auto simp: add.commute)

text \<open>The chunks are set one after the other.\<close>

definition setRows :: "'tx writableTransaction \<Rightarrow> 'tx \<Rightarrow> kv list \<Rightarrow> 'tx" where
  "setRows ops tx R = foldl (\<lambda>tx kv. opSet ops tx (fst kv) (snd kv)) tx R"

lemma saveChunks_eq:
  assumes "packable pk"
  shows "saveChunks ops api pooled s ss pk d False (of_nat n) offset =
    (s\<lparr>spTx := setRows ops (spTx s) (splitRows (recordPrefix ss pk) n (drop offset d)),
       spSizes := map_option (countRows (splitRows (recordPrefix ss pk) n (drop offset d))) (spSizes s)\<rparr>, None)"
proof (induction "length d - offset" arbitrary: offset n s rule: less_induct)
  case less
  let ?p = "recordPrefix ss pk"
  show ?case
  proof (cases "offset < length d")
    case False
    then show ?thesis by (simp add: saveChunks.simps setRows_def option.map_ident_strong)
  next
    case True
    define e where "e = (if offset + splitRecordSize > length d then length d else offset + splitRecordSize)"
    note ch = chunk_rest [OF True e_def]
    let ?c = "take splitRecordSize (drop offset d)" and ?k = "recordKey ?p (of_nat n)"
    have R: "splitRows ?p n (drop offset d) = (?k, ?c) # splitRows ?p (Suc n) (drop e d)"
      using True by (subst splitRows.simps) (simp add: ch(2))
    have "saveChunks ops api pooled s ss pk d False (of_nat n) offset =
        saveChunks ops api pooled (setSizes (countChunk ?k (length ?c)) (s\<lparr>spTx := opSet ops (spTx s) ?k ?c\<rparr>)) ss pk d False
          (of_nat (Suc n)) e"
      using True assms
      by (subst saveChunks.simps, unfold Let_def, fold e_def, unfold ch(1)) (simp add: writeSplitValue_def add.commute)
    moreover have "length d - e < length d - offset" using ch(3) True by simp
    ultimately show ?thesis unfolding R
      by (cases "spSizes s") (simp_all add: less.hyps setSizes_def setRows_def del: of_nat_Suc)
  qed
qed

context kv_transaction
begin

lemma clearOffsets_spec:
  assumes "ready tx" and "packable pk"
  shows "\<exists>tx'. clearOffsets ops pooled ss pk offs tx = (tx', None) \<and> ready tx' \<and>
    view tx' = (\<lambda>k. if k \<in> recordKey (recordPrefix ss pk) ` set offs then None else view tx k)"
  using assms(1)
proof (induction offs arbitrary: tx)
  case (Cons i offs)
  let ?tx = "opClear ops tx (recordKey (recordPrefix ss pk) i)"
  have t: "ready ?tx" "view ?tx = (view tx)(recordKey (recordPrefix ss pk) i := None)"
    using clear_view [OF Cons.prems] by auto
  from Cons.IH [OF t(1)] obtain tx' where "clearOffsets ops pooled ss pk offs ?tx = (tx', None)" "ready tx'"
    "view tx' = (\<lambda>k. if k \<in> recordKey (recordPrefix ss pk) ` set offs then None else view ?tx k)" by blast
  with t(2) assms(2) show ?case by (intro exI [of _ tx']) (auto simp: fun_eq_iff)
qed simp

lemma clearRecordKeys_spec:
  assumes "ready tx" and "packable pk" and "pk \<noteq> []"
  shows "\<exists>tx'. clearRecordKeys ops pooled tx ss pk old = (tx', None) \<and> ready tx' \<and>
    view tx' = (\<lambda>k. if k \<in> recordKey (recordPrefix ss pk) ` set (recordOffsets old) then None else view tx k)"
proof -
  let ?p = "recordPrefix ss pk"
  obtain t where t: "opAddWriteConflictRange ops tx (?p @ [0x00]) (?p @ [0xFF]) = (t, None)" "ready t" "view t = view tx"
    using writeConflict_view [OF assms(1), of "?p @ [0x00]" "?p @ [0xFF]"] by auto
  from clearOffsets_spec [OF t(2) assms(2), of pooled ss "recordOffsets old"] t(1) assms(2,3) show ?thesis
    unfolding t(3) by (simp add: clearRecordKeys_def)
qed

lemma clearPrevious_spec:
  assumes "ready (spTx s)" and "packable pk" and "pk \<noteq> []"
    and "clearBySize \<Longrightarrow> occupies (view (spTx s)) (recordPrefix ss pk) old"
  shows "\<exists>tx rc. clearPreviousRecord ops pooled s ss pk clearBySize old = (s\<lparr>spTx := tx, spContext := rc\<rparr>, None) \<and>
    ready tx \<and> view tx = (\<lambda>k. if inRecord (recordPrefix ss pk) k then None else view (spTx s) k)"
proof -
  let ?p = "recordPrefix ss pk"
  let ?r = "if \<not> clearBySize then clearRecordKeyRange ops (spTx s) ss pk
    else case old of Some si \<Rightarrow> clearRecordKeys ops pooled (spTx s) ss pk si | None \<Rightarrow> (spTx s, None)"
  have "\<exists>tx. ?r = (tx, None) \<and> ready tx \<and> view tx = (\<lambda>k. if inRecord ?p k then None else view (spTx s) k)"
  proof (cases clearBySize)
    case False
    then show ?thesis using clearRange_view [OF assms(1)] assms(2,3) by (auto simp: clearRecordKeyRange_def inRecord_def)
  next
    case True
    show ?thesis
    proof (cases old)
      case None
      then have "view (spTx s) = (\<lambda>k. if inRecord ?p k then None else view (spTx s) k)"
        using assms(4) [OF True] by (auto simp: occupies_def fun_eq_iff)
      with True None assms(1) show ?thesis by simp
    next
      case (Some si)
      from clearRecordKeys_spec [OF assms(1-3)] obtain tx where
        tx: "clearRecordKeys ops pooled (spTx s) ss pk si = (tx, None)" "ready tx"
        "view tx = (\<lambda>k. if k \<in> recordKey ?p ` set (recordOffsets si) then None else view (spTx s) k)" by blast
      have "view tx = (\<lambda>k. if inRecord ?p k then None else view (spTx s) k)"
        using assms(4) [OF True] Some unfolding tx(3) by (auto simp: occupies_def fun_eq_iff)
      with True Some tx show ?thesis by simp
    qed
  qed
  then obtain tx where tx: "?r = (tx, None)" "ready tx" "view tx = (\<lambda>k. if inRecord ?p k then None else view (spTx s) k)" by blast
  have s: "s\<lparr>spTx := tx\<rparr> = s\<lparr>spTx := tx, spContext := spContext s\<rparr>" by simp
  show ?thesis
  proof (cases "spContext s")
    case None
    then show ?thesis using tx s by (intro exI [of _ tx] exI [of _ None]) (simp add: clearPreviousRecord_def)
  next
    case (Some rc)
    then show ?thesis using tx assms(2)
      by (intro exI [of _ tx] exI [of _ "Some (dropQueuedVersion rc (recordKey ?p recordVersionSuffix))"])
        (simp add: clearPreviousRecord_def)
  qed
qed

lemma setRows_spec:
  assumes "ready tx" and "distinct (map fst R)"
  shows "ready (setRows ops tx R) \<and> view (setRows ops tx R) = view tx ++ map_of R"
  using assms
proof (induction R arbitrary: tx)
  case (Cons kv R)
  obtain k v where kv: "kv = (k, v)" by (cases kv)
  have t: "ready (opSet ops tx k v)" "view (opSet ops tx k v) = (view tx)(k := Some v)" using set_view [OF Cons.prems(1)] by auto
  have "k \<notin> fst ` set R" using Cons.prems(2) kv by simp
  then have "view (opSet ops tx k v) ++ map_of R = view tx ++ map_of (kv # R)"
    unfolding t(2) kv by (rule map_add_cons)
  with Cons.IH [OF t(1)] Cons.prems(2) kv show ?case by (simp add: setRows_def del: map_of.simps)
qed (simp add: setRows_def)

lemma saveChunks_spec:
  assumes "packable pk" and "ready (spTx s)"
    and "n + length (splitRows (recordPrefix ss pk) n (drop offset d)) \<le> 2 ^ 63"
  shows "\<exists>tx. saveChunks ops api pooled s ss pk d False (of_nat n) offset =
      (s\<lparr>spTx := tx, spSizes := map_option (countRows (splitRows (recordPrefix ss pk) n (drop offset d))) (spSizes s)\<rparr>, None) \<and>
    ready tx \<and> view tx = view (spTx s) ++ map_of (splitRows (recordPrefix ss pk) n (drop offset d))"
  using saveChunks_eq [OF assms(1)] setRows_spec [OF assms(2)] splitRows_sorted [OF assms(3)]
  by (metis strict_sorted_iff)

end

lemma elem_packable_complete: "elem_packable e \<Longrightarrow> elem_incomplete e = 0"
  by (induction e) (auto simp: count_0_iff)

lemma packable_complete: "packable t \<Longrightarrow> HasIncompleteVersionstamp t = (False, None)"
  using count_0_iff [of t] by (auto simp: HasIncompleteVersionstamp_def packable_def elem_packable_complete)

lemma map_add_record:
  "(\<lambda>k. if inRecord p k then None else V k) ++ map_of (bodyRows p d) =
     (\<lambda>k. if inRecord p k then map_of (bodyRows p d) k else V k)"
proof
  fix k
  have "inRecord p k" if "map_of (bodyRows p d) k = Some v" for v
    using map_of_SomeD [OF that] by (intro bodyRows_inRecord) force
  then show "((\<lambda>k. if inRecord p k then None else V k) ++ map_of (bodyRows p d)) k =
      (if inRecord p k then map_of (bodyRows p d) k else V k)"
    by (auto simp: map_add_def split: option.splits)
qed

lemma unsplit_sizes: "length d \<le> splitRecordSize \<Longrightarrow> unsplitSizes (recordKey p unsplitRecord) (length d) si = bodySizes p d"
  by (cases si) (simp add: unsplitSizes_def bodySizes_def bodyRows_def countChunk_def noSizes_def)

context kv_transaction
begin

lemma save_long:
  assumes "packable pk" "pk \<noteq> []" and "ready (spTx s)" and "length d < 2 ^ 63" and "length d > splitRecordSize"
    and "clearBySize \<Longrightarrow> occupies (view (spTx s)) (recordPrefix ss pk) old"
  shows "\<exists>s'. saveSplit ops api pooled s ss pk d True omit clearBySize old = (s', None) \<and> ready (spTx s') \<and>
    view (spTx s') = (\<lambda>k. if inRecord (recordPrefix ss pk) k then map_of (bodyRows (recordPrefix ss pk) d) k else view (spTx s) k) \<and>
    spSizes s' = map_option (\<lambda>_. bodySizes (recordPrefix ss pk) d) (spSizes s)"
proof -
  let ?p = "recordPrefix ss pk" and ?R = "splitRows (recordPrefix ss pk) 1 d"
  obtain tx rc where c: "clearPreviousRecord ops pooled s ss pk clearBySize old = (s\<lparr>spTx := tx, spContext := rc\<rparr>, None)"
    "ready tx" "view tx = (\<lambda>k. if inRecord ?p k then None else view (spTx s) k)"
    using clearPrevious_spec [OF assms(3,1,2,6)] by blast
  let ?s = "setSizes (\<lambda>_. noSizes) (s\<lparr>spTx := tx, spContext := rc\<rparr>)"
  have b: "1 + length (splitRows ?p 1 (drop 0 d)) \<le> 2 ^ 63" using length_splitRows [of ?p 1 d] assms(4) by simp
  have r: "ready (spTx ?s)" "view (spTx ?s) = view tx" using c(2) by (simp_all add: setSizes_def)
  obtain t where t: "saveChunks ops api pooled ?s ss pk d False 1 0 =
      (?s\<lparr>spTx := t, spSizes := map_option (countRows ?R) (spSizes ?s)\<rparr>, None)"
    "ready t" "view t = view tx ++ map_of ?R"
    using saveChunks_spec [OF assms(1) r(1) b, of api pooled] r(2) by auto
  have R: "?R = bodyRows ?p d" using assms(5) by (simp add: bodyRows_def)
  have "view t = (\<lambda>k. if inRecord ?p k then map_of (bodyRows ?p d) k else view (spTx s) k)"
    unfolding t(3) c(3) R by (rule map_add_record)
  moreover have "saveSplit ops api pooled s ss pk d True omit clearBySize old =
      (setSizes (\<lambda>si. si\<lparr>IsSplit := True\<rparr>) (?s\<lparr>spTx := t, spSizes := map_option (countRows ?R) (spSizes ?s)\<rparr>), None)"
    using assms(2,5) c(1) t(1) by (simp add: saveSplit_def packable_complete assms(1))
  ultimately show ?thesis using t(2) assms(5) unfolding R
    by (cases "spSizes s") (auto simp: setSizes_def bodySizes_def)
qed

lemma save_short:
  assumes "packable pk" "pk \<noteq> []" and "ready (spTx s)" and "length d \<le> splitRecordSize" and "splitLong \<or> \<not> omit"
    and "occupies (view (spTx s)) (recordPrefix ss pk) old \<or> \<not> clearBySize \<and> splitLong"
  shows "\<exists>s'. saveSplit ops api pooled s ss pk d splitLong omit clearBySize old = (s', None) \<and> ready (spTx s') \<and>
    view (spTx s') = (\<lambda>k. if inRecord (recordPrefix ss pk) k then map_of (bodyRows (recordPrefix ss pk) d) k else view (spTx s) k) \<and>
    spSizes s' = map_option (\<lambda>_. bodySizes (recordPrefix ss pk) d) (spSizes s)"
proof -
  let ?p = "recordPrefix ss pk" and ?k = "recordKey (recordPrefix ss pk) unsplitRecord"
  let ?V = "\<lambda>k. if inRecord ?p k then map_of (bodyRows ?p d) k else view (spTx s) k"
  let ?c = "splitLong \<or> old = None \<or> VersionedInline (the old) \<or> IsSplit (the old)"
  have R: "bodyRows ?p d = [(?k, d)]" using assms(4) by (simp add: bodyRows_def)
  have "\<exists>tx rc. (if ?c then clearPreviousRecord ops pooled s ss pk clearBySize old else (s, None)) =
      (s\<lparr>spTx := tx, spContext := rc\<rparr>, None) \<and> ready tx \<and> (view tx)(?k := Some d) = ?V"
  proof (cases ?c)
    case True
    have "clearBySize \<Longrightarrow> occupies (view (spTx s)) ?p old" using assms(6) by blast
    from clearPrevious_spec [OF assms(3,1,2) this] obtain tx rc where
      c: "clearPreviousRecord ops pooled s ss pk clearBySize old = (s\<lparr>spTx := tx, spContext := rc\<rparr>, None)"
      "ready tx" "view tx = (\<lambda>k. if inRecord ?p k then None else view (spTx s) k)" by blast
    have "(view tx)(?k := Some d) = ?V" unfolding c(3) R by (auto simp: fun_eq_iff)
    with c True show ?thesis by metis
  next
    case False
    then obtain si where si: "old = Some si" "\<not> VersionedInline si" "\<not> IsSplit si" by auto
    have "recordOffsets si = [unsplitRecord]" using si by (simp add: recordOffsets_def)
    then have "(view (spTx s))(?k := Some d) = ?V"
      using assms(6) si(1) False unfolding R by (auto simp: occupies_def fun_eq_iff)
    with False assms(3) show ?thesis by (intro exI [of _ "spTx s"] exI [of _ "spContext s"]) auto
  qed
  then obtain tx rc where c: "(if ?c then clearPreviousRecord ops pooled s ss pk clearBySize old else (s, None)) =
      (s\<lparr>spTx := tx, spContext := rc\<rparr>, None)" "ready tx" "(view tx)(?k := Some d) = ?V" by blast
  have "\<not> length d > splitRecordSize" "\<not> (\<not> splitLong \<and> omit)" using assms(4,5) by auto
  then have "saveSplit ops api pooled s ss pk d splitLong omit clearBySize old =
      (setSizes (unsplitSizes ?k (length d)) (s\<lparr>spContext := rc, spTx := opSet ops tx ?k d\<rparr>), None)"
    using assms(2) c(1) by (simp add: saveSplit_def packable_complete assms(1) del: de_Morgan_conj)
  with set_view [OF c(2), of ?k d] c(3) show ?thesis
    by (cases "spSizes s") (simp_all add: setSizes_def unsplit_sizes [OF assms(4)])
qed

end

subsection \<open>Loading\<close>

lemma rowsIn_unique:
  assumes "rowsIn V b e R" and "rowsIn V b e R'"
  shows "R = R'"
  using assms by (intro rows_eqI) (auto simp: rowsIn_def)

text \<open>The value of a version under the suffix -1, with its row.\<close>

definition versionRows :: "bytes \<Rightarrow> bytes option \<Rightarrow> kv list" where
  "versionRows p vb = (case vb of None \<Rightarrow> [] | Some x \<Rightarrow> [(recordKey p recordVersionSuffix, x)])"

lemma record_sorted:
  assumes "length d < 2 ^ 63"
  shows "sorted_wrt (<) (map fst (versionRows p vb @ bodyRows p d))"
proof -
  have "recordKey p recordVersionSuffix < k" if "k \<in> fst ` set (bodyRows p d)" for k
  proof -
    have "k \<in> set (map fst (splitRows p 1 d)) \<or> k = recordKey p unsplitRecord"
      using that by (auto simp: bodyRows_def split: if_splits)
    then obtain i where i: "k = recordKey p (of_nat i)" "i < 2 ^ 63"
      unfolding splitRows_keys using length_splitRows [of p 1 d] assms by (auto intro: that [of 0])
    show ?thesis unfolding i(1) by (rule recordKey_less) (use sint_of_nat64 [OF i(2)] in simp)
  qed
  then show ?thesis using bodyRows_sorted [OF assms, of p]
    by (auto simp: versionRows_def sorted_wrt_append split: option.splits)
qed

lemma record_rowsIn:
  assumes "length d < 2 ^ 63" and "\<And>k. inRecord p k \<Longrightarrow> V k = map_of (versionRows p vb @ bodyRows p d) k"
  shows "rowsIn V (p @ [0x00]) (p @ [0xFF]) (versionRows p vb @ bodyRows p d)"
proof -
  let ?R = "versionRows p vb @ bodyRows p d"
  have "map_of ?R k = None" if "\<not> inRecord p k" for k
    using that bodyRows_inRecord [of k p d] by (auto simp: map_of_eq_None_iff versionRows_def split: option.splits)
  then have "map_of ?R k = (if inRecord p k then V k else None)" for k using assms(2) by simp
  then show ?thesis using record_sorted [OF assms(1)] by (simp add: rowsIn_def inRecord_def)
qed

lemma countChunk_split: "countChunk k n (si\<lparr>IsSplit := b\<rparr>) = (countChunk k n si)\<lparr>IsSplit := b\<rparr>"
  by (cases si) (simp add: countChunk_def)

lemma countRows_split: "countRows R (si\<lparr>IsSplit := b\<rparr>) = (countRows R si)\<lparr>IsSplit := b\<rparr>"
  by (induction R arbitrary: si) (simp_all add: countChunk_split)

lemma word_index:
  assumes "0 < n" and "n < 2 ^ 63"
  shows "of_nat n \<noteq> (0 :: 64 word)" and "of_nat n = (1 :: 64 word) \<longleftrightarrow> n = 1"
    and "of_nat (n - 1) + 1 = (of_nat n :: 64 word)"
proof -
  have n: "sint (of_nat n :: 64 word) = int n" using assms(2) by (rule sint_of_nat64)
  show "of_nat n \<noteq> (0 :: 64 word)"
  proof
    assume "of_nat n = (0 :: 64 word)"
    with n have "int n = sint (0 :: 64 word)" by simp
    with assms(1) show False by simp
  qed
  show "of_nat n = (1 :: 64 word) \<longleftrightarrow> n = 1"
  proof
    assume "of_nat n = (1 :: 64 word)"
    with n have "int n = sint (1 :: 64 word)" by simp
    then show "n = 1" by simp
  qed simp
  show "of_nat (n - 1) + 1 = (of_nat n :: 64 word)" using assms(1) by (cases n) simp_all
qed

lemma readRows_rest:
  assumes "2 \<le> n" and "n + length (splitRows p n d) \<le> 2 ^ 63" and "rdLastIndex st = of_nat (n - 1)" and "rdResult st = Some x"
  shows "\<exists>last. readRows (length p) st (splitRows p n d) =
    Inr (st\<lparr>rdResult := Some (x @ d), rdLastIndex := last, rdSizes := countRows (splitRows p n d) (rdSizes st)\<rparr>)"
  using assms
proof (induction p n d arbitrary: st x rule: splitRows.induct)
  case (1 p n d)
  show ?case
  proof (cases "d = []")
    case True
    then show ?thesis using 1(4,5) by (intro exI [of _ "rdLastIndex st"]) simp
  next
    case False
    let ?k = "recordKey p (of_nat n)" and ?c = "take splitRecordSize d" and ?d = "drop splitRecordSize d"
    have R: "splitRows p n d = (?k, ?c) # splitRows p (Suc n) ?d" using False by (subst splitRows.simps) simp
    have b: "Suc n + length (splitRows p (Suc n) ?d) \<le> 2 ^ 63" using 1(3) R by simp
    let ?st = "st\<lparr>rdResult := Some (x @ ?c), rdLastIndex := of_nat n, rdSizes := countChunk ?k (length ?c) (rdSizes st)\<rparr>"
    note w = word_index [of n]
    have row: "readRow (length p) st (?k, ?c) = Inr ?st"
      using w 1(2,4,5) b by (simp add: readRow_def Let_def)
    have "\<exists>last. readRows (length p) ?st (splitRows p (Suc n) ?d) =
        Inr (?st\<lparr>rdResult := Some ((x @ ?c) @ ?d), rdLastIndex := last,
          rdSizes := countRows (splitRows p (Suc n) ?d) (rdSizes ?st)\<rparr>)"
      by (rule 1(1) [OF False _ b]) (use 1(2) in simp_all)
    then show ?thesis unfolding R using row by auto
  qed
qed

lemma readRows_body:
  assumes "length d < 2 ^ 63" and "rdLastIndex st = 0" and "rdResult st = None"
  shows "\<exists>last. readRows (length p) st (bodyRows p d) =
    Inr (st\<lparr>rdResult := Some d, rdLastIndex := last,
      rdSizes := (countRows (bodyRows p d) (rdSizes st))\<lparr>IsSplit := length d > splitRecordSize\<rparr>\<rparr>)"
proof (cases "length d > splitRecordSize")
  case False
  then show ?thesis using assms
    by (intro exI [of _ 0]) (simp add: bodyRows_def readRow_def countChunk_split)
next
  case True
  let ?k = "recordKey p 1" and ?c = "take splitRecordSize d" and ?d = "drop splitRecordSize d"
  have R: "splitRows p 1 d = (?k, ?c) # splitRows p 2 ?d" using True by (subst splitRows.simps) (auto simp: numeral_2_eq_2)
  let ?st = "st\<lparr>rdResult := Some ?c, rdLastIndex := 1, rdSizes := countChunk ?k (length ?c) ((rdSizes st)\<lparr>IsSplit := True\<rparr>)\<rparr>"
  have row: "readRow (length p) st (?k, ?c) = Inr ?st" using assms by (simp add: readRow_def Let_def)
  have "2 + length (splitRows p 2 ?d) \<le> 2 ^ 63" using length_splitRows [of p 1 d] R assms(1) by simp
  from readRows_rest [OF _ this, of ?st ?c] obtain last where "readRows (length p) ?st (splitRows p 2 ?d) =
      Inr (?st\<lparr>rdResult := Some (?c @ ?d), rdLastIndex := last, rdSizes := countRows (splitRows p 2 ?d) (rdSizes ?st)\<rparr>)" by auto
  with True row show ?thesis unfolding bodyRows_def R
    by (intro exI [of _ last]) (simp add: countRows_split countChunk_split)
qed

lemma readRow_version:
  assumes "unpackVersion x = Inr v" and "rdLastIndex st = 0"
  shows "readRow (length p) st (recordKey p recordVersionSuffix, x) =
    Inr (st\<lparr>rdVersion := Some v, rdSizes := countChunk (recordKey p recordVersionSuffix) (length x) ((rdSizes st)\<lparr>VersionedInline := True\<rparr>)\<rparr>)"
  using assms by (simp add: readRow_def)

subsection \<open>What a record is\<close>

text \<open>
  The record under a primary key: none, or its bytes with the stored value of its inline version; and the
  sizes that belong to it.
\<close>

definition holdsRecord :: "(bytes \<Rightarrow> bytes option) \<Rightarrow> bytes \<Rightarrow> (bytes option \<times> bytes) option \<Rightarrow> bool" where
  "holdsRecord V p r \<longleftrightarrow> (\<forall>k. inRecord p k \<longrightarrow>
     V k = (case r of None \<Rightarrow> None | Some (vb, d) \<Rightarrow> map_of (versionRows p vb @ bodyRows p d) k))"

definition recordSizes :: "bytes \<Rightarrow> bytes option \<Rightarrow> bytes \<Rightarrow> sizeInfo" where
  "recordSizes p vb d = (countRows (versionRows p vb @ bodyRows p d) noSizes)
     \<lparr>IsSplit := length d > splitRecordSize, VersionedInline := vb \<noteq> None\<rparr>"

definition sizesOf :: "bytes \<Rightarrow> (bytes option \<times> bytes) option \<Rightarrow> sizeInfo option" where
  "sizesOf p r = map_option (\<lambda>(vb, d). recordSizes p vb d) r"

lemma countRows_count: "KeyCount (countRows R si) = KeyCount si + length R"
  by (induction R arbitrary: si) (simp_all add: countChunk_def)

lemma countRows_flags: "VersionedInline (countRows R si) = VersionedInline si" "IsSplit (countRows R si) = IsSplit si"
  by (induction R arbitrary: si) (simp_all add: countChunk_def)

lemma countRows_append: "countRows (R @ R') si = countRows R' (countRows R si)"
  by (simp add: countRows_def)

lemma recordSizes_body: "recordSizes p None d = bodySizes p d"
  by (simp add: recordSizes_def bodySizes_def versionRows_def) (simp add: sizeInfo.splits countRows_flags noSizes_def)

lemma offsetsLoop_eq: "offsetsLoop n cur offs = offs @ map (\<lambda>i. cur + of_nat i) [0 ..< n - length offs]"
proof (induction n cur offs rule: offsetsLoop.induct)
  case (1 n cur offs)
  show ?case
  proof (cases "length offs < n")
    case True
    then have "[0 ..< n - length offs] = 0 # map Suc [0 ..< n - length (offs @ [cur])]"
      by (metis Suc_diff_Suc length_append_singleton map_Suc_upt upt_conv_Cons zero_less_Suc)
    with 1 True show ?thesis by (subst offsetsLoop.simps) (simp add: add.assoc)
  qed (subst offsetsLoop.simps, simp)
qed

lemma recordOffsets_sizes:
  "recordOffsets (recordSizes p vb d) =
     (if vb \<noteq> None then [recordVersionSuffix] else []) @
     (if length d > splitRecordSize then map (\<lambda>i. 1 + of_nat i) [0 ..< length (splitRows p 1 d)] else [unsplitRecord])"
  by (cases vb) (auto simp: recordOffsets_def recordSizes_def countRows_count offsetsLoop_eq versionRows_def noSizes_def bodyRows_def countChunk_def)

lemma splitRows_keys1:
  "map fst (splitRows p 1 d) = map (recordKey p) (map (\<lambda>i. 1 + of_nat i) [0 ..< length (splitRows p 1 d)])"
proof -
  let ?l = "length (splitRows p 1 d)"
  have "[1 ..< 1 + ?l] = map Suc [0 ..< ?l]" by (simp add: map_Suc_upt)
  with splitRows_keys [of p 1 d] show ?thesis by (simp del: upt_Suc)
qed

lemma occupies_record:
  assumes "holdsRecord V p r"
  shows "occupies V p (sizesOf p r)"
proof (cases r)
  case None
  then show ?thesis using assms by (auto simp: holdsRecord_def occupies_def)
next
  case (Some q)
  obtain vb d where q: "q = (vb, d)" by (cases q)
  have keys: "k \<in> recordKey p ` set (recordOffsets (recordSizes p vb d))" if "k \<in> fst ` set (versionRows p vb @ bodyRows p d)" for k
  proof -
    have "k \<in> fst ` set (versionRows p vb) \<or> k \<in> set (map fst (bodyRows p d))" using that by auto
    then show ?thesis using arg_cong [OF splitRows_keys1 [of p d], of set] unfolding recordOffsets_sizes
      by (auto simp: versionRows_def bodyRows_def split: option.splits if_splits)
  qed
  have "k \<in> fst ` set (versionRows p vb @ bodyRows p d)" if "inRecord p k" "V k \<noteq> None" for k
    using assms Some q that map_of_eq_None_iff [of "versionRows p vb @ bodyRows p d" k]
    by (simp add: holdsRecord_def del: map_of_append set_append)
  with keys Some q show ?thesis by (simp add: occupies_def sizesOf_def del: set_append)
qed

lemma countChunk_inline: "countChunk k n (si\<lparr>VersionedInline := b\<rparr>) = (countChunk k n si)\<lparr>VersionedInline := b\<rparr>"
  by (cases si) (simp add: countChunk_def)

lemma countRows_inline: "countRows R (si\<lparr>VersionedInline := b\<rparr>) = (countRows R si)\<lparr>VersionedInline := b\<rparr>"
  by (induction R arbitrary: si) (simp_all add: countChunk_inline)

lemma finish_rows:
  assumes "length d < 2 ^ 63" and "vb = None \<or> unpackVersion (the vb) = Inr v"
  shows "finishLoad \<lparr>loadPrefix = p, loadValue = None, loadRange = (versionRows p vb @ bodyRows p d, None), loadVersion = None,
      loadLocalSize = noSizes, loadLocalErr = None\<rparr> si =
    Inr (recordSizes p vb d, Some d, map_option (\<lambda>_. v) vb)"
proof (cases vb)
  case None
  let ?st = "\<lparr>rdResult = None, rdVersion = None, rdLastIndex = 0, rdSizes = noSizes\<rparr>"
  obtain last where "readRows (length p) ?st (bodyRows p d) =
      Inr (?st\<lparr>rdResult := Some d, rdLastIndex := last, rdSizes := bodySizes p d\<rparr>)"
    using readRows_body [OF assms(1), of ?st p] by (auto simp: bodySizes_def)
  with None show ?thesis by (simp add: finishLoad_def readRange_def versionRows_def recordSizes_body)
next
  case (Some x)
  let ?k = "recordKey p recordVersionSuffix"
  let ?st = "\<lparr>rdResult = None, rdVersion = None, rdLastIndex = 0, rdSizes = noSizes\<rparr>"
  let ?st' = "?st\<lparr>rdVersion := Some v, rdSizes := countChunk ?k (length x) (noSizes\<lparr>VersionedInline := True\<rparr>)\<rparr>"
  have "readRow (length p) ?st (?k, x) = Inr ?st'" using readRow_version [of x v ?st p] assms(2) Some by simp
  moreover obtain last where "readRows (length p) ?st' (bodyRows p d) =
      Inr (?st'\<lparr>rdResult := Some d, rdLastIndex := last,
        rdSizes := (countRows (bodyRows p d) (rdSizes ?st'))\<lparr>IsSplit := length d > splitRecordSize\<rparr>\<rparr>)"
    using readRows_body [OF assms(1), of ?st' p] by auto
  moreover have "(countRows (bodyRows p d) (countChunk ?k (length x) (noSizes\<lparr>VersionedInline := True\<rparr>)))
      \<lparr>IsSplit := length d > splitRecordSize\<rparr> = recordSizes p vb d"
    using Some by (simp add: recordSizes_def versionRows_def countChunk_inline countRows_inline)
  ultimately show ?thesis using Some by (simp add: finishLoad_def readRange_def versionRows_def)
qed

context kv_transaction
begin

lemma load_rows:
  assumes "ready tx" and "card (dom (view tx)) \<le> maxRows" and "packable pk" and "splitLong \<or> \<not> omit"
    and "rowsIn (view tx) (recordPrefix ss pk @ [0x00]) (recordPrefix ss pk @ [0xFF]) R"
  shows "\<exists>tx'. startLoadWithSplit ops pooled tx ss pk splitLong omit None snapshot = (tx', Inr
      \<lparr>loadPrefix = recordPrefix ss pk, loadValue = None, loadRange = (R, None), loadVersion = None,
       loadLocalSize = noSizes, loadLocalErr = None\<rparr>)"
proof -
  let ?p = "recordPrefix ss pk"
  obtain tx' R' where r: "opGetRange ops tx (?p @ [0x00]) (?p @ [0xFF]) \<lparr>Limit = 0, Mode = -1, Reverse = False\<rparr> snapshot = (tx', Inr R')"
    "rowsIn (view tx) (?p @ [0x00]) (?p @ [0xFF]) R'"
    using range_all [OF assms(1,2), of "\<lparr>Limit = 0, Mode = -1, Reverse = False\<rparr>" "?p @ [0x00]" "?p @ [0xFF]" snapshot] by auto
  have "R' = R" using rowsIn_unique [OF r(2) assms(5)] .
  with r(1) assms(3,4) show ?thesis by (auto simp: startLoadWithSplit_def recordRangeBounds_def Let_def)
qed

lemma load_record:
  assumes "ready tx" and "card (dom (view tx)) \<le> maxRows" and "packable pk" and "splitLong \<or> \<not> omit"
    and "length d < 2 ^ 63" and "holdsRecord (view tx) (recordPrefix ss pk) (Some (vb, d))"
    and "vb = None \<or> unpackVersion (the vb) = Inr v"
  shows "\<exists>tx' ld. startLoadWithSplit ops pooled tx ss pk splitLong omit None snapshot = (tx', Inr ld) \<and>
    (\<forall>si. finishLoad ld si = Inr (recordSizes (recordPrefix ss pk) vb d, Some d, map_option (\<lambda>_. v) vb))"
proof -
  have "rowsIn (view tx) (recordPrefix ss pk @ [0x00]) (recordPrefix ss pk @ [0xFF])
      (versionRows (recordPrefix ss pk) vb @ bodyRows (recordPrefix ss pk) d)"
    using assms(6) by (intro record_rowsIn [OF assms(5)]) (simp add: holdsRecord_def del: map_of_append)
  from load_rows [OF assms(1-4) this] show ?thesis using finish_rows [OF assms(5,7)] by blast
qed

lemma load_nothing:
  assumes "ready tx" and "card (dom (view tx)) \<le> maxRows" and "packable pk" and "splitLong \<or> \<not> omit"
    and "holdsRecord (view tx) (recordPrefix ss pk) None"
  shows "snd (loadWithSplit ops pooled tx ss pk splitLong omit snapshot) = Inr (noSizes, None)"
proof -
  have "rowsIn (view tx) (recordPrefix ss pk @ [0x00]) (recordPrefix ss pk @ [0xFF]) []"
    using assms(5) by (simp add: rowsIn_def holdsRecord_def inRecord_def)
  from load_rows [OF assms(1-4) this, of pooled snapshot] show ?thesis
    by (auto simp: loadWithSplit_def finishLoad_def readRange_def)
qed

lemma delete_record:
  assumes "ready tx" and "packable pk" and "pk \<noteq> []" and "splitLong \<or> \<not> omit"
    and "holdsRecord (view tx) (recordPrefix ss pk) r"
  shows "\<exists>tx'. deleteSplit ops pooled tx ss pk splitLong omit (sizesOf (recordPrefix ss pk) r) = (tx', Inr (r \<noteq> None)) \<and>
    ready tx' \<and> view tx' = (\<lambda>k. if inRecord (recordPrefix ss pk) k then None else view tx k)"
proof (cases r)
  case None
  then have "view tx = (\<lambda>k. if inRecord (recordPrefix ss pk) k then None else view tx k)"
    using assms(5) by (auto simp: holdsRecord_def fun_eq_iff)
  with None assms show ?thesis by (simp add: deleteSplit_def sizesOf_def)
next
  case (Some q)
  then obtain si where si: "sizesOf (recordPrefix ss pk) r = Some si" by (simp add: sizesOf_def)
  from clearRecordKeys_spec [OF assms(1-3)] obtain tx' where
    c: "clearRecordKeys ops pooled tx ss pk si = (tx', None)" "ready tx'"
    "view tx' = (\<lambda>k. if k \<in> recordKey (recordPrefix ss pk) ` set (recordOffsets si) then None else view tx k)" by blast
  have "view tx' = (\<lambda>k. if inRecord (recordPrefix ss pk) k then None else view tx k)"
    using occupies_record [OF assms(5)] unfolding c(3) si occupies_def by (auto simp: fun_eq_iff)
  moreover have "\<not> (\<not> splitLong \<and> omit)" using assms(4) by simp
  ultimately show ?thesis using c(1,2) si Some assms(3) by (simp add: deleteSplit_def del: de_Morgan_conj)
qed

end

section \<open>Sizes without writing\<close>

lemma dryRunChunks_eq:
  assumes "packable pk"
  shows "dryRunChunks pooled ss pk d (of_nat n) offset si =
    Inr (countRows (splitRows (recordPrefix ss pk) n (drop offset d)) si)"
proof (induction "length d - offset" arbitrary: offset n si rule: less_induct)
  case less
  show ?case
  proof (cases "offset < length d")
    case True
    let ?k = "recordKey (recordPrefix ss pk) (of_nat n)" and ?c = "take splitRecordSize (drop offset d)"
    have R: "splitRows (recordPrefix ss pk) n (drop offset d) =
        (?k, ?c) # splitRows (recordPrefix ss pk) (Suc n) (drop (offset + splitRecordSize) d)"
      using True by (subst splitRows.simps) (simp add: add.commute)
    have "min (offset + splitRecordSize) (length d) - offset = length ?c" using True by simp
    moreover have "length d - (offset + splitRecordSize) < length d - offset" using True by (simp add: splitRecordSize_def)
    moreover have "of_nat n + 1 = (of_nat (Suc n) :: 64 word)" by simp
    ultimately show ?thesis using True assms less.hyps unfolding R
      by (subst dryRunChunks.simps) (simp del: length_take length_drop of_nat_Suc)
  qed (simp add: dryRunChunks.simps)
qed

section \<open>No torn records\<close>

text \<open>The rows of a load with their indices, without the version.\<close>

definition dataRows :: "64 word list \<Rightarrow> kv list \<Rightarrow> (64 word \<times> bytes) list" where
  "dataRows idx R = filter (\<lambda>(i, v). i \<noteq> recordVersionSuffix) (zip idx (map snd R))"

definition wholeData :: "(64 word \<times> bytes) list \<Rightarrow> bool" where
  "wholeData D \<longleftrightarrow> map fst D = [unsplitRecord] \<or> D \<noteq> [] \<and> map fst D = map of_nat [1 ..< 1 + length D]"

text \<open>The state of the loop tells what has been read.\<close>

definition readInv :: "readState \<Rightarrow> (64 word \<times> bytes) list \<Rightarrow> bool" where
  "readInv st D \<longleftrightarrow> length D < 2 ^ 63 \<and>
     (if D = [] then rdResult st = None \<and> rdLastIndex st = 0
      else rdResult st = Some (concat (map snd D)) \<and>
        (map fst D = [unsplitRecord] \<and> rdLastIndex st = 0 \<or>
         map fst D = map of_nat [1 ..< 1 + length D] \<and> rdLastIndex st = of_nat (length D)))"

lemma nonneg_index: "n < 2 ^ 63 \<Longrightarrow> of_nat n \<noteq> (-1 :: 64 word)"
proof
  assume "n < 2 ^ 63" and "of_nat n = (-1 :: 64 word)"
  then have "int n = sint (-1 :: 64 word)" using sint_of_nat64 [of n] by simp
  then show False by simp
qed

lemma readRow_inv:
  assumes "readRow n st kv = Inr st'" and "readInv st D" and "length D + 1 < 2 ^ 63"
  shows "\<exists>i. splitIndexOf n (fst kv) = Inr i \<and>
    readInv st' (D @ (if i = recordVersionSuffix then [] else [(i, snd kv)]))"
proof -
  obtain i where i: "splitIndexOf n (fst kv) = Inr i" using assms(1) by (auto simp: readRow_def split: sum.splits)
  define m where "m = (if map fst D = [unsplitRecord] then 0 else length D)"
  have m: "rdLastIndex st = of_nat m" "m + 1 < 2 ^ 63"
    using assms(2,3) by (auto simp: readInv_def m_def split: if_splits)
  have last: "rdLastIndex st + 1 = of_nat (m + 1)" "rdLastIndex st \<noteq> -1" "rdLastIndex st + 1 \<noteq> -1"
    using nonneg_index [of m] nonneg_index [of "m + 1"] m by simp_all
  consider (unsplit) "i = 0" "rdResult st = None" "rdResult st' = Some (snd kv)" "rdLastIndex st' = rdLastIndex st"
    | (first) "i = 1" "rdResult st = None" "rdResult st' = Some (snd kv)" "rdLastIndex st' = 1"
    | (chunk) "i = rdLastIndex st + 1" "i \<noteq> 0" "i \<noteq> 1" "rdResult st' = Some (presentBytes (rdResult st) @ snd kv)" "rdLastIndex st' = i"
    | (version) "i = -1" "rdResult st' = rdResult st" "rdLastIndex st' = rdLastIndex st"
    using assms(1) i last(2,3) by (auto simp: readRow_def Let_def split: if_splits sum.splits)
  then have "readInv st' (D @ (if i = recordVersionSuffix then [] else [(i, snd kv)]))"
  proof cases
    case unsplit
    then have "D = []" using assms(2) by (auto simp: readInv_def split: if_splits)
    with unsplit assms(2) show ?thesis by (simp add: readInv_def)
  next
    case first
    then have "D = []" using assms(2) by (auto simp: readInv_def split: if_splits)
    with first assms(2) show ?thesis by (simp add: readInv_def)
  next
    case chunk
    then have "m \<noteq> 0" using m(1) by (intro notI) simp
    then have D: "D \<noteq> []" "map fst D = map of_nat [1 ..< 1 + length D]" "rdResult st = Some (concat (map snd D))" "m = length D"
      using assms(2) by (auto simp: m_def readInv_def split: if_splits)
    then show ?thesis using chunk assms(3) last(3) m(1) by (auto simp: readInv_def)
  next
    case version
    have "readInv st' D" using assms(2) unfolding readInv_def version(2,3) .
    with version(1) show ?thesis by simp
  qed
  with i show ?thesis by blast
qed

lemma readRows_inv:
  "readRows n st R = Inr st' \<Longrightarrow> readInv st D \<Longrightarrow> length D + length R < 2 ^ 63 \<Longrightarrow>
     \<exists>idx. length idx = length R \<and> (\<forall>j < length R. splitIndexOf n (fst (R ! j)) = Inr (idx ! j)) \<and>
       readInv st' (D @ dataRows idx R)"
proof (induction R arbitrary: st D)
  case Nil
  then show ?case by (simp add: dataRows_def)
next
  case (Cons kv R)
  obtain st1 where st1: "readRow n st kv = Inr st1" "readRows n st1 R = Inr st'"
    using Cons.prems(1) by (auto split: sum.splits)
  obtain i where i: "splitIndexOf n (fst kv) = Inr i"
      "readInv st1 (D @ (if i = recordVersionSuffix then [] else [(i, snd kv)]))"
    using readRow_inv [OF st1(1) Cons.prems(2)] Cons.prems(3) by auto
  have "length (D @ (if i = recordVersionSuffix then [] else [(i, snd kv)])) + length R < 2 ^ 63" using Cons.prems(3) by simp
  then obtain idx where idx: "length idx = length R" "\<forall>j < length R. splitIndexOf n (fst (R ! j)) = Inr (idx ! j)"
      "readInv st' ((D @ (if i = recordVersionSuffix then [] else [(i, snd kv)])) @ dataRows idx R)"
    using Cons.IH [OF st1(2) i(2)] by blast
  show ?case
    using i(1) idx by (intro exI [of _ "i # idx"]) (auto simp: dataRows_def nth_Cons split: nat.splits)
qed

section \<open>Properties\<close>

lemma card_save:
  assumes "finite (dom V)" and "V' = (\<lambda>k. if inRecord p k then map_of (bodyRows p d) k else V k)"
  shows "card (dom V') \<le> card (dom V) + length d + 1"
proof -
  have "dom V' \<subseteq> dom V \<union> fst ` set (bodyRows p d)"
    unfolding assms(2) by (auto simp: dom_map_of_conv_image_fst [symmetric] split: if_splits)
  then have "card (dom V') \<le> card (dom V \<union> fst ` set (bodyRows p d))" using assms(1) by (intro card_mono) simp_all
  also have "\<dots> \<le> card (dom V) + card (fst ` set (bodyRows p d))" by (rule card_Un_le)
  also have "card (fst ` set (bodyRows p d)) \<le> length d + 1"
    using card_length [of "map fst (bodyRows p d)"] bodyRows_length [of p d] by simp
  finally show ?thesis by simp
qed

text \<open>
  (C5) A record that is saved is the record that is loaded.  In a simulated transaction where a primary key
  holds a record or none, and the sizes of that record are given, saving bytes that fit succeeds, whatever the
  lengths of the old and the new record: afterwards the range of the key holds exactly the new bytes, one value
  up to 100000 bytes and chunks beyond, with nothing left of the old record and of its inline version; loading
  returns the bytes, with the sizes that the save reported; and no key outside the range has changed.
\<close>

theorem saveWithSplit_load:
  assumes "simReady db (spTx s)" and "length (buildView db (ensureReadVersion db (spTx s))) + length d < maxRows"
    and "packable pk" and "pk \<noteq> []" and "splitLong \<or> length d \<le> 100000" and "splitLong \<or> \<not> omit"
    and "holdsRecord (simView db (spTx s)) (recordPrefix ss pk) r"
  shows "\<exists>s'. saveWithSplit (simOps db) api pooled s ss pk d splitLong omit (sizesOf (recordPrefix ss pk) r) = (s', None) \<and>
    holdsRecord (simView db (spTx s')) (recordPrefix ss pk) (Some (None, d)) \<and>
    (\<forall>k. \<not> inRecord (recordPrefix ss pk) k \<longrightarrow> simView db (spTx s') k = simView db (spTx s) k) \<and>
    snd (loadWithSplit (simOps db) pooled (spTx s') ss pk splitLong omit snapshot) =
      Inr (recordSizes (recordPrefix ss pk) None d, Some d) \<and>
    spSizes s' = map_option (\<lambda>_. recordSizes (recordPrefix ss pk) None d) (spSizes s)"
proof -
  let ?p = "recordPrefix ss pk"
  have d: "length d < 2 ^ 63" using assms(2) by (simp add: maxRows_def)
  have occ: "occupies (simView db (spTx s)) ?p (sizesOf ?p r)" using occupies_record [OF assms(7)] .
  obtain s' where s': "saveWithSplit (simOps db) api pooled s ss pk d splitLong omit (sizesOf ?p r) = (s', None)"
      "simReady db (spTx s')"
      "simView db (spTx s') = (\<lambda>k. if inRecord ?p k then map_of (bodyRows ?p d) k else simView db (spTx s) k)"
      "spSizes s' = map_option (\<lambda>_. bodySizes ?p d) (spSizes s)"
  proof (cases "length d > splitRecordSize")
    case True
    then have "splitLong" using assms(5) by (simp add: splitRecordSize_def)
    then show ?thesis using sim.save_long [OF assms(3,4,1) d True occ, of api pooled omit True] that
      by (auto simp: saveWithSplit_def)
  next
    case False
    then show ?thesis using sim.save_short [OF assms(3,4,1) _ assms(6), of d ss "sizesOf ?p r" True api pooled] occ that
      by (auto simp: saveWithSplit_def)
  qed
  have "card (dom (simView db (spTx s))) + length d < maxRows"
    using card_simView [OF assms(1) order.refl] assms(2) by linarith
  then have small: "card (dom (simView db (spTx s'))) \<le> maxRows"
    using card_save [OF sim.finite_view [OF assms(1)] s'(3)] by linarith
  have rec: "holdsRecord (simView db (spTx s')) ?p (Some (None, d))"
    unfolding s'(3) by (simp add: holdsRecord_def versionRows_def)
  obtain tx' ld where "startLoadWithSplit (simOps db) pooled (spTx s') ss pk splitLong omit None snapshot = (tx', Inr ld)"
      "\<forall>si. finishLoad ld si = Inr (recordSizes ?p None d, Some d, None)"
    using sim.load_record [OF s'(2) small assms(3,6) d rec, of MaxVersion pooled snapshot] by auto
  then have "snd (loadWithSplit (simOps db) pooled (spTx s') ss pk splitLong omit snapshot) = Inr (recordSizes ?p None d, Some d)"
    by (simp add: loadWithSplit_def)
  with s' rec show ?thesis by (intro exI [of _ s']) (simp add: recordSizes_body)
qed

text \<open>The empty database of the witnesses, and a record of 150000 bytes.\<close>

lemma example_empty: "holdsRecord (simView (newSimDB None) newTxn) p None"
  by (simp add: holdsRecord_def simView_new)

lemma example_view: "length (buildView (newSimDB None) (ensureReadVersion (newSimDB None) newTxn)) = 0"
  by (simp add: buildView_def newSimDB_def newTxn_def ensureReadVersion_def sortedView_def)

definition exampleState :: "simTxn splitState" where
  "exampleState = \<lparr>spTx = newTxn, spContext = None, spSizes = Some noSizes\<rparr>"

theorem saveWithSplit_load_witness:
  "\<exists>s'. saveWithSplit (simOps (newSimDB None)) (Some 730) newPacker exampleState \<lparr>rawPrefix = [9]\<rparr> [EInt64 4]
        (replicate 150000 7) True False None = (s', None) \<and>
    snd (loadWithSplit (simOps (newSimDB None)) newPacker (spTx s') \<lparr>rawPrefix = [9]\<rparr> [EInt64 4] True False False) =
      Inr (recordSizes (recordPrefix \<lparr>rawPrefix = [9]\<rparr> [EInt64 4]) None (replicate 150000 7), Some (replicate 150000 7))"
  using saveWithSplit_load [of "newSimDB None" exampleState "replicate 150000 7" "[EInt64 4]" True False "\<lparr>rawPrefix = [9]\<rparr>" None
      "Some 730" newPacker False] simReady_new example_empty example_view
  by (auto simp: exampleState_def maxRows_def sizesOf_def)

lemma recordPrefix_bounded:
  assumes "packable pk" "pk \<noteq> []"
  shows "\<exists>r. PrefixRange (recordPrefix ss pk) = Some r \<and>
    (\<forall>k. Begin r \<le> k \<and> k < End r \<longleftrightarrow> hasPrefix k (recordPrefix ss pk))"
proof -
  obtain e t where pk: "pk = e # t" using assms(2) by (cases pk) auto
  obtain c x where c: "elem_code False e = c # x" "c \<noteq> 0xFF" using elem_code_hd by blast
  have "recordPrefix ss pk \<noteq> replicate (length (recordPrefix ss pk)) 0xFF"
  proof
    assume "recordPrefix ss pk = replicate (length (recordPrefix ss pk)) 0xFF"
    then have "c = 0xFF" using c pk by (metis append_Cons in_set_conv_decomp in_set_replicate recordPrefix_def tuple_code_simps(2))
    with c(2) show False by simp
  qed
  then obtain e where "Strinc (recordPrefix ss pk) = Some e" using Strinc_None by blast
  then show ?thesis using Strinc_Some by (auto simp: PrefixRange_def)
qed

lemma exists_spec:
  assumes "simReady db tx" and "packable pk" and "pk \<noteq> []" and "splitLong \<or> \<not> omit"
  shows "snd (recordExistsWithSplit (simOps db) pooled tx ss pk splitLong omit snapshot) =
    Inr (\<exists>k. hasPrefix k (recordPrefix ss pk) \<and> simView db tx k \<noteq> None)"
proof -
  obtain r where r: "PrefixRange (recordPrefix ss pk) = Some r"
      "\<forall>k. Begin r \<le> k \<and> k < End r \<longleftrightarrow> hasPrefix k (recordPrefix ss pk)" using recordPrefix_bounded [OF assms(2,3)] by blast
  obtain tx' R where R: "opGetRange (simOps db) tx (Begin r) (End r) \<lparr>Limit = 1, Mode = 0, Reverse = False\<rparr> snapshot =
      (tx', Inr (rowLimit 1 R))" "rowsIn (simView db tx) (Begin r) (End r) R"
    using sim.range_view [OF assms(1), of "\<lparr>Limit = 1, Mode = 0, Reverse = False\<rparr>" "Begin r" "End r" snapshot] by auto
  have "rowLimit 1 R \<noteq> [] \<longleftrightarrow> (\<exists>k v. (k, v) \<in> set R)" by (cases R) (auto simp: rowLimit_def)
  also have "\<dots> \<longleftrightarrow> (\<exists>k. hasPrefix k (recordPrefix ss pk) \<and> simView db tx k \<noteq> None)"
    using rowsIn_set [OF R(2)] r(2) by auto
  finally have "rowLimit 1 R \<noteq> [] \<longleftrightarrow> (\<exists>k. hasPrefix k (recordPrefix ss pk) \<and> simView db tx k \<noteq> None)" .
  moreover have "\<not> (\<not> splitLong \<and> omit)" using assms(4) by simp
  ultimately show ?thesis using R(1) r(1) assms(2) by (simp add: recordExistsWithSplit_def del: de_Morgan_conj)
qed



lemma clearPrevious_sizes: "clearPreviousRecord ops pooled s ss pk c old = (s', r) \<Longrightarrow> spSizes s' = spSizes s"
  by (auto simp: clearPreviousRecord_def Let_def split: prod.splits option.splits sum.splits if_splits)

lemma unsplitSizes_eq: "unsplitSizes k n si = noSizes\<lparr>KeyCount := 1, KeySize := length k, ValueSize := n\<rparr>"
  by (cases si) (simp add: unsplitSizes_def noSizes_def)

lemma split_saved_sizes:
  assumes "packable pk" "pk \<noteq> []" and "spSizes s = Some si" and "length d > splitRecordSize"
    and "saveSplit ops api pooled s ss pk d splitLong omit True old = (s', None)"
  shows "spSizes s' = Some ((countRows (splitRows (recordPrefix ss pk) 1 d) noSizes)\<lparr>IsSplit := True\<rparr>)"
proof -
  note defs = saveSplit_def packable_complete assms(1,2,4)
  have "splitLong" using assms(5) by (auto simp: defs split: if_splits)
  then obtain s1 where s1: "clearPreviousRecord ops pooled s ss pk True old = (s1, None)"
      "s' = setSizes (\<lambda>si. si\<lparr>IsSplit := True\<rparr>) (fst (saveChunks ops api pooled (setSizes (\<lambda>_. noSizes) s1) ss pk d False 1 0))"
    using assms(5) by (auto simp: defs split: prod.splits option.splits)
  have "spSizes s1 = Some si" using clearPrevious_sizes [OF s1(1)] assms(3) by simp
  then show ?thesis
    using saveChunks_eq [OF assms(1), of ops api pooled "setSizes (\<lambda>_. noSizes) s1" ss d 1 0] unfolding s1(2)
    by (simp add: setSizes_def)
qed

lemma unsplit_saved_sizes:
  assumes "packable pk" "pk \<noteq> []" and "spSizes s = Some si" and "length d \<le> splitRecordSize"
    and "saveSplit ops api pooled s ss pk d splitLong omit True old = (s', None)"
  shows "spSizes s' = Some (noSizes\<lparr>KeyCount := 1,
    KeySize := length (if \<not> splitLong \<and> omit then recordPrefix ss pk else recordKey (recordPrefix ss pk) unsplitRecord),
    ValueSize := length d\<rparr>)"
proof (cases "\<not> splitLong \<and> omit")
  case True
  then have "s' = setSizes (unsplitSizes (recordPrefix ss pk) (length d)) (s\<lparr>spTx := opSet ops (spTx s) (recordPrefix ss pk) d\<rparr>)"
    using assms by (simp add: saveSplit_def packable_complete writeSplitValue_def)
  then show ?thesis using True assms(3) by (simp add: setSizes_def unsplitSizes_eq)
next
  case False
  let ?k = "recordKey (recordPrefix ss pk) unsplitRecord"
  obtain s2 where s2: "(if splitLong \<or> old = None \<or> VersionedInline (the old) \<or> IsSplit (the old)
      then clearPreviousRecord ops pooled s ss pk True old else (s, None)) = (s2, None)"
      "s' = setSizes (unsplitSizes ?k (length d)) (s2\<lparr>spTx := opSet ops (spTx s2) ?k d\<rparr>)"
    using assms(5,4,2) False by (auto simp: saveSplit_def packable_complete assms(1) split: prod.splits option.splits)
  have "spSizes s2 = Some si"
    using s2(1) assms(3) clearPrevious_sizes [of ops pooled s ss pk True old s2 None] by (auto split: if_splits)
  then show ?thesis unfolding s2(2) if_not_P [OF False] by (simp add: setSizes_def unsplitSizes_eq)
qed

text \<open>
  (C40) The dry run tells what a save writes: for every kind of transaction, a save that succeeds under a
  complete primary key reports exactly the sizes that \<^verbatim>\<open>dryRunSaveWithSplitSizeInfo\<close> computes without writing,
  in the split, the unsplit and the legacy layout.
\<close>

theorem dryRun_saves:
  assumes "packable pk" and "spSizes s = Some si"
    and "saveWithSplit ops api pooled s ss pk d splitLong omit old = (s', None)"
  shows "\<exists>sizes. spSizes s' = Some sizes \<and> dryRunSaveWithSplitSizeInfo pooled' ss pk d splitLong omit = Inr sizes"
proof -
  have pk: "pk \<noteq> []" using assms(3) by (auto simp: saveWithSplit_def saveSplit_def split: if_splits)
  note save = assms(3) [unfolded saveWithSplit_def]
  show ?thesis
  proof (cases "length d > splitRecordSize")
    case True
    then show ?thesis
      using split_saved_sizes [OF assms(1) pk assms(2) _ save] dryRunChunks_eq [OF assms(1), of pooled' ss d 1 0 noSizes]
      by (simp add: dryRunSaveWithSplitSizeInfo_def)
  next
    case False
    then show ?thesis using unsplit_saved_sizes [OF assms(1) pk assms(2) _ save]
      by (simp add: dryRunSaveWithSplitSizeInfo_def assms(1))
  qed
qed

theorem dryRun_saves_witness:
  "\<exists>s' sizes. saveWithSplit (simOps (newSimDB None)) (Some 730) newPacker exampleState \<lparr>rawPrefix = [9]\<rparr> [EInt64 4]
      [1, 2] True False None = (s', None) \<and> spSizes s' = Some sizes \<and>
    dryRunSaveWithSplitSizeInfo newPacker \<lparr>rawPrefix = [9]\<rparr> [EInt64 4] [1, 2] True False = Inr sizes"
proof -
  have "occupies (simView (newSimDB None) newTxn) (recordPrefix \<lparr>rawPrefix = [9]\<rparr> [EInt64 4]) None"
    by (simp add: occupies_def simView_new)
  then obtain s' where s': "saveWithSplit (simOps (newSimDB None)) (Some 730) newPacker exampleState \<lparr>rawPrefix = [9]\<rparr> [EInt64 4]
      [1, 2] True False None = (s', None)"
    using sim.save_short [of "[EInt64 4]" "newSimDB None" exampleState "[1, 2]" True False "\<lparr>rawPrefix = [9]\<rparr>" None True "Some 730" newPacker]
      simReady_new by (auto simp: exampleState_def splitRecordSize_def saveWithSplit_def)
  have "spSizes exampleState = Some noSizes" by (simp add: exampleState_def)
  from dryRun_saves [OF _ this s', of newPacker] s' show ?thesis by auto
qed

text \<open>
  (C15) No torn record is ever returned.  Whatever rows the range of a primary key holds, when a load returns
  bytes then the rows other than the version have the suffixes 0 alone or 1, 2, ... without a gap, and the
  bytes are their values put together; every other arrangement, such as a missing or a repeated chunk, an
  unsplit value next to chunks or a version without a record, is an error.
\<close>

theorem readRange_whole:
  assumes "readRange ld = Inr (si, Some d, v)" and "length (fst (loadRange ld)) < 2 ^ 63"
  shows "\<exists>idx. length idx = length (fst (loadRange ld)) \<and>
    (\<forall>j < length idx. splitIndexOf (length (loadPrefix ld)) (fst (fst (loadRange ld) ! j)) = Inr (idx ! j)) \<and>
    wholeData (dataRows idx (fst (loadRange ld))) \<and> d = concat (map snd (dataRows idx (fst (loadRange ld)))) \<and>
    snd (loadRange ld) = None"
proof -
  let ?st = "\<lparr>rdResult = None, rdVersion = loadVersion ld, rdLastIndex = 0, rdSizes = loadLocalSize ld\<rparr>"
  obtain st where st: "readRows (length (loadPrefix ld)) ?st (fst (loadRange ld)) = Inr st" "rdResult st = Some d"
      "snd (loadRange ld) = None"
    using assms(1) by (auto simp: readRange_def split: option.splits sum.splits if_splits)
  have "readInv ?st []" by (simp add: readInv_def)
  from readRows_inv [OF st(1) this] assms(2) obtain idx where idx: "length idx = length (fst (loadRange ld))"
      "\<forall>j < length (fst (loadRange ld)). splitIndexOf (length (loadPrefix ld)) (fst (fst (loadRange ld) ! j)) = Inr (idx ! j)"
      "readInv st (dataRows idx (fst (loadRange ld)))" by auto
  then have "wholeData (dataRows idx (fst (loadRange ld)))" "d = concat (map snd (dataRows idx (fst (loadRange ld))))"
    using st(2) unfolding readInv_def wholeData_def by (auto split: if_splits)
  with idx st(3) show ?thesis by auto
qed

text \<open>Two chunks below the prefix 9.\<close>

definition exampleLoad :: pendingRecordLoad where
  "exampleLoad = \<lparr>loadPrefix = [9], loadValue = None,
     loadRange = ([([9, 0x15, 1], [7]), ([9, 0x15, 2], [8, 8])], None), loadVersion = None,
     loadLocalSize = noSizes, loadLocalErr = None\<rparr>"

lemma exampleLoad_reads: "map_sum id (\<lambda>(si, d, v). (d, v)) (readRange exampleLoad) = Inr (Some [7, 8, 8], None)"
  by code_simp

theorem readRange_whole_witness:
  "\<exists>idx. length idx = 2 \<and> wholeData (dataRows idx [([9, 0x15, 1], [7]), ([9, 0x15, 2], [8, 8])]) \<and>
    concat (map snd (dataRows idx [([9, 0x15, 1], [7]), ([9, 0x15, 2], [8, 8])])) = [7, 8, 8]"
proof -
  obtain si where "readRange exampleLoad = Inr (si, Some [7, 8, 8], None)"
    using exampleLoad_reads by (cases "readRange exampleLoad") auto
  from readRange_whole [OF this] obtain idx where "length idx = length (fst (loadRange exampleLoad))"
      "wholeData (dataRows idx (fst (loadRange exampleLoad)))" "[7, 8, 8] = concat (map snd (dataRows idx (fst (loadRange exampleLoad))))"
    by (auto simp: exampleLoad_def)
  then show ?thesis by (intro exI [of _ idx]) (simp add: exampleLoad_def)
qed

end
