(* ===== verification/Spec2Isabelle.thy ===== *)
theory Spec2Isabelle
  imports RangeSets TupleOrdering SimRetry SimBounds VersionCommit SplitHelper
begin

text \<open>
  Verification of the Go client library and record layer for FoundationDB.

  The repository has four layers.  The client library (\<^verbatim>\<open>src/pkg/fdbgo\<close>) encodes tuples as ordered keys,
  cuts the key space into subspaces and talks to a cluster.  A simulated database (\<^verbatim>\<open>src/pkg/simfdb\<close>) has
  the transactions of the client library over a versioned store in memory, with injected faults; the layers
  above run on it unchanged in tests.  The record layer (\<^verbatim>\<open>src/pkg/recordlayer\<close>) stores records, versions and
  index entries under tuple keys through the transaction interface.  The relational layer
  (\<^verbatim>\<open>src/pkg/relational\<close>) plans and runs SQL on the record layer.  The development covers the first of these as
  far as data is encoded, the whole simulated database, and the parts of the record layer that work
  directly on keys and transactions.

  \<^bold>\<open>Conventions.\<close>  A byte is an 8-bit word and a key a list of bytes, ordered lexicographically as
  \<^verbatim>\<open>bytes.Compare\<close> orders them; a slice that the code tells apart from nil is an option.  Machine integers are
  words where they can wrap around and numbers elsewhere.  A function that returns an error has a sum type
  with the error on the left; a Go panic that the code can reach is such an error too.  A transaction or a
  database that a method changes is an argument and a result.  What the code draws at random (the faults of a
  commit) or takes from elsewhere (the pooled packer, the selected API version, the order in which \<^verbatim>\<open>range\<close>
  visits a map, the time of a simulated clock) is an argument.  Loops are recursive functions with a
  termination proof; no definition uses fuel.

  \<^bold>\<open>Shared theories.\<close>  \<^theory_text>\<open>Prelude\<close> has the byte strings, their order, big- and little-endian codes and the
  binary search of \<^verbatim>\<open>sort.Search\<close>.  \<^theory_text>\<open>IntervalMap\<close> has sets of disjoint intervals kept as maps.  Four locales
  state the interfaces between the components: \<^theory_text>\<open>Codec\<close> (ordered key encodings, interpreted by packed
  tuples, by subspaces and by the four tuple orderings), \<^theory_text>\<open>MVCC\<close> (a multi-version store, interpreted by
  the simulated store), \<^theory_text>\<open>KeyRanges\<close> (lists of key ranges, interpreted by the cleared, the unreadable and
  the known ranges of a transaction) and \<^theory_text>\<open>KVTransaction\<close> (the transaction interface of
  \<^verbatim>\<open>pkg/fdbgo/fdb/interfaces.go\<close>, interpreted by the simulated transaction in \<^theory_text>\<open>SimKV\<close>).

  \<^bold>\<open>Tuple layer.\<close>  \<^theory_text>\<open>TupleEncode\<close> and \<^theory_text>\<open>TupleDecode\<close> model \<^verbatim>\<open>pkg/fdbgo/fdb/tuple/tuple.go\<close>: the packer with its
  buffer, every encoder, every packing entry point, the decoder with its errors.  \<^theory_text>\<open>TupleCode\<close> is the format
  as a function and shows that the encoders write it; \<^theory_text>\<open>TupleVersionstamp\<close> shows where a versionstamp is put.
  Unpacking inverts packing up to the Go types of integers, and what the decoder returns is well typed and can
  be packed again.  \<^theory_text>\<open>TupleCompare\<close> (\<^verbatim>\<open>pkg/recordlayer/tuple_compare.go\<close>) compares tuples without packing them;
  its verdict is the byte order of the packed tuples.  \<^theory_text>\<open>TupleFast\<close> (\<^verbatim>\<open>internal/tuplefast\<close>) is the decoder of the
  scan paths; it accepts the same byte strings as the tuple layer with the same results, its validator and
  its skipping functions agree with it.  \<^theory_text>\<open>TupleOrdering\<close> (\<^verbatim>\<open>tupleordering\<close>) packs in four directions: round
  trips, and the order that each direction promises.  \<^theory_text>\<open>Keys\<close> (\<^verbatim>\<open>key.go\<close>, \<^verbatim>\<open>range.go\<close>) has selectors and prefix ranges,
  \<^theory_text>\<open>Subspace\<close> (\<^verbatim>\<open>subspace.go\<close>) tuples below a prefix.

  \<^bold>\<open>Simulated database.\<close>  \<^theory_text>\<open>SimAtomic\<close> (\<^verbatim>\<open>atomic.go\<close>) has the atomic mutations; \<^theory_text>\<open>SimStore\<close> (\<^verbatim>\<open>store.go\<close>) the sorted
  entries with their histories, point reads, range reads and range reads with limits.  \<^theory_text>\<open>SimTxn\<close> (\<^verbatim>\<open>txn.go\<close>) has
  the state of a transaction and its operations: reads over the write buffer, writes, unreadable keys,
  conflict ranges, options, errors and resets.  \<^theory_text>\<open>SimWriteMap\<close> (\<^verbatim>\<open>ryw_conflict.go\<close>) decides which reads take
  conflicts.  \<^theory_text>\<open>SimSelector\<close> (\<^verbatim>\<open>selector_range.go\<close>, \<^verbatim>\<open>selector_unreadable.go\<close>) reduces key selectors over what is
  known; \<^theory_text>\<open>SimRange\<close> (\<^verbatim>\<open>range_result.go\<close>, \<^verbatim>\<open>modebytes.go\<close>) collects ranges batch by batch and iterates them.
  \<^theory_text>\<open>SimCommit\<close> (\<^verbatim>\<open>conflict.go\<close>, \<^verbatim>\<open>simfdb.go\<close>) has the size limits, the resolver, the faults and the application of the
  mutations; \<^theory_text>\<open>SimRetry\<close> the loops of \<^verbatim>\<open>Transact\<close>.  \<^theory_text>\<open>SimView\<close> shows that point reads, whole views and pages of
  a view agree and that the conflict filter drops only reads that do not depend on the database;
  \<^theory_text>\<open>SimRange\<close> that collected and iterated ranges are the rows of the view.  \<^theory_text>\<open>SimSerial\<close> lets any number of
  sessions interleave, as a step relation with reachable states: reads are repeatable, the store is the history
  of the commits, and a commit that takes effect is serializable without a clock; with a simulated clock it
  is not, as a reachable lost update shows.  \<^theory_text>\<open>SimBounds\<close> shows that the sizes in the store stay within the
  limits; \<^theory_text>\<open>SimRetry\<close> that the retry loop ends, loses no write to scheduled faults, and can apply an addition twice.

  \<^bold>\<open>Record layer.\<close>  \<^theory_text>\<open>RangeSets\<close> (\<^verbatim>\<open>range_set.go\<close>) inserts, tests, lists the gaps of and clears sets of keys
  kept in a subspace; the lemmas are proved under the contract of a transaction and hold for the simulated one.
  \<^theory_text>\<open>RecordVersion\<close> (\<^verbatim>\<open>record_version.go\<close>) has the versions of records and their stored forms,
  \<^theory_text>\<open>RecordContext\<close> (\<^verbatim>\<open>database.go\<close>, \<^verbatim>\<open>store_version.go\<close>) the version counter, cache and queue of a context and the
  saving and loading of versions; \<^theory_text>\<open>VersionCommit\<close> follows a version from its save through the commit of the
  simulated database to the load in a later transaction.  \<^theory_text>\<open>SplitHelper\<close> (\<^verbatim>\<open>split_helper.go\<close>) stores the bytes
  of a record as one value or as chunks: a save leaves exactly the new record, a load returns it with the same
  sizes, a delete removes it, a dry run predicts the sizes, and whatever the rows, no torn record is returned.

  \<^bold>\<open>Bounds.\<close>  A range read without a row limit ends after \<open>2\<^sup>3\<^sup>1 - 1\<close> rows, so properties that collect a whole
  range assume a view with at most that many keys.  Lengths of byte strings are natural numbers; where an
  index computed from a length is kept in an int64, the property assumes what the memory of a machine implies.
  Properties about completed versionstamps assume an API version of at least 520, from which on the offset of a
  versionstamp has four bytes.

  \<^bold>\<open>Not modelled.\<close>  The wire protocol, the transport, the cluster client with its load balancing and read
  version batching, and the bindings to the C library exchange messages with servers whose behaviour is not in
  the repository.  Futures, goroutines and locks are left out: a simulated future is ready when it is returned,
  and the record layer's background readers compute what the modelled functions compute.  Of the record
  layer, the store with its indexes, cursors and metadata, the query planner and the vector and rank indexes
  work on protocol buffer messages through reflection and generated code, and are not modelled; nor is the
  relational layer, which works on parse trees of a generated parser and on the plans of that planner.
  Instrumentation, logging, test harnesses, linters, command-line tools and generated code are not part of
  the behaviour described here.
\<close>

end
